(* ===== verification/Prelude.thy ===== *)
theory Prelude
  imports Main "HOL-Library.Word" "HOL-Library.Sublist" "HOL-Library.Code_Target_Nat"
begin

text \<open>
  What the components of the development share.

  \<^item> \<open>bind_res\<close>: Go's \<^verbatim>\<open>if err != nil { return err }\<close>, sequencing on the
    sum type \<open>'e + 'a\<close> whose left summand is the error.
  \<^item> The part of Go's \<^verbatim>\<open>strings\<close> package the sources use on one-byte
    separators: \<open>split_on\<close> (\<^verbatim>\<open>strings.Split\<close>), \<open>join_with\<close>
    (\<^verbatim>\<open>strings.Join\<close>), \<open>TrimPrefix\<close>, and \<open>prefix\<close> of the library for
    \<^verbatim>\<open>strings.HasPrefix\<close>.
  \<^item> The part of \<^verbatim>\<open>strconv\<close> the sources use: \<open>parse_uint\<close>
    (\<^verbatim>\<open>ParseUint\<close> in base 10), \<open>atoi\<close> (the value \<^verbatim>\<open>Atoi\<close> returns, with or
    without an error) and \<open>itoa\<close>.
  \<^item> The collections \<open>go_string_simps\<close> (evaluation of the string operations) and
    \<open>wire_simps\<close> (a reader applied to what its writer produced).
\<close>

named_theorems go_string_simps
named_theorems wire_simps

type_synonym bytes = "8 word list"

subsection \<open>Errors as values\<close>

fun bind_res :: "'e + 'a \<Rightarrow> ('a \<Rightarrow> 'e + 'b) \<Rightarrow> 'e + 'b" where
  "bind_res (Inl e) f = Inl e"
| "bind_res (Inr x) f = f x"

subsection \<open>The strings package on one-byte separators\<close>

fun split_on :: "'a \<Rightarrow> 'a list \<Rightarrow> 'a list list" where
  "split_on c [] = [[]]"
| "split_on c (x # xs) =
     (if x = c then [] # split_on c xs
      else (case split_on c xs of [] \<Rightarrow> [[x]] | y # ys \<Rightarrow> (x # y) # ys))"

fun join_with :: "'a list \<Rightarrow> 'a list list \<Rightarrow> 'a list" where
  "join_with sep [] = []"
| "join_with sep [x] = x"
| "join_with sep (x # y # ys) = x @ sep @ join_with sep (y # ys)"

definition TrimPrefix :: "'a list \<Rightarrow> 'a list \<Rightarrow> 'a list" where
  "TrimPrefix s p = (if prefix p s then drop (length p) s else s)"

subsection \<open>The strconv package\<close>

datatype num_error = ErrSyntax | ErrRange

definition digit_of :: "char \<Rightarrow> nat option" where
  "digit_of c =
     (let n = of_char c in if 48 \<le> n \<and> n \<le> 57 then Some (n - 48) else None)"

definition char_of_digit :: "nat \<Rightarrow> char" where
  "char_of_digit d = char_of (48 + d)"

text \<open>
  The loop of \<^verbatim>\<open>strconv.ParseUint(s, 10, bitSize)\<close>: an overflow is reported at the
  digit where it happens, before later characters are looked at.
\<close>

fun parse_uint_loop :: "nat \<Rightarrow> nat \<Rightarrow> string \<Rightarrow> num_error + nat" where
  "parse_uint_loop m n [] = Inr n"
| "parse_uint_loop m n (c # cs) =
     (case digit_of c of None \<Rightarrow> Inl ErrSyntax
      | Some d \<Rightarrow> if m < 10 * n + d then Inl ErrRange else parse_uint_loop m (10 * n + d) cs)"

definition parse_uint :: "nat \<Rightarrow> string \<Rightarrow> num_error + nat" where
  "parse_uint bitSize s =
     (if s = [] then Inl ErrSyntax else parse_uint_loop (2 ^ bitSize - 1) 0 s)"

text \<open>
  The value part of \<^verbatim>\<open>strconv.Atoi\<close> on a 64-bit platform: 0 on a syntax error, the
  nearest bound on a range error.
\<close>

definition atoi_mag :: "bool \<Rightarrow> string \<Rightarrow> int" where
  "atoi_mag neg s =
     (case parse_uint 64 s of
        Inl ErrSyntax \<Rightarrow> 0
      | Inl ErrRange \<Rightarrow> (if neg then - (2 ^ 63) else 2 ^ 63 - 1)
      | Inr n \<Rightarrow>
          (if neg then (if 2 ^ 63 < int n then - (2 ^ 63) else - int n)
           else (if 2 ^ 63 \<le> int n then 2 ^ 63 - 1 else int n)))"

definition atoi :: "string \<Rightarrow> int" where
  "atoi s =
     (case s of [] \<Rightarrow> 0
      | c # cs \<Rightarrow>
          (if c = CHR ''-'' then atoi_mag True cs
           else if c = CHR ''+'' then atoi_mag False cs
           else atoi_mag False s))"

fun itoa :: "nat \<Rightarrow> string" where
  "itoa n = (if n < 10 then [char_of_digit n] else itoa (n div 10) @ [char_of_digit (n mod 10)])"

declare itoa.simps [simp del]

subsection \<open>Lemmas\<close>

lemma bind_res_Inr_iff [simp]:
  "bind_res r f = Inr y \<longleftrightarrow> (\<exists>x. r = Inr x \<and> f x = Inr y)"
  by (cases r) auto

lemma split_on_not_Nil [simp]: "split_on c xs \<noteq> []"
  by (induction xs) (auto split: list.splits)

lemma split_on_no_sep [go_string_simps]: "c \<notin> set a \<Longrightarrow> split_on c a = [a]"
  by (induction a) auto

lemma split_on_sep [go_string_simps]:
  "c \<notin> set a \<Longrightarrow> split_on c (a @ c # b) = a # split_on c b"
  by (induction a) auto

lemma join_split [simp]: "join_with [c] (split_on c xs) = xs"
proof (induction xs)
  case Nil
  then show ?case by simp
next
  case (Cons x xs)
  obtain y ys where y: "split_on c xs = y # ys"
    by (cases "split_on c xs") auto
  with Cons.IH show ?case by (cases ys) auto
qed

lemma digit_of_char_of_digit [simp]: "d < 10 \<Longrightarrow> digit_of (char_of_digit d) = Some d"
  by (simp add: digit_of_def char_of_digit_def Let_def)

lemma parse_uint_loop_append:
  "parse_uint_loop m n xs = Inr k \<Longrightarrow> parse_uint_loop m n (xs @ ys) = parse_uint_loop m k ys"
  by (induction xs arbitrary: n) (auto split: option.splits if_splits)

lemma parse_uint_loop_itoa: "n \<le> m \<Longrightarrow> parse_uint_loop m 0 (itoa n) = Inr n"
proof (induction n rule: itoa.induct)
  case (1 n)
  show ?case
  proof (cases "n < 10")
    case True
    with "1.prems" show ?thesis by (subst itoa.simps) simp
  next
    case False
    have "n div 10 \<le> m" using "1.prems" by linarith
    with False "1.IH" have "parse_uint_loop m 0 (itoa (n div 10)) = Inr (n div 10)" by simp
    then have "parse_uint_loop m 0 (itoa n) = parse_uint_loop m (n div 10) [char_of_digit (n mod 10)]"
      using False by (subst itoa.simps) (simp add: parse_uint_loop_append)
    with "1.prems" show ?thesis by simp
  qed
qed

lemma itoa_not_Nil [simp]: "itoa n \<noteq> []"
  by (subst itoa.simps) simp

lemma itoa_digits: "c \<in> set (itoa n) \<Longrightarrow> digit_of c \<noteq> None"
proof (induction n rule: itoa.induct)
  case (1 n)
  then show ?case
    by (cases "n < 10") (auto simp: itoa.simps [of n])
qed

lemma parse_uint_itoa [go_string_simps]:
  "n < 2 ^ b \<Longrightarrow> parse_uint b (itoa n) = Inr n"
  by (simp add: parse_uint_def parse_uint_loop_itoa)

lemma atoi_digits:
  assumes "s \<noteq> []" and "\<forall>c \<in> set s. digit_of c \<noteq> None"
  shows "atoi s = atoi_mag False s"
proof -
  obtain c cs where s: "s = c # cs" using assms(1) by (cases s) auto
  with assms(2) have "digit_of c \<noteq> None" by simp
  then have "c \<noteq> CHR ''-''" "c \<noteq> CHR ''+''"
    by (auto simp: digit_of_def Let_def split: if_splits)
  with s show ?thesis by (simp add: atoi_def)
qed

lemma atoi_itoa [go_string_simps]: "n < 2 ^ 63 \<Longrightarrow> atoi (itoa n) = int n"
  by (subst atoi_digits) (auto simp: itoa_digits atoi_mag_def parse_uint_itoa)

lemma TrimPrefix_same [go_string_simps]: "TrimPrefix (p @ s) p = s"
  by (simp add: TrimPrefix_def)

end
