(* ===== verification/Version.thy ===== *)
theory Version
  imports Prelude
begin

text \<open>
  \<^verbatim>\<open>src/common/badversion/version.go\<close>: the version numbers the program compares
  (minimum client versions, update checks) and prints.

  The struct is the record \<open>version\<close>; the comparison methods, the two printers and
  the parser are the definitions named after them. \<^verbatim>\<open>F.ToString\<close> on an integer is
  code of another package and is the parameter \<open>fmt\<close> of the printers; what the parser
  needs of it is the locale \<open>int_format\<close>, which \<open>strconv.Itoa\<close> satisfies.

  Shown: \<open>GreaterThan\<close> is a strict partial order, it decides every pair of canonical
  versions (no commit, identifier one of alpha, beta, rc or none), on which
  \<open>LessThan\<close> is its converse; \<open>Parse\<close> inverts \<open>version_String\<close>; it inverts
  \<open>BadString\<close> on releases and on alpha and beta versions, and not on rc versions.
\<close>

record version =
  Major :: int
  Minor :: int
  Patch :: int
  Commit :: string
  PreReleaseIdentifier :: string
  PreReleaseVersion :: int

definition zero_version :: version where
  "zero_version = \<lparr>Major = 0, Minor = 0, Patch = 0, Commit = [],
     PreReleaseIdentifier = [], PreReleaseVersion = 0\<rparr>"

definition parsePreReleaseIdentifier :: "string \<Rightarrow> int" where
  "parsePreReleaseIdentifier identifier =
     (if prefix ''rc'' identifier then 1
      else if prefix ''beta'' identifier then 2
      else if prefix ''alpha'' identifier then 3
      else 0)"

definition greater_prerelease :: "version \<Rightarrow> version \<Rightarrow> bool" where
  "greater_prerelease v w =
     (if PreReleaseIdentifier v \<noteq> [] \<and> PreReleaseIdentifier w \<noteq> [] then
        (if PreReleaseIdentifier v = PreReleaseIdentifier w
            \<and> PreReleaseVersion v > PreReleaseVersion w then True
         else if PreReleaseIdentifier v = PreReleaseIdentifier w
            \<and> PreReleaseVersion v < PreReleaseVersion w then False
         else
           (let p = parsePreReleaseIdentifier (PreReleaseIdentifier v);
                q = parsePreReleaseIdentifier (PreReleaseIdentifier w)
            in if p < q then True else if p > q then False else False))
      else False)"

definition GreaterThan :: "version \<Rightarrow> version \<Rightarrow> bool" where
  "GreaterThan v w =
     (if Major v > Major w then True else if Major v < Major w then False
      else if Minor v > Minor w then True else if Minor v < Minor w then False
      else if Patch v > Patch w then True else if Patch v < Patch w then False
      else if PreReleaseIdentifier v = [] \<and> PreReleaseIdentifier w \<noteq> [] then True
      else if PreReleaseIdentifier v \<noteq> [] \<and> PreReleaseIdentifier w = [] then False
      else greater_prerelease v w)"

definition GreaterThanOrEqual :: "version \<Rightarrow> version \<Rightarrow> bool" where
  "GreaterThanOrEqual v w \<longleftrightarrow> v = w \<or> GreaterThan v w"

definition LessThan :: "version \<Rightarrow> version \<Rightarrow> bool" where
  "LessThan v w \<longleftrightarrow> \<not> GreaterThanOrEqual v w"

definition LessThanOrEqual :: "version \<Rightarrow> version \<Rightarrow> bool" where
  "LessThanOrEqual v w \<longleftrightarrow> v = w \<or> GreaterThan w v"

definition VersionString :: "(int \<Rightarrow> string) \<Rightarrow> version \<Rightarrow> string" where
  "VersionString fmt v = fmt (Major v) @ ''.'' @ fmt (Minor v) @ ''.'' @ fmt (Patch v)"

definition version_String :: "(int \<Rightarrow> string) \<Rightarrow> version \<Rightarrow> string" where
  "version_String fmt v =
     (let s = fmt (Major v) @ ''.'' @ fmt (Minor v) @ ''.'' @ fmt (Patch v)
      in if PreReleaseIdentifier v \<noteq> []
         then s @ ''-'' @ PreReleaseIdentifier v @ ''.'' @ fmt (PreReleaseVersion v)
         else s)"

definition BadString :: "(int \<Rightarrow> string) \<Rightarrow> version \<Rightarrow> string" where
  "BadString fmt v =
     (let s = fmt (Major v) @ ''.'' @ fmt (Minor v);
          s = (if Patch v > 0 then s @ ''.'' @ fmt (Patch v) else s);
          s = (if PreReleaseIdentifier v \<noteq> []
               then (let t = s @ ''-'' @ PreReleaseIdentifier v
                     in if PreReleaseVersion v > 0 then t @ fmt (PreReleaseVersion v) else t)
               else s)
      in s)"

definition parse_identifier :: "string \<Rightarrow> version" where
  "parse_identifier identifier =
     (if CHR ''.'' \<in> set identifier then
        (let parts = split_on CHR ''.'' identifier;
             v = zero_version\<lparr>PreReleaseIdentifier := parts ! 0\<rparr>
         in if 2 \<le> length parts then v\<lparr>PreReleaseVersion := atoi (parts ! 1)\<rparr> else v)
      else if prefix ''alpha'' identifier then
        zero_version\<lparr>PreReleaseIdentifier := ''alpha'', PreReleaseVersion := atoi (drop 5 identifier)\<rparr>
      else if prefix ''beta'' identifier then
        zero_version\<lparr>PreReleaseIdentifier := ''beta'', PreReleaseVersion := atoi (drop 4 identifier)\<rparr>
      else zero_version\<lparr>Commit := identifier\<rparr>)"

definition parse_elements :: "string list \<Rightarrow> version \<Rightarrow> version" where
  "parse_elements elements v =
     (let n = length elements;
          v = (if 1 \<le> n then v\<lparr>Major := atoi (elements ! 0)\<rparr> else v);
          v = (if 2 \<le> n then v\<lparr>Minor := atoi (elements ! 1)\<rparr> else v);
          v = (if 3 \<le> n then v\<lparr>Patch := atoi (elements ! 2)\<rparr> else v)
      in v)"

definition Parse :: "string \<Rightarrow> version" where
  "Parse versionName0 =
     (let versionName = TrimPrefix versionName0 ''v''
      in if CHR ''-'' \<in> set versionName then
           (let parts = split_on CHR ''-'' versionName
            in parse_elements (split_on CHR ''.'' (parts ! 0)) (parse_identifier (parts ! 1)))
         else parse_elements (split_on CHR ''.'' versionName) zero_version)"

subsection \<open>The interface to the integer formatter\<close>

text \<open>
  What \<open>Parse\<close> relies on of the formatter: a non-negative \<^verbatim>\<open>int\<close> is printed as
  decimal digits that \<^verbatim>\<open>strconv.Atoi\<close> reads back.
\<close>

locale int_format =
  fixes fmt :: "int \<Rightarrow> string"
  assumes fmt_atoi: "0 \<le> n \<Longrightarrow> n < 2 ^ 63 \<Longrightarrow> atoi (fmt n) = n"
    and fmt_digits: "0 \<le> n \<Longrightarrow> n < 2 ^ 63 \<Longrightarrow> c \<in> set (fmt n) \<Longrightarrow> digit_of c \<noteq> None"
    and fmt_not_Nil: "0 \<le> n \<Longrightarrow> n < 2 ^ 63 \<Longrightarrow> fmt n \<noteq> []"
begin

lemma fmt_no_sep:
  "0 \<le> n \<Longrightarrow> n < 2 ^ 63 \<Longrightarrow> CHR ''.'' \<notin> set (fmt n)"
  "0 \<le> n \<Longrightarrow> n < 2 ^ 63 \<Longrightarrow> CHR ''-'' \<notin> set (fmt n)"
  "0 \<le> n \<Longrightarrow> n < 2 ^ 63 \<Longrightarrow> CHR ''v'' \<notin> set (fmt n)"
proof -
  assume n: "0 \<le> n" "n < 2 ^ 63"
  have "digit_of CHR ''.'' = None" "digit_of CHR ''-'' = None" "digit_of CHR ''v'' = None"
    by (simp_all add: digit_of_def)
  with fmt_digits [OF n] show "CHR ''.'' \<notin> set (fmt n)" "CHR ''-'' \<notin> set (fmt n)"
    "CHR ''v'' \<notin> set (fmt n)" by blast+
qed

lemma fmt_not_v:
  assumes "0 \<le> n" "n < 2 ^ 63"
  shows "\<not> prefix ''v'' (fmt n @ s)"
proof -
  obtain c cs where "fmt n = c # cs" using fmt_not_Nil [OF assms] by (cases "fmt n") auto
  with fmt_no_sep(3) [OF assms] show ?thesis by auto
qed

end

text \<open>\<^verbatim>\<open>strconv.Itoa\<close>, the decimal printer, meets the contract.\<close>

definition Itoa :: "int \<Rightarrow> string" where
  "Itoa n = (if n < 0 then CHR ''-'' # itoa (nat (- n)) else itoa (nat n))"

interpretation strconv_Itoa: int_format Itoa
  by unfold_locales (auto simp: Itoa_def atoi_itoa dest: itoa_digits)

subsection \<open>Order\<close>

text \<open>The versions releases carry: no commit, a known or no identifier.\<close>

definition canonical :: "version \<Rightarrow> bool" where
  "canonical v \<longleftrightarrow> Commit v = []
     \<and> PreReleaseIdentifier v \<in> {[], ''alpha'', ''beta'', ''rc''}
     \<and> (PreReleaseIdentifier v = [] \<longrightarrow> PreReleaseVersion v = 0)"

lemma greater_prerelease_iff:
  "greater_prerelease v w \<longleftrightarrow>
     PreReleaseIdentifier v \<noteq> [] \<and> PreReleaseIdentifier w \<noteq> [] \<and>
     (if PreReleaseIdentifier v = PreReleaseIdentifier w
      then PreReleaseVersion w < PreReleaseVersion v
      else parsePreReleaseIdentifier (PreReleaseIdentifier v)
             < parsePreReleaseIdentifier (PreReleaseIdentifier w))"
  by (auto simp: greater_prerelease_def Let_def)

text \<open>The comparison as one lexicographic condition, the form the order lemmas use.\<close>

definition newer_pre :: "version \<Rightarrow> version \<Rightarrow> bool" where
  "newer_pre v w \<longleftrightarrow>
     PreReleaseIdentifier w \<noteq> [] \<and>
     (PreReleaseIdentifier v = [] \<or>
      (if PreReleaseIdentifier v = PreReleaseIdentifier w
       then PreReleaseVersion w < PreReleaseVersion v
       else parsePreReleaseIdentifier (PreReleaseIdentifier v)
              < parsePreReleaseIdentifier (PreReleaseIdentifier w)))"

lemma GreaterThan_lex:
  "GreaterThan v w \<longleftrightarrow>
     Major w < Major v \<or> Major w = Major v \<and>
     (Minor w < Minor v \<or> Minor w = Minor v \<and>
      (Patch w < Patch v \<or> Patch w = Patch v \<and> newer_pre v w))"
proof -
  have "greater_prerelease v w \<longleftrightarrow> newer_pre v w"
    if "\<not> (PreReleaseIdentifier v = [] \<and> PreReleaseIdentifier w \<noteq> [])"
      "\<not> (PreReleaseIdentifier v \<noteq> [] \<and> PreReleaseIdentifier w = [])"
    using that by (cases "PreReleaseIdentifier v = []") (simp_all add: greater_prerelease_iff newer_pre_def)
  then show ?thesis
    by (simp add: GreaterThan_def) (auto simp: newer_pre_def)
qed

lemma newer_pre_irrefl: "\<not> newer_pre v v"
  by (simp add: newer_pre_def)

lemma newer_pre_trans: "newer_pre u v \<Longrightarrow> newer_pre v w \<Longrightarrow> newer_pre u w"
  unfolding newer_pre_def by (auto split: if_splits)

lemma newer_pre_total:
  assumes "canonical v" "canonical w" "Major v = Major w" "Minor v = Minor w" "Patch v = Patch w"
    and "v \<noteq> w"
  shows "newer_pre v w \<or> newer_pre w v"
proof -
  have "PreReleaseIdentifier v \<noteq> PreReleaseIdentifier w
      \<or> PreReleaseVersion v \<noteq> PreReleaseVersion w"
    using assms by (cases v; cases w) (simp add: canonical_def)
  moreover have "parsePreReleaseIdentifier ''rc'' = 1" "parsePreReleaseIdentifier ''beta'' = 2"
    "parsePreReleaseIdentifier ''alpha'' = 3" by (simp_all add: parsePreReleaseIdentifier_def)
  ultimately show ?thesis
    using assms(1,2) unfolding canonical_def newer_pre_def by auto
qed

lemma GreaterThan_irrefl: "\<not> GreaterThan v v"
  by (simp add: GreaterThan_lex newer_pre_irrefl)

lemma GreaterThan_trans: "GreaterThan u v \<Longrightarrow> GreaterThan v w \<Longrightarrow> GreaterThan u w"
  unfolding GreaterThan_lex using newer_pre_trans [of u v w] by linarith

lemma GreaterThan_total:
  assumes "canonical v" "canonical w" "v \<noteq> w"
  shows "GreaterThan v w \<or> GreaterThan w v"
  unfolding GreaterThan_lex using newer_pre_total [OF assms(1,2) _ _ _ assms(3)] by linarith

subsection \<open>Printing and parsing\<close>

text \<open>The versions a \<^verbatim>\<open>Version\<close> value of the program can print and read back.\<close>

definition printable :: "version \<Rightarrow> bool" where
  "printable v \<longleftrightarrow> 0 \<le> Major v \<and> Major v < 2 ^ 63 \<and> 0 \<le> Minor v \<and> Minor v < 2 ^ 63
     \<and> 0 \<le> Patch v \<and> Patch v < 2 ^ 63 \<and> 0 \<le> PreReleaseVersion v \<and> PreReleaseVersion v < 2 ^ 63
     \<and> Commit v = [] \<and> CHR ''-'' \<notin> set (PreReleaseIdentifier v)
     \<and> CHR ''.'' \<notin> set (PreReleaseIdentifier v)
     \<and> (PreReleaseIdentifier v = [] \<longrightarrow> PreReleaseVersion v = 0)"

context int_format
begin

lemma no_trim:
  "0 \<le> n \<Longrightarrow> n < 2 ^ 63 \<Longrightarrow> TrimPrefix (fmt n @ s) ''v'' = fmt n @ s"
  by (simp add: TrimPrefix_def fmt_not_v)

lemma split_dot:
  "0 \<le> n \<Longrightarrow> n < 2 ^ 63 \<Longrightarrow> split_on CHR ''.'' (fmt n @ CHR ''.'' # s) = fmt n # split_on CHR ''.'' s"
  "0 \<le> n \<Longrightarrow> n < 2 ^ 63 \<Longrightarrow> split_on CHR ''.'' (fmt n) = [fmt n]"
  by (simp_all add: split_on_sep split_on_no_sep fmt_no_sep)

lemma Parse_dash:
  assumes "0 \<le> n" "n < 2 ^ 63" "CHR ''-'' \<notin> set s" "CHR ''-'' \<notin> set t"
  shows "Parse ((fmt n @ s) @ CHR ''-'' # t)
     = parse_elements (split_on CHR ''.'' (fmt n @ s)) (parse_identifier t)"
proof -
  have "split_on CHR ''-'' ((fmt n @ s) @ CHR ''-'' # t) = [fmt n @ s, t]"
    using assms by (subst split_on_sep) (simp_all add: fmt_no_sep split_on_no_sep)
  with assms show ?thesis
    using no_trim [OF assms(1,2), of "s @ CHR ''-'' # t"] by (simp add: Parse_def)
qed

lemma Parse_no_dash:
  assumes "0 \<le> n" "n < 2 ^ 63" "CHR ''-'' \<notin> set s"
  shows "Parse (fmt n @ s) = parse_elements (split_on CHR ''.'' (fmt n @ s)) zero_version"
  using assms no_trim [OF assms(1,2), of s] by (simp add: Parse_def fmt_no_sep)

lemma parse_identifier_dotted:
  assumes "CHR ''.'' \<notin> set ident" "0 \<le> n" "n < 2 ^ 63"
  shows "parse_identifier (ident @ CHR ''.'' # fmt n)
     = zero_version\<lparr>PreReleaseIdentifier := ident, PreReleaseVersion := n\<rparr>"
  using assms by (simp add: parse_identifier_def split_on_sep split_dot fmt_atoi)

lemma parse_elements_three:
  assumes "printable v"
  shows "parse_elements (split_on CHR ''.''
      (fmt (Major v) @ CHR ''.'' # fmt (Minor v) @ CHR ''.'' # fmt (Patch v))) w
     = w\<lparr>Major := Major v, Minor := Minor v, Patch := Patch v\<rparr>"
  using assms by (simp add: printable_def parse_elements_def split_dot fmt_atoi)

lemma parse_elements_two:
  assumes "printable v"
  shows "parse_elements (split_on CHR ''.'' (fmt (Major v) @ CHR ''.'' # fmt (Minor v))) w
     = w\<lparr>Major := Major v, Minor := Minor v\<rparr>"
  using assms by (simp add: printable_def parse_elements_def split_dot fmt_atoi)

lemma Parse_version_String:
  assumes p: "printable v"
  shows "Parse (version_String fmt v) = v"
proof -
  let ?s = "CHR ''.'' # fmt (Minor v) @ CHR ''.'' # fmt (Patch v)"
  let ?t = "PreReleaseIdentifier v @ CHR ''.'' # fmt (PreReleaseVersion v)"
  have b: "0 \<le> Major v" "Major v < 2 ^ 63" "CHR ''-'' \<notin> set ?s" "CHR ''-'' \<notin> set ?t"
    using p by (auto simp: printable_def fmt_no_sep)
  show ?thesis
  proof (cases "PreReleaseIdentifier v = []")
    case True
    with p b show ?thesis
      using Parse_no_dash [OF b(1-3)] parse_elements_three [OF p, of zero_version]
      by (simp add: version_String_def printable_def zero_version_def)
  next
    case False
    with p b show ?thesis
      using Parse_dash [OF b] parse_elements_three [OF p, of "parse_identifier ?t"]
      by (simp add: version_String_def printable_def parse_identifier_dotted zero_version_def)
  qed
qed

lemma atoi_Nil [simp]: "atoi [] = 0"
  by (simp add: atoi_def)

lemma parse_identifier_compact:
  assumes "ident = ''alpha'' \<or> ident = ''beta''" "0 \<le> n" "n < 2 ^ 63"
  shows "parse_identifier (ident @ (if n > 0 then fmt n else []))
     = zero_version\<lparr>PreReleaseIdentifier := ident, PreReleaseVersion := n\<rparr>"
  using assms
  by (auto simp: parse_identifier_def fmt_atoi zero_version_def dest: fmt_no_sep)

lemma Parse_BadString:
  assumes p: "printable v" and i: "PreReleaseIdentifier v \<in> {[], ''alpha'', ''beta''}"
  shows "Parse (BadString fmt v) = v"
proof -
  let ?n = "if Patch v > 0 then CHR ''.'' # fmt (Minor v) @ CHR ''.'' # fmt (Patch v)
            else CHR ''.'' # fmt (Minor v)"
  let ?t = "PreReleaseIdentifier v @ (if PreReleaseVersion v > 0 then fmt (PreReleaseVersion v) else [])"
  have b: "0 \<le> Major v" "Major v < 2 ^ 63" "CHR ''-'' \<notin> set ?n" "CHR ''-'' \<notin> set ?t"
    using p by (auto simp: printable_def fmt_no_sep)
  have e: "parse_elements (split_on CHR ''.'' (fmt (Major v) @ ?n)) w
      = w\<lparr>Major := Major v, Minor := Minor v, Patch := (if Patch v > 0 then Patch v else Patch w)\<rparr>" for w
    using parse_elements_three [OF p] parse_elements_two [OF p] by simp
  have d: "Patch v = 0" if "\<not> Patch v > 0" using that p by (simp add: printable_def)
  show ?thesis
  proof (cases "PreReleaseIdentifier v = []")
    case True
    have "BadString fmt v = fmt (Major v) @ ?n" using True by (simp add: BadString_def Let_def)
    with True p d show ?thesis
      using Parse_no_dash [OF b(1-3)] e [of zero_version]
      by (simp add: printable_def zero_version_def)
  next
    case False
    then have s: "BadString fmt v = (fmt (Major v) @ ?n) @ CHR ''-'' # ?t"
      by (simp add: BadString_def Let_def)
    have "parse_identifier ?t = zero_version\<lparr>PreReleaseIdentifier := PreReleaseIdentifier v,
        PreReleaseVersion := PreReleaseVersion v\<rparr>"
      using i False p by (intro parse_identifier_compact) (auto simp: printable_def)
    with False p d s show ?thesis
      using Parse_dash [OF b] e by (simp add: printable_def zero_version_def)
  qed
qed

end

subsection \<open>Properties\<close>

text \<open>
  on the versions releases carry, the comparison of \<^verbatim>\<open>version.go\<close> is a strict
  linear order: exactly one of newer, equal and older holds, being newer is transitive
  through any version, and \<^verbatim>\<open>LessThan\<close> and \<^verbatim>\<open>LessThanOrEqual\<close> are the matching
  converses.
\<close>

theorem version_order:
  assumes "canonical v" "canonical w"
  shows "(GreaterThan v w \<and> v \<noteq> w \<and> \<not> GreaterThan w v
         \<or> v = w \<and> \<not> GreaterThan v w \<and> \<not> GreaterThan w v
         \<or> GreaterThan w v \<and> v \<noteq> w \<and> \<not> GreaterThan v w)
    \<and> (LessThan v w \<longleftrightarrow> GreaterThan w v)
    \<and> (LessThanOrEqual v w \<longleftrightarrow> \<not> GreaterThan v w)
    \<and> (GreaterThan u v \<longrightarrow> GreaterThan v x \<longrightarrow> GreaterThan u x)"
proof -
  have asym: "\<not> (GreaterThan v w \<and> GreaterThan w v)"
    using GreaterThan_trans [of v w v] GreaterThan_irrefl by blast
  then show ?thesis
    using GreaterThan_total [OF assms] GreaterThan_irrefl GreaterThan_trans [of u v x]
    by (auto simp: LessThan_def LessThanOrEqual_def GreaterThanOrEqual_def)
qed

theorem version_order_witness:
  "canonical (Parse ''1.12.0-rc.1'') \<and> canonical (Parse ''v1.12.0'')
   \<and> LessThan (Parse ''1.12.0-rc.1'') (Parse ''v1.12.0'')
   \<and> GreaterThan (Parse ''1.12.0-rc.1'') (Parse ''1.12.0-beta.30'')"
proof -
  have c: "canonical (Parse ''1.12.0-rc.1'')" "canonical (Parse ''v1.12.0'')"
    by code_simp+
  have g: "GreaterThan (Parse ''v1.12.0'') (Parse ''1.12.0-rc.1'')"
    "GreaterThan (Parse ''1.12.0-rc.1'') (Parse ''1.12.0-beta.30'')" by code_simp+
  show ?thesis using c g version_order [OF c] by simp
qed

text \<open>
  C34: \<^verbatim>\<open>Parse\<close> reads back what \<^verbatim>\<open>Version.String\<close> prints, for every version
  without a commit whose numbers are non-negative and whose pre-release identifier has no
  dash and no dot. The integer formatter is a parameter; \<open>int_format\<close> is what is
  assumed of it.
\<close>

theorem parse_string_roundtrip:
  assumes "int_format fmt" and "printable v"
  shows "Parse (version_String fmt v) = v"
  using assms by (rule int_format.Parse_version_String)

theorem parse_string_roundtrip_witness:
  "printable (Parse ''1.14.0-alpha.7'')
   \<and> version_String Itoa (Parse ''1.14.0-alpha.7'') = ''1.14.0-alpha.7''
   \<and> Parse (version_String Itoa (Parse ''1.14.0-alpha.7'')) = Parse ''1.14.0-alpha.7''"
proof -
  have p: "printable (Parse ''1.14.0-alpha.7'')"
    "version_String Itoa (Parse ''1.14.0-alpha.7'') = ''1.14.0-alpha.7''" by code_simp+
  show ?thesis
    using p parse_string_roundtrip [OF strconv_Itoa.int_format_axioms p(1)] by simp
qed

text \<open>
  the compact form \<^verbatim>\<open>BadString\<close> (\<^verbatim>\<open>1.12-beta3\<close>) is read back on releases and
  on alpha and beta versions, and an rc version is not: \<^verbatim>\<open>Parse\<close> knows the compact
  form of alpha and beta only and takes \<^verbatim>\<open>rc3\<close> for a commit.
\<close>

theorem bad_string_roundtrip:
  assumes "int_format fmt" and "printable v"
  shows "(PreReleaseIdentifier v \<in> {[], ''alpha'', ''beta''} \<longrightarrow> Parse (BadString fmt v) = v)
    \<and> Parse (BadString Itoa (Parse ''1.12.0-rc.3'')) \<noteq> Parse ''1.12.0-rc.3''
    \<and> Commit (Parse (BadString Itoa (Parse ''1.12.0-rc.3''))) = ''rc3''"
proof -
  have "Parse (BadString Itoa (Parse ''1.12.0-rc.3'')) \<noteq> Parse ''1.12.0-rc.3''"
    "Commit (Parse (BadString Itoa (Parse ''1.12.0-rc.3''))) = ''rc3''" by code_simp+
  with int_format.Parse_BadString [OF assms] show ?thesis by simp
qed

theorem bad_string_roundtrip_witness:
  "printable (Parse ''1.12.0-beta.3'') \<and> BadString Itoa (Parse ''1.12.0-beta.3'') = ''1.12-beta3''
   \<and> Parse ''1.12-beta3'' = Parse ''1.12.0-beta.3''"
proof -
  have p: "printable (Parse ''1.12.0-beta.3'')"
    "PreReleaseIdentifier (Parse ''1.12.0-beta.3'') = ''beta''"
    "BadString Itoa (Parse ''1.12.0-beta.3'') = ''1.12-beta3''" by code_simp+
  show ?thesis
    using p bad_string_roundtrip [OF strconv_Itoa.int_format_axioms p(1)] by simp
qed

end
