(* ===== verification/Netip.thy ===== *)
theory Netip
  imports Prelude
begin

unbundle bit_operations_syntax

text \<open>
  The part of Go's \<^verbatim>\<open>net/netip\<close> the sources use: addresses and prefixes as machine
  words, without IPv6 zones.  \<^verbatim>\<open>netip.Addr{}\<close> is \<open>NoAddr\<close> and \<^verbatim>\<open>netip.Prefix{}\<close>
  is \<open>NoPrefix\<close>.
\<close>

datatype addr = NoAddr | V4 "32 word" | V6 "128 word"

datatype ip_prefix = NoPrefix | IPPrefix addr nat

fun addr_IsValid :: "addr \<Rightarrow> bool" where
  "addr_IsValid NoAddr = False"
| "addr_IsValid _ = True"

fun addr_Is4 :: "addr \<Rightarrow> bool" where
  "addr_Is4 (V4 _) = True"
| "addr_Is4 _ = False"

fun addr_Is6 :: "addr \<Rightarrow> bool" where
  "addr_Is6 (V6 _) = True"
| "addr_Is6 _ = False"

fun BitLen :: "addr \<Rightarrow> nat" where
  "BitLen NoAddr = 0"
| "BitLen (V4 _) = 32"
| "BitLen (V6 _) = 128"

text \<open>\<^verbatim>\<open>Is4In6\<close>: the mapped addresses \<^verbatim>\<open>::ffff:0:0/96\<close>.\<close>

fun addr_Is4In6 :: "addr \<Rightarrow> bool" where
  "addr_Is4In6 (V6 w) \<longleftrightarrow> drop_bit 32 w = 0xffff"
| "addr_Is4In6 _ \<longleftrightarrow> False"

fun addr_Unmap :: "addr \<Rightarrow> addr" where
  "addr_Unmap (V6 w) = (if addr_Is4In6 (V6 w) then V4 (ucast w) else V6 w)"
| "addr_Unmap a = a"

text \<open>\<^verbatim>\<open>Next\<close> returns the invalid address after the last one of the family.\<close>

fun addr_Next :: "addr \<Rightarrow> addr" where
  "addr_Next NoAddr = NoAddr"
| "addr_Next (V4 w) = (if w + 1 = 0 then NoAddr else V4 (w + 1))"
| "addr_Next (V6 w) = (if w + 1 = 0 then NoAddr else V6 (w + 1))"

fun prefix_IsValid :: "ip_prefix \<Rightarrow> bool" where
  "prefix_IsValid NoPrefix = False"
| "prefix_IsValid (IPPrefix a n) \<longleftrightarrow> addr_IsValid a \<and> n \<le> BitLen a"

fun prefix_Addr :: "ip_prefix \<Rightarrow> addr" where
  "prefix_Addr NoPrefix = NoAddr"
| "prefix_Addr (IPPrefix a n) = a"

text \<open>\<^verbatim>\<open>Bits\<close> is -1 on an invalid prefix.\<close>

fun prefix_Bits :: "ip_prefix \<Rightarrow> int" where
  "prefix_Bits NoPrefix = -1"
| "prefix_Bits (IPPrefix a n) = (if prefix_IsValid (IPPrefix a n) then int n else -1)"

text \<open>The first \<open>n\<close> bits of two addresses of one family agree.\<close>

fun same_bits :: "nat \<Rightarrow> addr \<Rightarrow> addr \<Rightarrow> bool" where
  "same_bits n (V4 a) (V4 b) \<longleftrightarrow> drop_bit (32 - n) (a XOR b) = 0"
| "same_bits n (V6 a) (V6 b) \<longleftrightarrow> drop_bit (128 - n) (a XOR b) = 0"
| "same_bits n _ _ \<longleftrightarrow> False"

definition prefix_Contains :: "ip_prefix \<Rightarrow> addr \<Rightarrow> bool" where
  "prefix_Contains p a \<longleftrightarrow>
     prefix_IsValid p \<and> (case p of NoPrefix \<Rightarrow> False | IPPrefix b n \<Rightarrow> same_bits n b a)"

definition prefix_Overlaps :: "ip_prefix \<Rightarrow> ip_prefix \<Rightarrow> bool" where
  "prefix_Overlaps p q \<longleftrightarrow>
     prefix_IsValid p \<and> prefix_IsValid q \<and>
     (case (p, q) of (IPPrefix a n, IPPrefix b m) \<Rightarrow> same_bits (min n m) a b | _ \<Rightarrow> False)"

text \<open>\<^verbatim>\<open>Less\<close> orders by family first, then by value.\<close>

fun addr_val :: "addr \<Rightarrow> nat" where
  "addr_val NoAddr = 0"
| "addr_val (V4 w) = unat w"
| "addr_val (V6 w) = unat w"

definition addr_Less :: "addr \<Rightarrow> addr \<Rightarrow> bool" where
  "addr_Less a b \<longleftrightarrow>
     BitLen a < BitLen b \<or> BitLen a = BitLen b \<and> addr_val a < addr_val b"

text \<open>
  \<^verbatim>\<open>As16\<close> is kept as one 128-bit word, most significant byte first: an IPv4
  address is mapped to \<^verbatim>\<open>::ffff:a.b.c.d\<close>.
\<close>

fun As16 :: "addr \<Rightarrow> 128 word" where
  "As16 NoAddr = 0"
| "As16 (V4 w) = push_bit 32 0xffff OR ucast w"
| "As16 (V6 w) = w"

subsection \<open>Lemmas\<close>

lemma same_bits_refl [simp]: "same_bits n a a \<longleftrightarrow> addr_IsValid a"
  by (cases a) auto

lemma word_xor_eq_0 [simp]: "a XOR b = 0 \<longleftrightarrow> a = (b :: 'a :: len word)"
proof
  assume "a XOR b = 0"
  then have "(a XOR b) XOR b = 0 XOR b" by simp
  then show "a = b" by (simp add: xor.assoc)
qed simp

lemma same_bits_sym: "same_bits n a b \<longleftrightarrow> same_bits n b a"
  by (cases a; cases b) (auto simp: xor.commute)

lemma drop_bit_mono_eq:
  assumes "drop_bit i a = drop_bit i (b :: 'a :: len word)" and "i \<le> j"
  shows "drop_bit j a = drop_bit j b"
proof -
  have "drop_bit (j - i) (drop_bit i a) = drop_bit (j - i) (drop_bit i b)"
    using assms(1) by simp
  then show ?thesis using assms(2) by simp
qed

lemma same_bits_mono: "same_bits n a b \<Longrightarrow> m \<le> n \<Longrightarrow> same_bits m a b"
  by (cases a; cases b)
    (auto simp: drop_bit_xor intro: drop_bit_mono_eq [OF _ diff_le_mono2])

lemma same_bits_trans:
  "same_bits n a b \<Longrightarrow> same_bits n b c \<Longrightarrow> same_bits n a c"
  by (cases a; cases b; cases c) (auto simp: drop_bit_xor)

end
