(* ===== verification/RuleItems.thy ===== *)
theory RuleItems
  imports Netip
begin

text \<open>
  The rule items of \<^verbatim>\<open>route/rule\<close>: the connection metadata they read, the
  environment they consult, one constructor of \<open>rule_item\<close> per item type and
  \<open>item_match\<close>, the \<^verbatim>\<open>Match\<close> method of each.

  A set of strings or numbers an item keeps in a Go map next to its list is the list
  itself; looking a key up is membership.  Matchers compiled by other packages
  (\<^verbatim>\<open>regexp\<close>, \<^verbatim>\<open>domain.Matcher\<close>, \<^verbatim>\<open>netipx.IPSet\<close>) are functions
  carried by the item, and the functions of those packages the items call are the
  fields of \<open>go_lib\<close>.  \<^verbatim>\<open>strings.ToLower\<close> and \<^verbatim>\<open>strings.EqualFold\<close> are modelled
  on ASCII letters; \<^verbatim>\<open>filepath.Base\<close> with the separator \<^verbatim>\<open>/\<close>.
\<close>

subsection \<open>Strings\<close>

definition ToLower :: "string \<Rightarrow> string" where
  "ToLower s = map (\<lambda>c. let n = of_char c :: nat in
     if 65 \<le> n \<and> n \<le> 90 then char_of (n + 32) else c) s"

definition EqualFold :: "string \<Rightarrow> string \<Rightarrow> bool" where
  "EqualFold s t \<longleftrightarrow> ToLower s = ToLower t"

fun strings_Contains :: "string \<Rightarrow> string \<Rightarrow> bool" where
  "strings_Contains [] sub \<longleftrightarrow> sub = []"
| "strings_Contains (c # cs) sub \<longleftrightarrow> prefix sub (c # cs) \<or> strings_Contains cs sub"

definition hex_digit :: "nat \<Rightarrow> char" where
  "hex_digit d = (if d < 10 then char_of (48 + d) else char_of (87 + d))"

definition hex_byte :: "8 word \<Rightarrow> string" where
  "hex_byte b = [hex_digit (unat b div 16), hex_digit (unat b mod 16)]"

text \<open>\<^verbatim>\<open>net.HardwareAddr.String\<close>\<close>

definition mac_String :: "bytes \<Rightarrow> string" where
  "mac_String mac = join_with '':'' (map hex_byte mac)"

definition filepath_Base :: "string \<Rightarrow> string" where
  "filepath_Base p =
     (if p = [] then ''.''
      else let q = rev (dropWhile (\<lambda>c. c = CHR ''/'') (rev p)) in
        if q = [] then ''/'' else last (split_on (CHR ''/'') q))"

subsection \<open>Connection metadata\<close>

record socksaddr =
  sa_Addr :: addr
  sa_Port :: "16 word"
  sa_Fqdn :: string

record connection_owner =
  UserId :: int
  UserName :: string
  ProcessPath :: string
  AndroidPackageNames :: "string list"

datatype svcb_value = SVCBIPv4Hint "bytes list" | SVCBIPv6Hint "bytes list" | SVCBOther bytes

datatype dns_rr = RR_A bytes | RR_AAAA bytes | RR_HTTPS "svcb_value list" | RR_Other bytes

record dns_msg =
  Rcode :: int
  Answer :: "dns_rr list"
  Ns :: "dns_rr list"
  Extra :: "dns_rr list"

record inbound_context =
  Inbound :: string
  IPVersion :: "8 word"
  Network :: string
  Source :: socksaddr
  Destination :: socksaddr
  User :: string
  Outbound :: string
  Protocol :: string
  Domain :: string
  Client :: string
  DestinationAddresses :: "addr list"
  DNSResponse :: "dns_msg option"
  NamedDNSResponses :: "string \<Rightarrow> dns_msg option"
  DestinationAddressMatchFromResponse :: bool
  ProcessInfo :: "connection_owner option"
  SourceMACAddress :: "bytes option"
  SourceHostname :: string
  QueryType :: "16 word"
  QueryClientSubnet :: ip_prefix
  QueryDNSSEC :: bool
  IPCIDRMatchSource :: bool
  IPCIDRAcceptEmpty :: bool
  SourceAddressMatch :: bool
  SourcePortMatch :: bool
  DestinationAddressMatch :: bool
  DestinationPortMatch :: bool
  DeferredIPCIDRMatchGroups :: "8 word"
  IgnoreDestinationIPCIDRMatch :: bool

definition ResetRuleMatchCache :: "inbound_context \<Rightarrow> inbound_context" where
  "ResetRuleMatchCache m = m\<lparr>SourceAddressMatch := False, SourcePortMatch := False,
     DestinationAddressMatch := False, DestinationPortMatch := False,
     DeferredIPCIDRMatchGroups := 0\<rparr>"

definition ResetRuleCache :: "inbound_context \<Rightarrow> inbound_context" where
  "ResetRuleCache m =
     ResetRuleMatchCache (m\<lparr>IPCIDRMatchSource := False, IPCIDRAcceptEmpty := False\<rparr>)"

subsection \<open>The environment\<close>

record net_interface =
  if_Name :: string
  if_Type :: nat
  if_Addresses :: "ip_prefix list"
  if_Expensive :: bool
  if_Constrained :: bool

record interface_monitor =
  DefaultInterface :: "net_interface option"
  MyInterfaces :: "string list"

record go_lib =
  AddrFromIP :: "bytes \<Rightarrow> addr"
  IsPublicAddr :: "addr \<Rightarrow> bool"
  IsIP :: "socksaddr \<Rightarrow> bool"
  IsIPv6 :: "socksaddr \<Rightarrow> bool"
  CanonicalName :: "string \<Rightarrow> string"
  IsDuplicate :: "dns_rr \<Rightarrow> dns_rr \<Rightarrow> bool"

record rule_env = go_lib +
  IsAndroid :: bool
  WIFIState_SSID :: string
  WIFIState_BSSID :: string
  DefaultNetworkInterface :: "net_interface option"
  Interfaces :: "net_interface list"
  NetworkInterfaces :: "net_interface list"
  InterfaceMonitor :: "interface_monitor option"
  ClashMode :: "string option"

subsection \<open>Addresses in a DNS response\<close>

definition hint_addresses :: "('e go_lib_scheme) \<Rightarrow> svcb_value \<Rightarrow> addr list" where
  "hint_addresses L v =
     (case v of
        SVCBIPv4Hint ips \<Rightarrow> filter addr_IsValid (map (addr_Unmap \<circ> AddrFromIP L) ips)
      | SVCBIPv6Hint ips \<Rightarrow> filter addr_IsValid (map (AddrFromIP L) ips)
      | SVCBOther _ \<Rightarrow> [])"

definition record_addresses :: "('e go_lib_scheme) \<Rightarrow> dns_rr \<Rightarrow> addr list" where
  "record_addresses L rr =
     (case rr of
        RR_A ip \<Rightarrow> filter addr_IsValid [AddrFromIP L ip]
      | RR_AAAA ip \<Rightarrow> filter addr_IsValid [AddrFromIP L ip]
      | RR_HTTPS vs \<Rightarrow> concat (map (hint_addresses L) vs)
      | RR_Other _ \<Rightarrow> [])"

definition DNSResponseAddresses :: "('e go_lib_scheme) \<Rightarrow> dns_msg option \<Rightarrow> addr list" where
  "DNSResponseAddresses L response =
     (case response of
        None \<Rightarrow> []
      | Some msg \<Rightarrow>
          if Rcode msg \<noteq> 0 then [] else concat (map (record_addresses L) (Answer msg)))"

subsection \<open>Items\<close>

datatype response_section = AnswerSection | NsSection | ExtraSection

datatype preferred_outbound =
  PreferredOutbound (PreferredDomain: "inbound_context \<Rightarrow> string \<Rightarrow> bool")
    (PreferredAddress: "inbound_context \<Rightarrow> addr \<Rightarrow> bool")

datatype rule_item =
    InboundItem "string list"
  | IPVersionItem bool
  | NetworkItem "string list"
  | AuthUserItem "string list"
  | ProtocolItem "string list"
  | ClientItem "string list"
  | DomainItem "string \<Rightarrow> bool" string
  | DomainKeywordItem "string list"
  | DomainRegexItem "(string \<Rightarrow> bool) list" string
  | AdGuardDomainItem "string \<Rightarrow> bool"
  | IPCIDRItem "addr \<Rightarrow> bool" bool string
  | IPIsPrivateItem bool
  | IPAcceptAnyItem
  | PortItem "16 word list" bool
  | PortRangeItem bool "string list" "(16 word \<times> 16 word) list"
  | ProcessItem "string list"
  | ProcessPathItem "string list"
  | ProcessPathRegexItem "(string \<Rightarrow> bool) list" string
  | PackageNameItem "string list"
  | PackageNameRegexItem "(string \<Rightarrow> bool) list" string
  | UserItem "string list"
  | UserIdItem "int list"
  | ClashModeItem string
  | NetworkTypeItem "nat list"
  | NetworkIsExpensiveItem
  | NetworkIsConstrainedItem
  | WIFISSIDItem "string list"
  | WIFIBSSIDItem "string list"
  | InterfaceAddressItem "(string \<times> ip_prefix list) list" string
  | NetworkInterfaceAddressItem "(nat \<times> ip_prefix list) list" string
  | DefaultInterfaceAddressItem "ip_prefix list"
  | SourceMACAddressItem "string list"
  | SourceHostnameItem "string list"
  | PreferredByItem "string list" "preferred_outbound list"
  | PreferredByDNSItem "string list" "(string \<Rightarrow> bool) list"
  | OutboundItem "string list" bool
  | QueryTypeItem "16 word list"
  | QueryClientSubnetItem "ip_prefix list"
  | QueryDNSSECItem
  | DNSResponseRCodeItem int
  | DNSResponseRecordItem "dns_rr option list" response_section

definition domainHost :: "inbound_context \<Rightarrow> string" where
  "domainHost m = (if Domain m \<noteq> [] then Domain m else sa_Fqdn (Destination m))"

definition IPCIDRItem_Match ::
  "rule_env \<Rightarrow> (addr \<Rightarrow> bool) \<Rightarrow> bool \<Rightarrow> inbound_context \<Rightarrow> bool" where
  "IPCIDRItem_Match E ipSet isSource m =
     (if isSource \<or> IPCIDRMatchSource m then ipSet (sa_Addr (Source m))
      else if DestinationAddressMatchFromResponse m then
        (let addresses = DNSResponseAddresses E (DNSResponse m) in
         if addresses = [] then IPCIDRAcceptEmpty m else list_ex ipSet addresses)
      else if IsIP E (Destination m) then ipSet (sa_Addr (Destination m))
      else if DestinationAddresses m \<noteq> [] then list_ex ipSet (DestinationAddresses m)
      else IPCIDRAcceptEmpty m)"

definition IPIsPrivateItem_Match :: "rule_env \<Rightarrow> bool \<Rightarrow> inbound_context \<Rightarrow> bool" where
  "IPIsPrivateItem_Match E isSource m =
     (if isSource then \<not> IsPublicAddr E (sa_Addr (Source m))
      else if DestinationAddressMatchFromResponse m then
        list_ex (\<lambda>a. \<not> IsPublicAddr E a) (DNSResponseAddresses E (DNSResponse m))
      else if addr_IsValid (sa_Addr (Destination m)) then
        \<not> IsPublicAddr E (sa_Addr (Destination m))
      else list_ex (\<lambda>a. \<not> IsPublicAddr E a) (DestinationAddresses m))"

definition IPVersionItem_Match :: "rule_env \<Rightarrow> bool \<Rightarrow> inbound_context \<Rightarrow> bool" where
  "IPVersionItem_Match E isIPv6 m \<longleftrightarrow>
     (IPVersion m \<noteq> 0 \<and> (IPVersion m = 6) = isIPv6) \<or>
     (IsIP E (Destination m) \<and> IsIPv6 E (Destination m) = isIPv6)"

definition PortRangeItem_Match ::
  "bool \<Rightarrow> (16 word \<times> 16 word) list \<Rightarrow> inbound_context \<Rightarrow> bool" where
  "PortRangeItem_Match isSource portRangeList m =
     (let port = (if isSource then sa_Port (Source m) else sa_Port (Destination m)) in
      list_ex (\<lambda>(start, stop). start \<le> port \<and> port \<le> stop) portRangeList)"

definition ProcessPathItem_Match :: "rule_env \<Rightarrow> string list \<Rightarrow> inbound_context \<Rightarrow> bool" where
  "ProcessPathItem_Match E processes m =
     (case ProcessInfo m of None \<Rightarrow> False
      | Some p \<Rightarrow>
          (if ProcessPath p \<noteq> [] \<and> ProcessPath p \<in> set processes then True
           else if IsAndroid E then list_ex (\<lambda>n. n \<in> set processes) (AndroidPackageNames p)
           else False))"

definition PreferredByItem_Match ::
  "rule_env \<Rightarrow> preferred_outbound list \<Rightarrow> inbound_context \<Rightarrow> bool" where
  "PreferredByItem_Match E outbounds m =
     (if domainHost m \<noteq> [] \<and> list_ex (\<lambda>ob. PreferredDomain ob m (domainHost m)) outbounds then True
      else if IsIP E (Destination m) \<and>
        list_ex (\<lambda>ob. PreferredAddress ob m (sa_Addr (Destination m))) outbounds then True
      else list_ex (\<lambda>a. list_ex (\<lambda>ob. PreferredAddress ob m a) outbounds)
             (DestinationAddresses m))"

definition InterfaceAddressItem_Match ::
  "rule_env \<Rightarrow> (string \<times> ip_prefix list) list \<Rightarrow> bool" where
  "InterfaceAddressItem_Match E interfaceAddresses =
     list_all (\<lambda>(ifName, addresses).
       case List.find (\<lambda>it. if_Name it = ifName) (Interfaces E) of
         None \<Rightarrow> False
       | Some iface \<Rightarrow> if_Name iface \<noteq> [] \<and>
           \<not> list_all (\<lambda>address. list_all (\<lambda>it. \<not> prefix_Overlaps address it)
                (if_Addresses iface)) addresses) interfaceAddresses"

definition NetworkInterfaceAddressItem_Match ::
  "rule_env \<Rightarrow> (nat \<times> ip_prefix list) list \<Rightarrow> bool" where
  "NetworkInterfaceAddressItem_Match E interfaceAddresses =
     (let myInterfaces = (case InterfaceMonitor E of None \<Rightarrow> [] | Some mon \<Rightarrow> MyInterfaces mon) in
      list_all (\<lambda>(ifType, addresses).
        list_ex (\<lambda>ni. if_Name ni \<notin> set myInterfaces \<and> if_Type ni = ifType \<and>
            list_ex (\<lambda>it. list_ex (\<lambda>p. prefix_Overlaps p it) addresses) (if_Addresses ni))
          (NetworkInterfaces E)) interfaceAddresses)"

definition DefaultInterfaceAddressItem_Match :: "rule_env \<Rightarrow> ip_prefix list \<Rightarrow> bool" where
  "DefaultInterfaceAddressItem_Match E interfaceAddresses =
     (case InterfaceMonitor E of None \<Rightarrow> False
      | Some mon \<Rightarrow>
          (case DefaultInterface mon of None \<Rightarrow> False
           | Some di \<Rightarrow> list_all (\<lambda>address.
               \<not> list_all (\<lambda>it. \<not> prefix_Overlaps address it) (if_Addresses di)) interfaceAddresses))"

definition QueryClientSubnetItem_Match :: "ip_prefix list \<Rightarrow> inbound_context \<Rightarrow> bool" where
  "QueryClientSubnetItem_Match subnets m =
     (let clientSubnet = QueryClientSubnet m in
      if \<not> prefix_IsValid clientSubnet then False
      else list_ex (\<lambda>p. prefix_Bits p \<le> prefix_Bits clientSubnet \<and>
             prefix_Contains p (prefix_Addr clientSubnet)) subnets)"

definition DNSRecordOptions_Match :: "('e go_lib_scheme) \<Rightarrow> dns_rr option \<Rightarrow> dns_rr \<Rightarrow> bool" where
  "DNSRecordOptions_Match L expected rr =
     (case expected of None \<Rightarrow> False | Some e \<Rightarrow> IsDuplicate L e rr)"

definition section_records :: "response_section \<Rightarrow> dns_msg \<Rightarrow> dns_rr list" where
  "section_records s msg =
     (case s of AnswerSection \<Rightarrow> Answer msg | NsSection \<Rightarrow> Ns msg | ExtraSection \<Rightarrow> Extra msg)"

definition DNSResponseRecordItem_Match ::
  "rule_env \<Rightarrow> dns_rr option list \<Rightarrow> response_section \<Rightarrow> inbound_context \<Rightarrow> bool" where
  "DNSResponseRecordItem_Match E records s m =
     (case DNSResponse m of None \<Rightarrow> False
      | Some msg \<Rightarrow> list_ex (\<lambda>expected.
          list_ex (DNSRecordOptions_Match E expected) (section_records s msg)) records)"

definition owner_match :: "(connection_owner \<Rightarrow> bool) \<Rightarrow> inbound_context \<Rightarrow> bool" where
  "owner_match P m = (case ProcessInfo m of None \<Rightarrow> False | Some p \<Rightarrow> P p)"

definition host_match :: "(string \<Rightarrow> bool) \<Rightarrow> inbound_context \<Rightarrow> bool" where
  "host_match P m = (if domainHost m = [] then False else P (ToLower (domainHost m)))"

definition InboundItem_Match :: "string list \<Rightarrow> inbound_context \<Rightarrow> bool" where
  "InboundItem_Match inbounds m =
     (Inbound m \<in> set inbounds)"

definition NetworkItem_Match :: "string list \<Rightarrow> inbound_context \<Rightarrow> bool" where
  "NetworkItem_Match networks m =
     (Network m \<in> set networks)"

definition AuthUserItem_Match :: "string list \<Rightarrow> inbound_context \<Rightarrow> bool" where
  "AuthUserItem_Match users m =
     (User m \<in> set users)"

definition ProtocolItem_Match :: "string list \<Rightarrow> inbound_context \<Rightarrow> bool" where
  "ProtocolItem_Match protocols m =
     (Protocol m \<in> set protocols)"

definition ClientItem_Match :: "string list \<Rightarrow> inbound_context \<Rightarrow> bool" where
  "ClientItem_Match clients m =
     (Client m \<in> set clients)"

definition DomainItem_Match :: "(string \<Rightarrow> bool) \<Rightarrow> inbound_context \<Rightarrow> bool" where
  "DomainItem_Match matcher m =
     host_match matcher m"

definition DomainKeywordItem_Match :: "string list \<Rightarrow> inbound_context \<Rightarrow> bool" where
  "DomainKeywordItem_Match keywords m =
     host_match (\<lambda>h. list_ex (strings_Contains h) keywords) m"

definition DomainRegexItem_Match :: "(string \<Rightarrow> bool) list \<Rightarrow> inbound_context \<Rightarrow> bool" where
  "DomainRegexItem_Match matchers m =
     host_match (\<lambda>h. list_ex (\<lambda>matcher. matcher h) matchers) m"

definition AdGuardDomainItem_Match :: "(string \<Rightarrow> bool) \<Rightarrow> inbound_context \<Rightarrow> bool" where
  "AdGuardDomainItem_Match matcher m =
     host_match matcher m"

definition IPAcceptAnyItem_Match :: "rule_env \<Rightarrow> inbound_context \<Rightarrow> bool" where
  "IPAcceptAnyItem_Match E m =
     (if DestinationAddressMatchFromResponse m then DNSResponseAddresses E (DNSResponse m) \<noteq> []
      else DestinationAddresses m \<noteq> [])"

definition PortItem_Match :: "16 word list \<Rightarrow> bool \<Rightarrow> inbound_context \<Rightarrow> bool" where
  "PortItem_Match ports isSource m =
     ((if isSource then sa_Port (Source m) else sa_Port (Destination m)) \<in> set ports)"

definition ProcessItem_Match :: "string list \<Rightarrow> inbound_context \<Rightarrow> bool" where
  "ProcessItem_Match processes m =
     owner_match (\<lambda>p. ProcessPath p \<noteq> [] \<and> filepath_Base (ProcessPath p) \<in> set processes) m"

definition ProcessPathRegexItem_Match :: "(string \<Rightarrow> bool) list \<Rightarrow> inbound_context \<Rightarrow> bool" where
  "ProcessPathRegexItem_Match matchers m =
     owner_match (\<lambda>p. ProcessPath p \<noteq> [] \<and> list_ex (\<lambda>x. x (ProcessPath p)) matchers) m"

definition PackageNameItem_Match :: "string list \<Rightarrow> inbound_context \<Rightarrow> bool" where
  "PackageNameItem_Match names m =
     owner_match (\<lambda>p. list_ex (\<lambda>n. n \<in> set names) (AndroidPackageNames p)) m"

definition PackageNameRegexItem_Match :: "(string \<Rightarrow> bool) list \<Rightarrow> inbound_context \<Rightarrow> bool" where
  "PackageNameRegexItem_Match matchers m =
     owner_match (\<lambda>p. list_ex (\<lambda>x. list_ex x (AndroidPackageNames p)) matchers) m"

definition UserItem_Match :: "string list \<Rightarrow> inbound_context \<Rightarrow> bool" where
  "UserItem_Match users m =
     owner_match (\<lambda>p. UserName p \<noteq> [] \<and> UserName p \<in> set users) m"

definition UserIdItem_Match :: "int list \<Rightarrow> inbound_context \<Rightarrow> bool" where
  "UserIdItem_Match ids m =
     owner_match (\<lambda>p. UserId p \<noteq> -1 \<and> UserId p \<in> set ids) m"

definition ClashModeItem_Match :: "rule_env \<Rightarrow> string \<Rightarrow> bool" where
  "ClashModeItem_Match E mode =
     (case ClashMode E of None \<Rightarrow> False | Some current \<Rightarrow> EqualFold current mode)"

definition NetworkTypeItem_Match :: "rule_env \<Rightarrow> nat list \<Rightarrow> bool" where
  "NetworkTypeItem_Match E types =
     (case DefaultNetworkInterface E of None \<Rightarrow> False | Some ni \<Rightarrow> if_Type ni \<in> set types)"

definition NetworkIsExpensiveItem_Match :: "rule_env \<Rightarrow> bool" where
  "NetworkIsExpensiveItem_Match E =
     (case DefaultNetworkInterface E of None \<Rightarrow> False | Some ni \<Rightarrow> if_Expensive ni)"

definition NetworkIsConstrainedItem_Match :: "rule_env \<Rightarrow> bool" where
  "NetworkIsConstrainedItem_Match E =
     (case DefaultNetworkInterface E of None \<Rightarrow> False | Some ni \<Rightarrow> if_Constrained ni)"

definition WIFISSIDItem_Match :: "rule_env \<Rightarrow> string list \<Rightarrow> bool" where
  "WIFISSIDItem_Match E ssids =
     (WIFIState_SSID E \<in> set ssids)"

definition WIFIBSSIDItem_Match :: "rule_env \<Rightarrow> string list \<Rightarrow> bool" where
  "WIFIBSSIDItem_Match E bssids =
     (WIFIState_BSSID E \<in> set bssids)"

definition SourceMACAddressItem_Match :: "string list \<Rightarrow> inbound_context \<Rightarrow> bool" where
  "SourceMACAddressItem_Match macs m =
     (case SourceMACAddress m of None \<Rightarrow> False | Some mac \<Rightarrow> mac_String mac \<in> set macs)"

definition SourceHostnameItem_Match :: "string list \<Rightarrow> inbound_context \<Rightarrow> bool" where
  "SourceHostnameItem_Match names m =
     (if SourceHostname m = [] then False else SourceHostname m \<in> set names)"

definition PreferredByDNSItem_Match :: "rule_env \<Rightarrow> (string \<Rightarrow> bool) list \<Rightarrow> inbound_context \<Rightarrow> bool" where
  "PreferredByDNSItem_Match E transports m =
     (if domainHost m = [] then False
      else list_ex (\<lambda>t. t (CanonicalName E (domainHost m))) transports)"

definition OutboundItem_Match :: "string list \<Rightarrow> bool \<Rightarrow> inbound_context \<Rightarrow> bool" where
  "OutboundItem_Match outbounds matchAny m =
     (if matchAny then Outbound m \<noteq> [] else Outbound m \<in> set outbounds)"

definition QueryTypeItem_Match :: "16 word list \<Rightarrow> inbound_context \<Rightarrow> bool" where
  "QueryTypeItem_Match types m =
     (if QueryType m = 0 then False else QueryType m \<in> set types)"

definition QueryDNSSECItem_Match :: "inbound_context \<Rightarrow> bool" where
  "QueryDNSSECItem_Match m =
     QueryDNSSEC m"

definition DNSResponseRCodeItem_Match :: "int \<Rightarrow> inbound_context \<Rightarrow> bool" where
  "DNSResponseRCodeItem_Match rcode m =
     (case DNSResponse m of None \<Rightarrow> False | Some msg \<Rightarrow> Rcode msg = rcode)"

text \<open>The \<^verbatim>\<open>Match\<close> method of every item type.\<close>

fun item_match :: "rule_env \<Rightarrow> rule_item \<Rightarrow> inbound_context \<Rightarrow> bool" where
  "item_match E (InboundItem inbounds) m = InboundItem_Match inbounds m"
| "item_match E (IPVersionItem isIPv6) m = IPVersionItem_Match E isIPv6 m"
| "item_match E (NetworkItem networks) m = NetworkItem_Match networks m"
| "item_match E (AuthUserItem users) m = AuthUserItem_Match users m"
| "item_match E (ProtocolItem protocols) m = ProtocolItem_Match protocols m"
| "item_match E (ClientItem clients) m = ClientItem_Match clients m"
| "item_match E (DomainItem matcher d) m = DomainItem_Match matcher m"
| "item_match E (DomainKeywordItem keywords) m = DomainKeywordItem_Match keywords m"
| "item_match E (DomainRegexItem matchers d) m = DomainRegexItem_Match matchers m"
| "item_match E (AdGuardDomainItem matcher) m = AdGuardDomainItem_Match matcher m"
| "item_match E (IPCIDRItem ipSet isSource d) m = IPCIDRItem_Match E ipSet isSource m"
| "item_match E (IPIsPrivateItem isSource) m = IPIsPrivateItem_Match E isSource m"
| "item_match E IPAcceptAnyItem m = IPAcceptAnyItem_Match E m"
| "item_match E (PortItem ports isSource) m = PortItem_Match ports isSource m"
| "item_match E (PortRangeItem isSource rs portRangeList) m = PortRangeItem_Match isSource portRangeList m"
| "item_match E (ProcessItem processes) m = ProcessItem_Match processes m"
| "item_match E (ProcessPathItem processes) m = ProcessPathItem_Match E processes m"
| "item_match E (ProcessPathRegexItem matchers d) m = ProcessPathRegexItem_Match matchers m"
| "item_match E (PackageNameItem names) m = PackageNameItem_Match names m"
| "item_match E (PackageNameRegexItem matchers d) m = PackageNameRegexItem_Match matchers m"
| "item_match E (UserItem users) m = UserItem_Match users m"
| "item_match E (UserIdItem ids) m = UserIdItem_Match ids m"
| "item_match E (ClashModeItem mode) m = ClashModeItem_Match E mode"
| "item_match E (NetworkTypeItem types) m = NetworkTypeItem_Match E types"
| "item_match E NetworkIsExpensiveItem m = NetworkIsExpensiveItem_Match E"
| "item_match E NetworkIsConstrainedItem m = NetworkIsConstrainedItem_Match E"
| "item_match E (WIFISSIDItem ssids) m = WIFISSIDItem_Match E ssids"
| "item_match E (WIFIBSSIDItem bssids) m = WIFIBSSIDItem_Match E bssids"
| "item_match E (InterfaceAddressItem as d) m = InterfaceAddressItem_Match E as"
| "item_match E (NetworkInterfaceAddressItem as d) m = NetworkInterfaceAddressItem_Match E as"
| "item_match E (DefaultInterfaceAddressItem as) m = DefaultInterfaceAddressItem_Match E as"
| "item_match E (SourceMACAddressItem macs) m = SourceMACAddressItem_Match macs m"
| "item_match E (SourceHostnameItem names) m = SourceHostnameItem_Match names m"
| "item_match E (PreferredByItem tags outbounds) m = PreferredByItem_Match E outbounds m"
| "item_match E (PreferredByDNSItem tags transports) m = PreferredByDNSItem_Match E transports m"
| "item_match E (OutboundItem outbounds matchAny) m = OutboundItem_Match outbounds matchAny m"
| "item_match E (QueryTypeItem types) m = QueryTypeItem_Match types m"
| "item_match E (QueryClientSubnetItem subnets) m = QueryClientSubnetItem_Match subnets m"
| "item_match E QueryDNSSECItem m = QueryDNSSECItem_Match m"
| "item_match E (DNSResponseRCodeItem rcode) m = DNSResponseRCodeItem_Match rcode m"
| "item_match E (DNSResponseRecordItem records s) m = DNSResponseRecordItem_Match E records s m"

subsection \<open>Constructors without failure\<close>

text \<open>The Go constructors also fill the lookup map from the list; here the list is the map.\<close>

definition NewInboundRule :: "string list \<Rightarrow> rule_item" where
  "NewInboundRule inbounds = InboundItem inbounds"

definition NewIPVersionItem :: "bool \<Rightarrow> rule_item" where
  "NewIPVersionItem isIPv6 = IPVersionItem isIPv6"

definition NewNetworkItem :: "string list \<Rightarrow> rule_item" where
  "NewNetworkItem networks = NetworkItem networks"

definition NewAuthUserItem :: "string list \<Rightarrow> rule_item" where
  "NewAuthUserItem users = AuthUserItem users"

definition NewProtocolItem :: "string list \<Rightarrow> rule_item" where
  "NewProtocolItem protocols = ProtocolItem protocols"

definition NewClientItem :: "string list \<Rightarrow> rule_item" where
  "NewClientItem clients = ClientItem clients"

definition NewDomainKeywordItem :: "string list \<Rightarrow> rule_item" where
  "NewDomainKeywordItem keywords = DomainKeywordItem keywords"

definition NewIPIsPrivateItem :: "bool \<Rightarrow> rule_item" where
  "NewIPIsPrivateItem isSource = IPIsPrivateItem isSource"

definition NewProcessItem :: "string list \<Rightarrow> rule_item" where
  "NewProcessItem processNameList = ProcessItem processNameList"

definition NewProcessPathItem :: "string list \<Rightarrow> rule_item" where
  "NewProcessPathItem processNameList = ProcessPathItem processNameList"

definition NewPackageNameItem :: "string list \<Rightarrow> rule_item" where
  "NewPackageNameItem packageNameList = PackageNameItem packageNameList"

definition NewUserItem :: "string list \<Rightarrow> rule_item" where
  "NewUserItem users = UserItem users"

definition NewUserIDItem :: "int list \<Rightarrow> rule_item" where
  "NewUserIDItem userIdList = UserIdItem userIdList"

definition NewClashModeItem :: "string \<Rightarrow> rule_item" where
  "NewClashModeItem mode = ClashModeItem mode"

definition NewNetworkTypeItem :: "nat list \<Rightarrow> rule_item" where
  "NewNetworkTypeItem networkType = NetworkTypeItem networkType"

definition NewWIFISSIDItem :: "string list \<Rightarrow> rule_item" where
  "NewWIFISSIDItem ssidList = WIFISSIDItem ssidList"

definition InterfaceType_String :: "(nat \<Rightarrow> string) \<Rightarrow> nat \<Rightarrow> string" where
  "InterfaceType_String toString t =
     (if t = 0 then ''wifi'' else if t = 1 then ''cellular'' else if t = 2 then ''ethernet''
      else if t = 3 then ''other'' else toString t)"

definition NewInterfaceAddressItem ::
  "(ip_prefix \<Rightarrow> string) \<Rightarrow> (string \<times> ip_prefix list) list \<Rightarrow> rule_item" where
  "NewInterfaceAddressItem prefixString interfaceAddresses =
     InterfaceAddressItem interfaceAddresses
       (''interface_address=['' @ join_with '' '' (map (\<lambda>(key, prefs).
          key @ ''='' @ join_with '','' (map prefixString prefs)) interfaceAddresses) @ '']'')"

definition NewNetworkInterfaceAddressItem ::
  "(ip_prefix \<Rightarrow> string) \<Rightarrow> (nat \<Rightarrow> string) \<Rightarrow> (nat \<times> ip_prefix list) list \<Rightarrow> rule_item" where
  "NewNetworkInterfaceAddressItem prefixString toString interfaceAddresses =
     NetworkInterfaceAddressItem interfaceAddresses
       (''network_interface_address=['' @ join_with '' '' (map (\<lambda>(key, prefs).
          InterfaceType_String toString key @ ''='' @ join_with '','' (map prefixString prefs))
          interfaceAddresses) @ '']'')"

definition NewDefaultInterfaceAddressItem :: "ip_prefix list \<Rightarrow> rule_item" where
  "NewDefaultInterfaceAddressItem interfaceAddresses = DefaultInterfaceAddressItem interfaceAddresses"

definition NewSourceHostnameItem :: "string list \<Rightarrow> rule_item" where
  "NewSourceHostnameItem hostnameList = SourceHostnameItem hostnameList"

definition NewQueryTypeItem :: "16 word list \<Rightarrow> rule_item" where
  "NewQueryTypeItem typeList = QueryTypeItem typeList"

definition NewQueryClientSubnetItem :: "ip_prefix list \<Rightarrow> rule_item" where
  "NewQueryClientSubnetItem prefixables = QueryClientSubnetItem prefixables"

definition NewDNSResponseRCodeItem :: "int \<Rightarrow> rule_item" where
  "NewDNSResponseRCodeItem rcode = DNSResponseRCodeItem rcode"

definition NewPortItem :: "bool \<Rightarrow> 16 word list \<Rightarrow> rule_item" where
  "NewPortItem isSource ports = PortItem ports isSource"

definition NewPreferredByItem :: "string list \<Rightarrow> rule_item" where
  "NewPreferredByItem outboundTags = PreferredByItem outboundTags []"

definition NewPreferredByDNSItem :: "string list \<Rightarrow> rule_item" where
  "NewPreferredByDNSItem transportTags = PreferredByDNSItem transportTags []"

definition NewDNSResponseRecordItem :: "dns_rr option list \<Rightarrow> response_section \<Rightarrow> rule_item" where
  "NewDNSResponseRecordItem records selector = DNSResponseRecordItem records selector"

lemmas item_match_defs =
  InboundItem_Match_def IPVersionItem_Match_def NetworkItem_Match_def AuthUserItem_Match_def
  ProtocolItem_Match_def ClientItem_Match_def DomainItem_Match_def DomainKeywordItem_Match_def
  DomainRegexItem_Match_def AdGuardDomainItem_Match_def IPCIDRItem_Match_def
  IPIsPrivateItem_Match_def IPAcceptAnyItem_Match_def PortItem_Match_def PortRangeItem_Match_def
  ProcessItem_Match_def ProcessPathItem_Match_def ProcessPathRegexItem_Match_def
  PackageNameItem_Match_def PackageNameRegexItem_Match_def UserItem_Match_def UserIdItem_Match_def
  ClashModeItem_Match_def NetworkTypeItem_Match_def NetworkIsExpensiveItem_Match_def
  NetworkIsConstrainedItem_Match_def WIFISSIDItem_Match_def WIFIBSSIDItem_Match_def
  InterfaceAddressItem_Match_def NetworkInterfaceAddressItem_Match_def
  DefaultInterfaceAddressItem_Match_def SourceMACAddressItem_Match_def
  SourceHostnameItem_Match_def PreferredByItem_Match_def PreferredByDNSItem_Match_def
  OutboundItem_Match_def QueryTypeItem_Match_def QueryClientSubnetItem_Match_def
  QueryDNSSECItem_Match_def DNSResponseRCodeItem_Match_def DNSResponseRecordItem_Match_def
  host_match_def owner_match_def domainHost_def DNSRecordOptions_Match_def section_records_def

lemmas item_constructors =
  NewInboundRule_def NewIPVersionItem_def NewNetworkItem_def NewAuthUserItem_def
  NewProtocolItem_def NewClientItem_def NewDomainKeywordItem_def NewIPIsPrivateItem_def
  NewProcessItem_def NewProcessPathItem_def NewPackageNameItem_def NewUserItem_def
  NewUserIDItem_def NewClashModeItem_def NewNetworkTypeItem_def NewWIFISSIDItem_def
  NewInterfaceAddressItem_def NewNetworkInterfaceAddressItem_def
  NewDefaultInterfaceAddressItem_def NewSourceHostnameItem_def NewQueryTypeItem_def
  NewQueryClientSubnetItem_def NewDNSResponseRCodeItem_def NewPortItem_def NewPreferredByItem_def
  NewPreferredByDNSItem_def NewDNSResponseRecordItem_def

end
