(* ===== verification/RuleEngine.thy ===== *)
theory RuleEngine
  imports RuleItems
begin

unbundle bit_operations_syntax

text \<open>
  The rule engine of \<^verbatim>\<open>route/rule\<close>: \<^verbatim>\<open>match_state.go\<close>,
  \<^verbatim>\<open>rule_abstract.go\<close>, \<^verbatim>\<open>rule_item_rule_set.go\<close> and the matching
  half of \<^verbatim>\<open>rule_dns.go\<close>.

  Rules are the mutually recursive datatype \<open>rule\<close>: a rule may hold a rule-set item, whose
  rule-sets hold rules.  A matching function takes the connection metadata the Go method
  receives by pointer and returns its result together with the metadata it leaves behind.
  The \<^verbatim>\<open>for\<close> loops are recursive functions over the list they walk, with the loop's local
  variables as arguments.
\<close>

subsection \<open>Group flags\<close>

type_synonym ruleMatchState = "8 word"

definition ruleMatchSourceAddress :: ruleMatchState where
  "ruleMatchSourceAddress = 1"

definition ruleMatchSourcePort :: ruleMatchState where
  "ruleMatchSourcePort = 2"

definition ruleMatchDestinationAddress :: ruleMatchState where
  "ruleMatchDestinationAddress = 4"

definition ruleMatchDestinationPort :: ruleMatchState where
  "ruleMatchDestinationPort = 8"

record ruleGroupMatch =
  required :: ruleMatchState
  satisfied :: ruleMatchState

definition has_state :: "ruleMatchState \<Rightarrow> ruleMatchState \<Rightarrow> bool" where
  "has_state s target \<longleftrightarrow> s AND target \<noteq> 0"

definition group_done :: "ruleGroupMatch \<Rightarrow> bool" where
  "group_done g \<longleftrightarrow> required g AND NOT (satisfied g) = 0"

definition mergeWith :: "ruleGroupMatch \<Rightarrow> ruleGroupMatch \<Rightarrow> ruleGroupMatch" where
  "mergeWith g other = \<lparr>required = required g OR required other,
     satisfied = satisfied g OR satisfied other\<rparr>"

record ruleMatchSnapshot =
  snap_ipCidrMatchSource :: bool
  snap_ipCidrAcceptEmpty :: bool
  snap_deferredIPCIDRMatchGroups :: "8 word"

definition snapshotRuleMatch :: "inbound_context \<Rightarrow> ruleMatchSnapshot" where
  "snapshotRuleMatch m = \<lparr>snap_ipCidrMatchSource = IPCIDRMatchSource m,
     snap_ipCidrAcceptEmpty = IPCIDRAcceptEmpty m,
     snap_deferredIPCIDRMatchGroups = DeferredIPCIDRMatchGroups m\<rparr>"

definition restore :: "ruleMatchSnapshot \<Rightarrow> inbound_context \<Rightarrow> inbound_context" where
  "restore s m = m\<lparr>IPCIDRMatchSource := snap_ipCidrMatchSource s,
     IPCIDRAcceptEmpty := snap_ipCidrAcceptEmpty s,
     DeferredIPCIDRMatchGroups := snap_deferredIPCIDRMatchGroups s\<rparr>"

subsection \<open>Rules and rule-sets\<close>

datatype all_item = PlainItem rule_item | TheRuleSetItem

datatype rule_kind = RouteKind | HeadlessKind | DNSKind

record RuleSetMetadata =
  ContainsProcessRule :: bool
  ContainsWIFIRule :: bool
  ContainsIPCIDRRule :: bool
  ContainsDNSQueryTypeRule :: bool
  ContainsNonIPCIDRRule :: bool

datatype rule =
    DefaultRule default_rule
  | DefaultHeadlessRule default_rule
  | DefaultDNSRule default_rule bool string
  | LogicalRule rule_kind string "rule list" bool
and default_rule =
    AbstractDefaultRule (items: "rule_item list") (sourceAddressItems: "rule_item list")
      (sourcePortItems: "rule_item list") (destinationAddressItems: "rule_item list")
      (destinationIPCIDRItems: "rule_item list") (destinationPortItems: "rule_item list")
      (allItems: "all_item list") (ruleSetItem: "rule_set_item option") (invert: bool)
and rule_set_item =
    RuleSetItem (tagList: "string list") (setList: "rule_set list") (ipCidrMatchSource: bool)
      (ipCidrAcceptEmpty: bool)
and rule_set =
    RuleSet (set_tag: string) (set_rules: "rule list") (set_Metadata: RuleSetMetadata)

definition mergeableRuleIn :: "rule list \<Rightarrow> default_rule option" where
  "mergeableRuleIn rules =
     (case rules of
        [DefaultHeadlessRule r] \<Rightarrow>
          if invert r \<or> ruleSetItem r \<noteq> None then None else Some r
      | _ \<Rightarrow> None)"

subsection \<open>Group evaluation\<close>

definition matchAnyItem :: "rule_env \<Rightarrow> rule_item list \<Rightarrow> inbound_context \<Rightarrow> bool" where
  "matchAnyItem E its m = list_ex (\<lambda>it. item_match E it m) its"

definition destinationIPCIDRMatchesSource :: "default_rule \<Rightarrow> inbound_context \<Rightarrow> bool" where
  "destinationIPCIDRMatchesSource r m \<longleftrightarrow>
     IPCIDRMatchSource m \<and> length (destinationIPCIDRItems r) > 0"

definition destinationIPCIDRMatchesDestination :: "default_rule \<Rightarrow> inbound_context \<Rightarrow> bool" where
  "destinationIPCIDRMatchesDestination r m \<longleftrightarrow>
     \<not> IgnoreDestinationIPCIDRMatch m \<and> \<not> IPCIDRMatchSource m \<and>
     length (destinationIPCIDRItems r) > 0"

definition require :: "bool \<Rightarrow> ruleMatchState \<Rightarrow> bool \<Rightarrow> ruleGroupMatch \<Rightarrow> ruleGroupMatch" where
  "require present flag matched g =
     (if present then
        (let g1 = g\<lparr>required := required g OR flag\<rparr> in
         if \<not> has_state (satisfied g1) flag \<and> matched
         then g1\<lparr>satisfied := satisfied g1 OR flag\<rparr> else g1)
      else g)"

definition evaluateGroups ::
  "rule_env \<Rightarrow> default_rule \<Rightarrow> inbound_context \<Rightarrow> ruleGroupMatch \<times> inbound_context" where
  "evaluateGroups E r m =
     (let g0 = \<lparr>required = 0, satisfied = 0\<rparr>;
          g1 = require (length (sourceAddressItems r) > 0) ruleMatchSourceAddress
                 (matchAnyItem E (sourceAddressItems r) m) g0;
          g2 = require (destinationIPCIDRMatchesSource r m) ruleMatchSourceAddress
                 (matchAnyItem E (destinationIPCIDRItems r) m) g1;
          g3 = require (length (sourcePortItems r) > 0) ruleMatchSourcePort
                 (matchAnyItem E (sourcePortItems r) m) g2;
          g4 = require (length (destinationAddressItems r) > 0) ruleMatchDestinationAddress
                 (matchAnyItem E (destinationAddressItems r) m) g3;
          g5 = require (destinationIPCIDRMatchesDestination r m) ruleMatchDestinationAddress
                 (matchAnyItem E (destinationIPCIDRItems r) m) g4;
          g6 = require (length (destinationPortItems r) > 0) ruleMatchDestinationPort
                 (matchAnyItem E (destinationPortItems r) m) g5
      in (g6,
          if IgnoreDestinationIPCIDRMatch m \<and> \<not> IPCIDRMatchSource m \<and>
             length (destinationIPCIDRItems r) > 0 \<and> length (destinationAddressItems r) = 0
          then m\<lparr>DeferredIPCIDRMatchGroups :=
                 DeferredIPCIDRMatchGroups m OR ruleMatchDestinationAddress\<rparr>
          else m))"

definition evaluateForMerge ::
  "rule_env \<Rightarrow> default_rule \<Rightarrow> inbound_context \<Rightarrow> (ruleGroupMatch \<times> bool) \<times> inbound_context" where
  "evaluateForMerge E r m =
     (let (groups, m1) = evaluateGroups E r m in
      if list_all (\<lambda>it. item_match E it m1) (items r) then ((groups, True), m1)
      else ((\<lparr>required = 0, satisfied = 0\<rparr>, False), m1))"

definition prepareNestedMatch :: "bool \<Rightarrow> bool \<Rightarrow> inbound_context \<Rightarrow> inbound_context" where
  "prepareNestedMatch src ae m =
     (ResetRuleMatchCache m)\<lparr>IPCIDRMatchSource := src, IPCIDRAcceptEmpty := ae\<rparr>"

definition set_deferred :: "(8 word \<Rightarrow> 8 word) \<Rightarrow> inbound_context \<Rightarrow> inbound_context" where
  "set_deferred f m = m\<lparr>DeferredIPCIDRMatchGroups := f (DeferredIPCIDRMatchGroups m)\<rparr>"

text \<open>What the loops over rule-sets and rules do once the list is exhausted.\<close>

definition finish_loop ::
  "ruleMatchSnapshot \<Rightarrow> bool \<Rightarrow> 8 word \<Rightarrow> inbound_context \<Rightarrow> bool \<times> inbound_context" where
  "finish_loop snapshot matched deferred m =
     (let m1 = restore snapshot m in
      (matched, if matched then set_deferred (\<lambda>d. d OR deferred) m1 else m1))"

subsection \<open>Matching\<close>

function (sequential)
  rule_Match :: "rule_env \<Rightarrow> rule \<Rightarrow> inbound_context \<Rightarrow> bool \<times> inbound_context"
and default_Match :: "rule_env \<Rightarrow> default_rule \<Rightarrow> inbound_context \<Rightarrow> bool \<times> inbound_context"
and matchInner :: "rule_env \<Rightarrow> default_rule \<Rightarrow> inbound_context \<Rightarrow> bool \<times> inbound_context"
and matchWithOuterGroups ::
  "rule_env \<Rightarrow> rule_set_item \<Rightarrow> ruleGroupMatch \<Rightarrow> inbound_context \<Rightarrow> bool \<times> inbound_context"
and outer_loop ::
  "rule_env \<Rightarrow> rule_set list \<Rightarrow> bool \<Rightarrow> bool \<Rightarrow> ruleGroupMatch \<Rightarrow> ruleMatchSnapshot \<Rightarrow> bool \<Rightarrow> 8 word \<Rightarrow>
   inbound_context \<Rightarrow> bool \<times> inbound_context"
and matchAnyHeadlessRule :: "rule_env \<Rightarrow> rule list \<Rightarrow> inbound_context \<Rightarrow> bool \<times> inbound_context"
and any_loop ::
  "rule_env \<Rightarrow> rule list \<Rightarrow> ruleMatchSnapshot \<Rightarrow> bool \<Rightarrow> 8 word \<Rightarrow> inbound_context \<Rightarrow>
   bool \<times> inbound_context"
and and_loop ::
  "rule_env \<Rightarrow> rule list \<Rightarrow> 8 word \<Rightarrow> inbound_context \<Rightarrow> bool \<times> 8 word \<times> inbound_context"
and or_loop ::
  "rule_env \<Rightarrow> rule list \<Rightarrow> bool \<Rightarrow> 8 word \<Rightarrow> inbound_context \<Rightarrow> bool \<times> 8 word \<times> inbound_context"
where
  "rule_Match E (DefaultRule r) m = default_Match E r m"
| "rule_Match E (DefaultHeadlessRule r) m = default_Match E r m"
| "rule_Match E (DefaultDNSRule r matchResponse matchResponseTag) m =
     (if matchResponse then
        (let response = (if matchResponseTag \<noteq> [] then NamedDNSResponses m matchResponseTag
                         else DNSResponse m) in
         if response = None then (invert r, m)
         else (fst (default_Match E r (m\<lparr>DNSResponse := response,
                      DestinationAddressMatchFromResponse := True\<rparr>)), m))
      else default_Match E r m)"
| "rule_Match E (LogicalRule k mode rules neg) m =
     (let snapshot = snapshotRuleMatch m;
          (matched, deferredGroups, m1) =
            (if mode = ''and'' then and_loop E rules 0 m else or_loop E rules False 0 m);
          m2 = restore snapshot m1;
          m3 = (if matched then set_deferred (\<lambda>d. d OR deferredGroups) m2 else m2)
      in if neg then (if \<not> matched then (True, m3) else (deferredGroups \<noteq> 0, m3))
         else (matched, m3))"
| "default_Match E r m =
     (if length (allItems r) = 0 then (True, m)
      else
        (let (matched, m1) = matchInner E r m in
         if invert r then
           (if \<not> matched then (True, set_deferred (\<lambda>d. 0) m1)
            else (DeferredIPCIDRMatchGroups m1 \<noteq> 0, m1))
         else (matched, m1)))"
| "matchInner E (AbstractDefaultRule its sa sp da dip dp al rsi neg) m =
     (let r = AbstractDefaultRule its sa sp da dip dp al rsi neg;
          (groups, m1) = evaluateGroups E r m
      in if \<not> list_all (\<lambda>it. item_match E it m1) its then (False, m1)
         else
           (let (matched, m2) =
              (case rsi of
                 Some rs \<Rightarrow> matchWithOuterGroups E rs groups m1
               | None \<Rightarrow> (group_done groups, m1))
            in (matched,
                if matched then set_deferred (\<lambda>d. d AND NOT (satisfied groups)) m2 else m2)))"
| "matchWithOuterGroups E (RuleSetItem tags sets src ae) outerGroups m =
     outer_loop E sets src ae outerGroups (snapshotRuleMatch m) False 0 m"
| "outer_loop E [] src ae outerGroups snapshot matched deferredGroups m =
     finish_loop snapshot matched deferredGroups m"
| "outer_loop E (RuleSet tg rules md # sets) src ae outerGroups snapshot matched deferredGroups m =
     (let m0 = prepareNestedMatch src ae m in
      case mergeableRuleIn rules of
        Some branch \<Rightarrow>
          (let ((branchGroups, branchMatched), m1) = evaluateForMerge E branch m0;
               merged = mergeWith outerGroups branchGroups;
               branchDeferredGroups = DeferredIPCIDRMatchGroups m1 AND NOT (satisfied merged)
           in if branchMatched \<and> group_done merged then
                (if branchDeferredGroups = 0 then
                   (True, set_deferred (\<lambda>d. d AND NOT (satisfied merged)) (restore snapshot m1))
                 else outer_loop E sets src ae outerGroups snapshot True
                        (deferredGroups OR branchDeferredGroups) m1)
              else outer_loop E sets src ae outerGroups snapshot matched deferredGroups m1)
      | None \<Rightarrow>
          (if group_done outerGroups then
             (let (b, m1) = matchAnyHeadlessRule E rules m0 in
              if b then
                (if DeferredIPCIDRMatchGroups m1 = 0 then (True, restore snapshot m1)
                 else outer_loop E sets src ae outerGroups snapshot True
                        (deferredGroups OR DeferredIPCIDRMatchGroups m1) m1)
              else outer_loop E sets src ae outerGroups snapshot matched deferredGroups m1)
           else outer_loop E sets src ae outerGroups snapshot matched deferredGroups m0))"
| "matchAnyHeadlessRule E rules m = any_loop E rules (snapshotRuleMatch m) False 0 m"
| "any_loop E [] snapshot matched deferredGroups m = finish_loop snapshot matched deferredGroups m"
| "any_loop E (r # rules) snapshot matched deferredGroups m =
     (let (b, m1) = rule_Match E r (ResetRuleMatchCache m) in
      if b then
        (if DeferredIPCIDRMatchGroups m1 = 0 then (True, restore snapshot m1)
         else any_loop E rules snapshot True (deferredGroups OR DeferredIPCIDRMatchGroups m1) m1)
      else any_loop E rules snapshot matched deferredGroups m1)"
| "and_loop E [] deferredGroups m = (True, deferredGroups, m)"
| "and_loop E (r # rules) deferredGroups m =
     (let (b, m1) = rule_Match E r (ResetRuleCache m) in
      if \<not> b then (False, 0, m1)
      else and_loop E rules (deferredGroups OR DeferredIPCIDRMatchGroups m1) m1)"
| "or_loop E [] matched deferredGroups m = (matched, deferredGroups, m)"
| "or_loop E (r # rules) matched deferredGroups m =
     (let (b, m1) = rule_Match E r (ResetRuleCache m) in
      if b then
        (if DeferredIPCIDRMatchGroups m1 = 0 then (True, 0, m1)
         else or_loop E rules True (deferredGroups OR DeferredIPCIDRMatchGroups m1) m1)
      else or_loop E rules matched deferredGroups m1)"
  by pat_completeness auto

termination
  by size_change

text \<open>
  \<^verbatim>\<open>RuleSetItem.Match\<close>, the item's method of the \<^verbatim>\<open>RuleItem\<close> interface: the first
  matching rule-set decides, and no groups are merged.
\<close>

fun item_loop ::
  "rule_env \<Rightarrow> rule_set list \<Rightarrow> bool \<Rightarrow> bool \<Rightarrow> ruleMatchSnapshot \<Rightarrow> inbound_context \<Rightarrow>
   bool \<times> inbound_context" where
  "item_loop E [] src ae snapshot m = (False, restore snapshot m)"
| "item_loop E (S # sets) src ae snapshot m =
     (let (b, m1) = matchAnyHeadlessRule E (set_rules S) (prepareNestedMatch src ae m) in
      if b then (True, restore snapshot m1) else item_loop E sets src ae snapshot m1)"

definition RuleSetItem_Match ::
  "rule_env \<Rightarrow> rule_set_item \<Rightarrow> inbound_context \<Rightarrow> bool \<times> inbound_context" where
  "RuleSetItem_Match E rs m =
     item_loop E (setList rs) (ipCidrMatchSource rs) (ipCidrAcceptEmpty rs) (snapshotRuleMatch m) m"

subsection \<open>DNS rules\<close>

definition ContainsDestinationIPCIDRRule :: "rule_set_item \<Rightarrow> bool" where
  "ContainsDestinationIPCIDRRule rs =
     (if ipCidrMatchSource rs then False
      else list_ex (\<lambda>S. ContainsIPCIDRRule (set_Metadata S)) (setList rs))"

definition default_WithAddressLimit :: "default_rule \<Rightarrow> bool" where
  "default_WithAddressLimit r =
     (if length (destinationIPCIDRItems r) > 0 then True
      else (case ruleSetItem r of None \<Rightarrow> False | Some rs \<Rightarrow> ContainsDestinationIPCIDRRule rs))"

text \<open>
  The methods of \<^verbatim>\<open>adapter.DNSRule\<close>.  Of the constructors of \<open>rule\<close>,
  \<open>DefaultDNSRule\<close> and \<open>LogicalRule DNSKind\<close> have them.
\<close>

fun is_dns_rule :: "rule \<Rightarrow> bool" where
  "is_dns_rule (DefaultDNSRule r mr tg) = True"
| "is_dns_rule (LogicalRule k mode rules neg) \<longleftrightarrow> k = DNSKind"
| "is_dns_rule _ = False"

fun WithAddressLimit :: "rule \<Rightarrow> bool" where
  "WithAddressLimit (DefaultDNSRule r mr tg) = default_WithAddressLimit r"
| "WithAddressLimit (LogicalRule k mode rules neg) =
     list_ex (\<lambda>sub. is_dns_rule sub \<and> WithAddressLimit sub) rules"
| "WithAddressLimit _ = False"

definition LegacyPreMatch ::
  "rule_env \<Rightarrow> rule \<Rightarrow> inbound_context \<Rightarrow> bool \<times> inbound_context" where
  "LegacyPreMatch E rl m =
     (case rl of
        DefaultDNSRule r matchResponse tg \<Rightarrow>
          (if matchResponse then (False, m)
           else (let (b, m1) = default_Match E r (m\<lparr>IgnoreDestinationIPCIDRMatch := True\<rparr>)
                 in (b, m1\<lparr>IgnoreDestinationIPCIDRMatch := False\<rparr>)))
      | _ \<Rightarrow> (let (b, m1) = rule_Match E rl (m\<lparr>IgnoreDestinationIPCIDRMatch := True\<rparr>)
             in (b, m1\<lparr>IgnoreDestinationIPCIDRMatch := False\<rparr>)))"

definition response_context :: "dns_msg \<Rightarrow> inbound_context \<Rightarrow> inbound_context" where
  "response_context response m =
     (ResetRuleCache m)\<lparr>DNSResponse := Some response, DestinationAddressMatchFromResponse := True\<rparr>"

definition MatchAddressLimit :: "rule_env \<Rightarrow> rule \<Rightarrow> inbound_context \<Rightarrow> dns_msg \<Rightarrow> bool" where
  "MatchAddressLimit E rl m response =
     (case rl of
        DefaultDNSRule r matchResponse tg \<Rightarrow> fst (default_Match E r (response_context response m))
      | _ \<Rightarrow> fst (rule_Match E rl (response_context response m)))"

end
