(* ===== verification/RuleSpec.thy ===== *)
theory RuleSpec
  imports RuleEngine
begin

unbundle bit_operations_syntax

text \<open>
  What a rule means, and that the engine implements it.

  \<open>sat\<close> says declaratively what the engine computes: the four address and port groups are
  disjunctions, the groups and the other fields are conjoined, a rule-set with a single plain default
  rule is merged into the outer rule's groups, any other rule-set is one more field, and rule-sets are
  alternatives.  It has no masks, no snapshots and no state.  \<open>doc_sat\<close> is the logic as documented
  (\<^verbatim>\<open>docs/configuration/route/rule.md\<close>, \<^verbatim>\<open>docs/configuration/dns/rule.md\<close> and
  \<^verbatim>\<open>docs/configuration/rule-set/headless-rule.md\<close>).  The two differ in two points.  The
  options \<^verbatim>\<open>rule_set_ip_cidr_match_source\<close> and \<^verbatim>\<open>rule_set_ip_cidr_accept_empty\<close> are
  documented for all of a rule-set, but a logical rule resets them.  And a rule without items matches, also when it is
  inverted.

  \<open>match_refines_spec\<close> shows that the engine, with its bit masks, its snapshots of the metadata
  and its deferred groups, computes \<open>sat\<close>, leaves the metadata as it found it, and agrees with
  \<open>doc_sat\<close> on the rules where neither point applies (\<open>conforms\<close>).
\<close>

subsection \<open>The specification\<close>

definition groups_ok :: "rule_env \<Rightarrow> (default_rule \<times> inbound_context) list \<Rightarrow> bool" where
  "groups_ok E parts \<longleftrightarrow>
     list_all (\<lambda>fields.
       list_all (\<lambda>(r, m). fields r m = []) parts \<or>
       list_ex (\<lambda>(r, m). list_ex (\<lambda>it. item_match E it m) (fields r m)) parts)
     [\<lambda>r m. sourceAddressItems r @ (if IPCIDRMatchSource m then destinationIPCIDRItems r else []),
      \<lambda>r m. sourcePortItems r,
      \<lambda>r m. destinationAddressItems r @ (if IPCIDRMatchSource m then [] else destinationIPCIDRItems r),
      \<lambda>r m. destinationPortItems r]"

definition items_ok :: "rule_env \<Rightarrow> default_rule \<Rightarrow> inbound_context \<Rightarrow> bool" where
  "items_ok E r m = list_all (\<lambda>it. item_match E it m) (items r)"

function (sequential)
  sat :: "rule_env \<Rightarrow> rule \<Rightarrow> inbound_context \<Rightarrow> bool"
and sat_default :: "rule_env \<Rightarrow> default_rule \<Rightarrow> inbound_context \<Rightarrow> bool"
and sat_sets :: "rule_env \<Rightarrow> rule_set list \<Rightarrow> default_rule \<Rightarrow> inbound_context \<Rightarrow> inbound_context \<Rightarrow> bool"
and sat_any :: "rule_env \<Rightarrow> rule list \<Rightarrow> inbound_context \<Rightarrow> bool"
and sat_all :: "rule_env \<Rightarrow> rule list \<Rightarrow> inbound_context \<Rightarrow> bool"
where
  "sat E (DefaultRule r) m = sat_default E r m"
| "sat E (DefaultHeadlessRule r) m = sat_default E r m"
| "sat E (DefaultDNSRule r matchResponse tag) m =
     (if matchResponse then
        (let response = (if tag \<noteq> [] then NamedDNSResponses m tag else DNSResponse m) in
         if response = None then invert r
         else sat_default E r
           (m\<lparr>DNSResponse := response, DestinationAddressMatchFromResponse := True\<rparr>))
      else sat_default E r m)"
| "sat E (LogicalRule k mode rules neg) m =
     (let m0 = m\<lparr>IPCIDRMatchSource := False, IPCIDRAcceptEmpty := False\<rparr> in
      (if mode = ''and'' then sat_all E rules m0 else sat_any E rules m0) \<noteq> neg)"
| "sat_default E (AbstractDefaultRule its sa sp da dip dp al rsi neg) m \<longleftrightarrow>
     (let r = AbstractDefaultRule its sa sp da dip dp al rsi neg in
      al = [] \<or>
      (items_ok E r m \<and>
        (case rsi of
           None \<Rightarrow> groups_ok E [(r, m)]
         | Some (RuleSetItem tags sets src ae) \<Rightarrow>
             sat_sets E sets r m (m\<lparr>IPCIDRMatchSource := src, IPCIDRAcceptEmpty := ae\<rparr>))) \<noteq> neg)"
| "sat_sets E [] r m m' = False"
| "sat_sets E (RuleSet tg rules md # sets) r m m' \<longleftrightarrow>
     (case mergeableRuleIn rules of
        Some b \<Rightarrow> items_ok E b m' \<and> groups_ok E [(r, m), (b, m')]
      | None \<Rightarrow> groups_ok E [(r, m)] \<and> sat_any E rules m')
     \<or> sat_sets E sets r m m'"
| "sat_any E [] m = False"
| "sat_any E (r # rules) m = (sat E r m \<or> sat_any E rules m)"
| "sat_all E [] m = True"
| "sat_all E (r # rules) m = (sat E r m \<and> sat_all E rules m)"
  by pat_completeness auto

termination by size_change

text \<open>The logic of the documentation: the options of a rule-set hold for every rule in it.\<close>

function (sequential)
  doc_sat :: "rule_env \<Rightarrow> rule \<Rightarrow> inbound_context \<Rightarrow> bool"
and doc_default :: "rule_env \<Rightarrow> default_rule \<Rightarrow> inbound_context \<Rightarrow> bool"
and doc_sets :: "rule_env \<Rightarrow> rule_set list \<Rightarrow> default_rule \<Rightarrow> inbound_context \<Rightarrow> inbound_context \<Rightarrow> bool"
and doc_any :: "rule_env \<Rightarrow> rule list \<Rightarrow> inbound_context \<Rightarrow> bool"
and doc_all :: "rule_env \<Rightarrow> rule list \<Rightarrow> inbound_context \<Rightarrow> bool"
where
  "doc_sat E (DefaultRule r) m = doc_default E r m"
| "doc_sat E (DefaultHeadlessRule r) m = doc_default E r m"
| "doc_sat E (DefaultDNSRule r matchResponse tag) m =
     (if matchResponse then
        (let response = (if tag \<noteq> [] then NamedDNSResponses m tag else DNSResponse m) in
         if response = None then invert r
         else doc_default E r
           (m\<lparr>DNSResponse := response, DestinationAddressMatchFromResponse := True\<rparr>))
      else doc_default E r m)"
| "doc_sat E (LogicalRule k mode rules neg) m =
     ((if mode = ''and'' then doc_all E rules m else doc_any E rules m) \<noteq> neg)"
| "doc_default E (AbstractDefaultRule its sa sp da dip dp al rsi neg) m \<longleftrightarrow>
     (let r = AbstractDefaultRule its sa sp da dip dp al rsi neg in
      (items_ok E r m \<and>
        (case rsi of
           None \<Rightarrow> groups_ok E [(r, m)]
         | Some (RuleSetItem tags sets src ae) \<Rightarrow>
             doc_sets E sets r m (m\<lparr>IPCIDRMatchSource := src, IPCIDRAcceptEmpty := ae\<rparr>))) \<noteq> neg)"
| "doc_sets E [] r m m' = False"
| "doc_sets E (RuleSet tg rules md # sets) r m m' \<longleftrightarrow>
     (case mergeableRuleIn rules of
        Some b \<Rightarrow> items_ok E b m' \<and> groups_ok E [(r, m), (b, m')]
      | None \<Rightarrow> groups_ok E [(r, m)] \<and> doc_any E rules m')
     \<or> doc_sets E sets r m m'"
| "doc_any E [] m = False"
| "doc_any E (r # rules) m = (doc_sat E r m \<or> doc_any E rules m)"
| "doc_all E [] m = True"
| "doc_all E (r # rules) m = (doc_sat E r m \<and> doc_all E rules m)"
  by pat_completeness auto

termination by size_change

text \<open>
  The rules on which the two agree: a logical rule stands where neither option is on (\<open>flagged\<close>), and
  a rule whose list of all items is empty has no item and is not inverted.
\<close>

function (sequential)
  conforms :: "bool \<Rightarrow> rule \<Rightarrow> bool"
and conforms_default :: "default_rule \<Rightarrow> bool"
and conforms_sets :: "bool \<Rightarrow> rule_set list \<Rightarrow> bool"
and conforms_all :: "bool \<Rightarrow> rule list \<Rightarrow> bool"
where
  "conforms flagged (DefaultRule r) = conforms_default r"
| "conforms flagged (DefaultHeadlessRule r) = conforms_default r"
| "conforms flagged (DefaultDNSRule r matchResponse tag) = conforms_default r"
| "conforms flagged (LogicalRule k mode rules neg) \<longleftrightarrow> \<not> flagged \<and> conforms_all flagged rules"
| "conforms_default (AbstractDefaultRule its sa sp da dip dp al rsi neg) \<longleftrightarrow>
     (al = [] \<longrightarrow> its @ sa @ sp @ da @ dip @ dp = [] \<and> rsi = None \<and> \<not> neg) \<and>
     (case rsi of None \<Rightarrow> True | Some (RuleSetItem tags sets src ae) \<Rightarrow> conforms_sets (src \<or> ae) sets)"
| "conforms_sets flagged [] = True"
| "conforms_sets flagged (RuleSet tg rules md # sets) \<longleftrightarrow> conforms_all flagged rules \<and> conforms_sets flagged sets"
| "conforms_all flagged [] = True"
| "conforms_all flagged (r # rules) \<longleftrightarrow> conforms flagged r \<and> conforms_all flagged rules"
  by pat_completeness auto

termination by size_change

abbreviation flags_on :: "inbound_context \<Rightarrow> bool" where
  "flags_on m \<equiv> IPCIDRMatchSource m \<or> IPCIDRAcceptEmpty m"

lemma sat_documented:
  "conforms (flags_on m) r \<Longrightarrow> sat E r m = doc_sat E r m"
  "conforms_default d \<Longrightarrow> sat_default E d m = doc_default E d m"
  "conforms_sets (flags_on m') sets \<Longrightarrow> sat_sets E sets d m m' = doc_sets E sets d m m'"
  "conforms_all (flags_on m) rules \<Longrightarrow> sat_any E rules m = doc_any E rules m"
  "conforms_all (flags_on m) rules \<Longrightarrow> sat_all E rules m = doc_all E rules m"
proof (induction E r m and E d m and E sets d m m' and E rules m and E rules m
    rule: sat_sat_default_sat_sets_sat_any_sat_all.induct)
  case (4 E k mode rules neg m)
  then have off: "\<not> IPCIDRMatchSource m" "\<not> IPCIDRAcceptEmpty m" "conforms_all False rules" by auto
  then have m: "m\<lparr>IPCIDRMatchSource := False, IPCIDRAcceptEmpty := False\<rparr> = m" by simp
  show ?case using 4(1,2) off(3) unfolding sat.simps doc_sat.simps Let_def m by (simp add: off(1,2))
next
  case (5 E its sa sp da dip dp al rsi neg m)
  then show ?case
    by (cases "al = []") (auto simp: Let_def items_ok_def groups_ok_def split: option.splits rule_set_item.splits)
qed (auto simp: Let_def split: option.splits)

definition clean :: "inbound_context \<Rightarrow> bool" where
  "clean m \<longleftrightarrow> \<not> IgnoreDestinationIPCIDRMatch m \<and> DeferredIPCIDRMatchGroups m = 0 \<and>
     \<not> SourceAddressMatch m \<and> \<not> SourcePortMatch m \<and> \<not> DestinationAddressMatch m \<and>
     \<not> DestinationPortMatch m"

subsection \<open>Bit masks of the four groups\<close>

definition flags :: "bool \<Rightarrow> bool \<Rightarrow> bool \<Rightarrow> bool \<Rightarrow> 8 word" where
  "flags a b c d = (if a then ruleMatchSourceAddress else 0) OR (if b then ruleMatchSourcePort else 0)
     OR (if c then ruleMatchDestinationAddress else 0) OR (if d then ruleMatchDestinationPort else 0)"

lemmas flag_defs = ruleMatchSourceAddress_def ruleMatchSourcePort_def
  ruleMatchDestinationAddress_def ruleMatchDestinationPort_def

lemma flags_or: "flags a b c d OR flags a' b' c' d' = flags (a \<or> a') (b \<or> b') (c \<or> c') (d \<or> d')"
  by (cases a; cases b; cases c; cases d; cases a'; cases b'; cases c'; cases d')
    (simp_all add: flags_def flag_defs)

lemma flags_diff:
  "flags a b c d AND NOT (flags a' b' c' d') = flags (a \<and> \<not> a') (b \<and> \<not> b') (c \<and> \<not> c') (d \<and> \<not> d')"
  by (cases a; cases b; cases c; cases d; cases a'; cases b'; cases c'; cases d')
    (simp_all add: flags_def flag_defs)

lemma flags_eq_0: "flags a b c d = 0 \<longleftrightarrow> \<not> a \<and> \<not> b \<and> \<not> c \<and> \<not> d"
  by (cases a; cases b; cases c; cases d) (simp_all add: flags_def flag_defs)
lemma flag_flags:
  "ruleMatchSourceAddress = flags True False False False"
  "ruleMatchSourcePort = flags False True False False"
  "ruleMatchDestinationAddress = flags False False True False"
  "ruleMatchDestinationPort = flags False False False True"
  "\<lparr>required = 0, satisfied = 0\<rparr> = \<lparr>required = flags False False False False, satisfied = flags False False False False\<rparr>"
  by (simp_all add: flags_def)

lemma flags_and: "flags a b c d AND flags a' b' c' d' = flags (a \<and> a') (b \<and> b') (c \<and> c') (d \<and> d')"
  by (cases a; cases b; cases c; cases d; cases a'; cases b'; cases c'; cases d')
    (simp_all add: flags_def flag_defs)

lemma require_flags:
  "require p ruleMatchSourceAddress x \<lparr>required = flags a b c d, satisfied = flags a' b' c' d'\<rparr> =
     \<lparr>required = flags (a \<or> p) b c d, satisfied = flags (a' \<or> p \<and> x) b' c' d'\<rparr>"
  "require p ruleMatchSourcePort x \<lparr>required = flags a b c d, satisfied = flags a' b' c' d'\<rparr> =
     \<lparr>required = flags a (b \<or> p) c d, satisfied = flags a' (b' \<or> p \<and> x) c' d'\<rparr>"
  "require p ruleMatchDestinationAddress x \<lparr>required = flags a b c d, satisfied = flags a' b' c' d'\<rparr> =
     \<lparr>required = flags a b (c \<or> p) d, satisfied = flags a' b' (c' \<or> p \<and> x) d'\<rparr>"
  "require p ruleMatchDestinationPort x \<lparr>required = flags a b c d, satisfied = flags a' b' c' d'\<rparr> =
     \<lparr>required = flags a b c (d \<or> p), satisfied = flags a' b' c' (d' \<or> p \<and> x)\<rparr>"
  by (auto simp: require_def has_state_def Let_def flags_and flags_or flags_eq_0 flag_flags(1-4))

definition groups_of :: "rule_env \<Rightarrow> default_rule \<Rightarrow> inbound_context \<Rightarrow> ruleGroupMatch" where
  "groups_of E r m = (let src = IPCIDRMatchSource m; dst = (\<not> IgnoreDestinationIPCIDRMatch m \<and> \<not> IPCIDRMatchSource m);
      any = (\<lambda>l. matchAnyItem E l m) in
    \<lparr>required = flags (sourceAddressItems r \<noteq> [] \<or> src \<and> destinationIPCIDRItems r \<noteq> [])
       (sourcePortItems r \<noteq> [])
       (destinationAddressItems r \<noteq> [] \<or> dst \<and> destinationIPCIDRItems r \<noteq> [])
       (destinationPortItems r \<noteq> []),
     satisfied = flags (any (sourceAddressItems r) \<or> src \<and> any (destinationIPCIDRItems r))
       (any (sourcePortItems r))
       (any (destinationAddressItems r) \<or> dst \<and> any (destinationIPCIDRItems r))
       (any (destinationPortItems r))\<rparr>)"

lemma matchAnyItem_Nil [simp]: "matchAnyItem E [] m = False"
  by (simp add: matchAnyItem_def)

lemma evaluateGroups_fst: "fst (evaluateGroups E r m) = groups_of E r m"
proof -
  have any: "l \<noteq> [] \<and> matchAnyItem E l m \<longleftrightarrow> matchAnyItem E l m" for l by auto
  show ?thesis
    by (simp add: evaluateGroups_def groups_of_def Let_def flag_flags(5) require_flags any conj_assoc
      destinationIPCIDRMatchesSource_def destinationIPCIDRMatchesDestination_def
)
qed

subsection \<open>Matching of metadata in its resting state\<close>

lemma evaluateGroups_snd: "\<not> IgnoreDestinationIPCIDRMatch m \<Longrightarrow> snd (evaluateGroups E r m) = m"
  by (simp add: evaluateGroups_def Let_def)

lemma evaluateGroups_clean: "clean m \<Longrightarrow> evaluateGroups E r m = (groups_of E r m, m)"
  by (metis clean_def evaluateGroups_fst evaluateGroups_snd prod.collapse)

lemma done_single: "clean m \<Longrightarrow> group_done (groups_of E r m) \<longleftrightarrow> groups_ok E [(r, m)]"
  by (auto simp: group_done_def groups_of_def groups_ok_def Let_def flags_diff flags_eq_0 clean_def matchAnyItem_def)

lemma done_merged: "clean m \<Longrightarrow> clean m' \<Longrightarrow>
   group_done (mergeWith (groups_of E r m) (groups_of E b m')) \<longleftrightarrow> groups_ok E [(r, m), (b, m')]"
  by (auto simp: group_done_def mergeWith_def groups_of_def groups_ok_def Let_def flags_or flags_diff flags_eq_0 clean_def matchAnyItem_def)


lemma clean_flags [simp]:
  "clean (m\<lparr>IPCIDRMatchSource := a\<rparr>) = clean m" "clean (m\<lparr>IPCIDRAcceptEmpty := b\<rparr>) = clean m"
  "clean (m\<lparr>DNSResponse := c\<rparr>) = clean m" "clean (m\<lparr>DestinationAddressMatchFromResponse := d\<rparr>) = clean m"
  by (simp_all add: clean_def)

lemma clean_reset:
  "clean m \<Longrightarrow> ResetRuleMatchCache m = m"
  "clean m \<Longrightarrow> ResetRuleCache m = m\<lparr>IPCIDRMatchSource := False, IPCIDRAcceptEmpty := False\<rparr>"
  "clean m \<Longrightarrow> prepareNestedMatch src ae m = m\<lparr>IPCIDRMatchSource := src, IPCIDRAcceptEmpty := ae\<rparr>"
  by (simp_all add: clean_def ResetRuleMatchCache_def ResetRuleCache_def prepareNestedMatch_def)

lemma clean_deferred: "clean m \<Longrightarrow> DeferredIPCIDRMatchGroups m = 0"
  by (simp add: clean_def)

lemma set_deferred_id: "f (DeferredIPCIDRMatchGroups m) = DeferredIPCIDRMatchGroups m \<Longrightarrow> set_deferred f m = m"
  by (simp add: set_deferred_def)

lemma restore_flags [simp]:
  "restore s (m\<lparr>IPCIDRMatchSource := a, IPCIDRAcceptEmpty := b\<rparr>) = restore s m"
  by (simp add: restore_def)

lemma restore_snapshot [simp]: "restore (snapshotRuleMatch m) m = m"
  by (simp add: restore_def snapshotRuleMatch_def)

lemma evaluateForMerge_clean:
  "clean m \<Longrightarrow> evaluateForMerge E r m =
    ((if items_ok E r m then (groups_of E r m, True) else (\<lparr>required = 0, satisfied = 0\<rparr>, False)), m)"
  by (simp add: evaluateForMerge_def evaluateGroups_clean items_ok_def)

definition zero_snap where "zero_snap s \<longleftrightarrow> snap_deferredIPCIDRMatchGroups s = 0"

lemma zero_snapshot: "clean m \<Longrightarrow> zero_snap (snapshotRuleMatch m)"
  by (simp add: zero_snap_def clean_def snapshotRuleMatch_def)

lemma set_deferred_restore: "zero_snap s \<Longrightarrow> f 0 = 0 \<Longrightarrow> set_deferred f (restore s m) = restore s m"
  by (simp add: set_deferred_def zero_snap_def restore_def)

lemma set_deferred_clean: "clean m \<Longrightarrow> f 0 = 0 \<Longrightarrow> set_deferred f m = m"
  by (simp add: set_deferred_def clean_def)

declare rule_Match.simps [simp del] default_Match.simps [simp del] matchAnyHeadlessRule.simps [simp del]

lemma outer_loop_step:
  assumes c: "clean m" "clean m1" and z: "zero_snap s"
    and m': "m' = m\<lparr>IPCIDRMatchSource := src, IPCIDRAcceptEmpty := ae\<rparr>"
    and any: "mergeableRuleIn rules = None \<Longrightarrow> group_done (groups_of E d m1) \<Longrightarrow>
      matchAnyHeadlessRule E rules m' = (sat_any E rules m', m')"
  shows "outer_loop E (RuleSet tg rules md # sets) src ae (groups_of E d m1) s False 0 m =
    (if (case mergeableRuleIn rules of
        Some b \<Rightarrow> items_ok E b m' \<and> groups_ok E [(d, m1), (b, m')]
      | None \<Rightarrow> groups_ok E [(d, m1)] \<and> sat_any E rules m')
     then (True, restore s m)
     else outer_loop E sets src ae (groups_of E d m1) s False 0 m')"
proof -
  have c': "clean m'" and r: "restore s m' = restore s m" using c m' by simp_all
  show ?thesis
  proof (cases "mergeableRuleIn rules")
    case None
    then show ?thesis using any c c' r
      by (simp add: Let_def clean_reset(3) m' [symmetric] done_single clean_deferred)
  next
    case (Some b)
    then show ?thesis using c c' r z
      by (simp add: Let_def clean_reset(3) m' [symmetric] evaluateForMerge_clean done_merged clean_deferred
        set_deferred_restore)
  qed
qed

definition refines :: "rule_env \<Rightarrow> rule \<Rightarrow> bool" where
  "refines E r \<longleftrightarrow> (\<forall>m. clean m \<longrightarrow> rule_Match E r m = (sat E r m, m))"

lemma refinesD: "refines E r \<Longrightarrow> clean m \<Longrightarrow> rule_Match E r m = (sat E r m, m)"
  by (simp add: refines_def)

lemma any_loop_refines:
  "\<lbrakk>\<forall>r \<in> set rules. refines E r; clean m; zero_snap s\<rbrakk> \<Longrightarrow>
   any_loop E rules s False 0 m = (sat_any E rules m, restore s m)"
  by (induction rules) (auto simp: finish_loop_def refinesD clean_reset clean_deferred)

lemma matchAnyHeadlessRule_refines:
  "\<lbrakk>\<forall>r \<in> set rules. refines E r; clean m\<rbrakk> \<Longrightarrow>
   matchAnyHeadlessRule E rules m = (sat_any E rules m, m)"
  by (simp add: matchAnyHeadlessRule.simps any_loop_refines zero_snapshot)

abbreviation no_flags :: "inbound_context \<Rightarrow> inbound_context" where
  "no_flags m \<equiv> m\<lparr>IPCIDRMatchSource := False, IPCIDRAcceptEmpty := False\<rparr>"

lemma and_loop_refines:
  "\<lbrakk>\<forall>r \<in> set rules. refines E r; clean m\<rbrakk> \<Longrightarrow>
   and_loop E rules 0 m = (sat_all E rules (no_flags m), 0, if rules = [] then m else no_flags m)"
  by (induction rules arbitrary: m) (auto simp: refinesD clean_reset clean_deferred)

lemma or_loop_refines:
  "\<lbrakk>\<forall>r \<in> set rules. refines E r; clean m\<rbrakk> \<Longrightarrow>
   or_loop E rules False 0 m = (sat_any E rules (no_flags m), 0, if rules = [] then m else no_flags m)"
  by (induction rules arbitrary: m) (auto simp: refinesD clean_reset clean_deferred)

lemma outer_loop_refines:
  "\<lbrakk>\<forall>S \<in> set sets. \<forall>r \<in> set (set_rules S). refines E r; clean m; clean m1; zero_snap s\<rbrakk> \<Longrightarrow>
   outer_loop E sets src ae (groups_of E d m1) s False 0 m =
     (sat_sets E sets d m1 (m\<lparr>IPCIDRMatchSource := src, IPCIDRAcceptEmpty := ae\<rparr>), restore s m)"
proof (induction sets arbitrary: m)
  case Nil
  then show ?case by (simp add: finish_loop_def)
next
  case (Cons S sets)
  obtain tg rules md where S: "S = RuleSet tg rules md" by (cases S)
  let ?m = "m\<lparr>IPCIDRMatchSource := src, IPCIDRAcceptEmpty := ae\<rparr>"
  have "matchAnyHeadlessRule E rules ?m = (sat_any E rules ?m, ?m)"
    using Cons.prems S by (simp add: matchAnyHeadlessRule_refines)
  then show ?case
    using Cons.prems Cons.IH [of ?m] unfolding S
    by (simp add: outer_loop_step [OF _ _ _ refl] del: outer_loop.simps)
qed

lemma matchInner_refines:
  assumes "\<forall>rs \<in> set_option (ruleSetItem d). \<forall>S \<in> set (setList rs). \<forall>r \<in> set (set_rules S). refines E r"
    and "clean m"
  shows "matchInner E d m =
     (items_ok E d m \<and> (case ruleSetItem d of None \<Rightarrow> groups_ok E [(d, m)]
        | Some rs \<Rightarrow> sat_sets E (setList rs) d m
            (m\<lparr>IPCIDRMatchSource := ipCidrMatchSource rs, IPCIDRAcceptEmpty := ipCidrAcceptEmpty rs\<rparr>)), m)"
proof (cases d)
  case (AbstractDefaultRule its sa sp da dip dp al rsi neg)
  show ?thesis
  proof (cases rsi)
    case None
    then show ?thesis using assms AbstractDefaultRule
      by (simp add: Let_def evaluateGroups_clean done_single items_ok_def set_deferred_clean)
  next
    case (Some rs)
    obtain tags sets src ae where "rs = RuleSetItem tags sets src ae" by (cases rs)
    then show ?thesis using assms AbstractDefaultRule Some
      by (simp add: Let_def evaluateGroups_clean items_ok_def set_deferred_clean outer_loop_refines
        zero_snapshot)
  qed
qed

lemma default_Match_refines:
  assumes "\<forall>rs \<in> set_option (ruleSetItem d). \<forall>S \<in> set (setList rs). \<forall>r \<in> set (set_rules S). refines E r"
    and "clean m"
  shows "default_Match E d m = (sat_default E d m, m)"
  using matchInner_refines [OF assms] assms(2)
  by (cases d)
    (auto simp: default_Match.simps Let_def set_deferred_clean clean_deferred simp del: matchInner.simps
      split: option.splits rule_set_item.splits)

lemma rule_Match_refines: "refines E r"
proof (induction r rule: rule.induct [where ?P2.0 = "\<lambda>d. \<forall>m. clean m \<longrightarrow> default_Match E d m = (sat_default E d m, m)"
      and ?P3.0 = "\<lambda>rs. \<forall>S \<in> set (setList rs). \<forall>r \<in> set (set_rules S). refines E r" and ?P4.0 = "\<lambda>S. \<forall>r \<in> set (set_rules S). refines E r"])
  case (AbstractDefaultRule its sa sp da dip dp al rsi neg)
  then show ?case by (simp add: default_Match_refines)
next
  case (LogicalRule k mode rules neg)
  then show ?case unfolding refines_def [of E "LogicalRule k mode rules neg"]
    by (cases neg) (auto simp: rule_Match.simps Let_def and_loop_refines or_loop_refines
      set_deferred_clean)
qed (auto simp: refines_def rule_Match.simps Let_def)


subsection \<open>A small environment\<close>

definition sample_env :: rule_env where
  "sample_env =
     \<lparr>AddrFromIP = (\<lambda>ip. case ip of
          [a, b, c, d] \<Rightarrow> V4 (of_nat (((unat a * 256 + unat b) * 256 + unat c) * 256 + unat d))
        | _ \<Rightarrow> NoAddr),
      IsPublicAddr = (\<lambda>a. True), IsIP = (\<lambda>s. addr_IsValid (sa_Addr s)),
      IsIPv6 = (\<lambda>s. addr_Is6 (sa_Addr s)), CanonicalName = (\<lambda>s. s @ ''.''), IsDuplicate = (=),
      IsAndroid = False, WIFIState_SSID = [], WIFIState_BSSID = [], DefaultNetworkInterface = None,
      Interfaces = [], NetworkInterfaces = [], InterfaceMonitor = None, ClashMode = None\<rparr>"

definition sample_context :: inbound_context where
  "sample_context =
     \<lparr>Inbound = ''in'', IPVersion = 4, Network = ''tcp'',
      Source = \<lparr>sa_Addr = V4 0x0A000001, sa_Port = 40000, sa_Fqdn = []\<rparr>,
      Destination = \<lparr>sa_Addr = NoAddr, sa_Port = 443, sa_Fqdn = ''a.example''\<rparr>,
      User = [], Outbound = [], Protocol = [], Domain = [], Client = [], DestinationAddresses = [],
      DNSResponse = None, NamedDNSResponses = (\<lambda>_. None),
      DestinationAddressMatchFromResponse = False, ProcessInfo = None, SourceMACAddress = None,
      SourceHostname = [], QueryType = 1, QueryClientSubnet = NoPrefix, QueryDNSSEC = False,
      IPCIDRMatchSource = False, IPCIDRAcceptEmpty = False, SourceAddressMatch = False,
      SourcePortMatch = False, DestinationAddressMatch = False, DestinationPortMatch = False,
      DeferredIPCIDRMatchGroups = 0, IgnoreDestinationIPCIDRMatch = False\<rparr>"

definition no_items :: default_rule where
  "no_items = AbstractDefaultRule [] [] [] [] [] [] [] None False"

definition domain_item :: "string \<Rightarrow> rule_item" where
  "domain_item host = DomainItem (\<lambda>h. h = host) (''domain='' @ host)"

definition cidr_item :: "32 word \<Rightarrow> nat \<Rightarrow> rule_item" where
  "cidr_item a n = IPCIDRItem (prefix_Contains (IPPrefix (V4 a) n)) False ''ip_cidr=<binary>''"

definition sample_metadata :: RuleSetMetadata where
  "sample_metadata = \<lparr>ContainsProcessRule = False, ContainsWIFIRule = False, ContainsIPCIDRRule = True,
     ContainsDNSQueryTypeRule = False, ContainsNonIPCIDRRule = False\<rparr>"

definition rules_with_sets :: "rule_item list \<Rightarrow> rule list list \<Rightarrow> bool \<Rightarrow> default_rule" where
  "rules_with_sets da sets neg =
     AbstractDefaultRule [] [] [] da [] [] (map PlainItem da @ [TheRuleSetItem])
       (Some (RuleSetItem [''set''] (map (\<lambda>rs. RuleSet ''set'' rs sample_metadata) sets) False False)) neg"

definition headless_cidr :: "32 word \<Rightarrow> nat \<Rightarrow> rule" where
  "headless_cidr a n = DefaultHeadlessRule
     (AbstractDefaultRule [] [] [] [] [cidr_item a n] [] [PlainItem (cidr_item a n)] None False)"

subsection \<open>Properties\<close>

text \<open>
  C1: On metadata in its resting state (nothing deferred, the match cache cleared), matching any
  rule returns exactly what the declarative logic \<open>sat\<close> says, and leaves the metadata unchanged.
  This covers nested logical rules, inverted rules, DNS rules on a stored response, and rule-sets,
  merged or not.  The result is also what the documented logic \<open>doc_sat\<close> says, provided that no
  logical rule stands under an option \<^verbatim>\<open>rule_set_ip_cidr_match_source\<close> or
  \<^verbatim>\<open>rule_set_ip_cidr_accept_empty\<close> that is on, and that a default rule without any item is
  not inverted.
\<close>

theorem match_refines_spec:
  assumes "clean m"
  shows "rule_Match E r m = (sat E r m, m) \<and> (conforms (flags_on m) r \<longrightarrow> sat E r m = doc_sat E r m)"
  using refinesD [OF rule_Match_refines assms] sat_documented(1) by simp

lemma sample_clean: "clean sample_context"
  by (simp add: clean_def sample_context_def)

theorem match_refines_spec_witness:
  "let r = DefaultRule (rules_with_sets [domain_item ''b.example'']
      [[DefaultHeadlessRule (AbstractDefaultRule [] [] [] [domain_item ''a.example''] [] []
          [PlainItem (domain_item ''a.example'')] None False)]] False)
   in rule_Match sample_env r sample_context = (True, sample_context) \<and> doc_sat sample_env r sample_context"
proof -
  let ?r = "DefaultRule (rules_with_sets [domain_item ''b.example'']
      [[DefaultHeadlessRule (AbstractDefaultRule [] [] [] [domain_item ''a.example''] [] []
          [PlainItem (domain_item ''a.example'')] None False)]] False)"
  have "sat sample_env ?r sample_context = True" by code_simp
  moreover have "conforms (flags_on sample_context) ?r = True" by code_simp
  ultimately show ?thesis using match_refines_spec [OF sample_clean, of sample_env ?r] unfolding Let_def by simp
qed

lemma and_loop_flags:
  "fst (and_loop E rules d (m\<lparr>IPCIDRMatchSource := a, IPCIDRAcceptEmpty := b\<rparr>)) =
     fst (and_loop E rules d m)"
  "fst (snd (and_loop E rules d (m\<lparr>IPCIDRMatchSource := a, IPCIDRAcceptEmpty := b\<rparr>))) =
     fst (snd (and_loop E rules d m))"
  by (cases rules; simp add: ResetRuleCache_def)+

lemma or_loop_flags:
  "fst (or_loop E rules x d (m\<lparr>IPCIDRMatchSource := a, IPCIDRAcceptEmpty := b\<rparr>)) =
     fst (or_loop E rules x d m)"
  "fst (snd (or_loop E rules x d (m\<lparr>IPCIDRMatchSource := a, IPCIDRAcceptEmpty := b\<rparr>))) =
     fst (snd (or_loop E rules x d m))"
  by (cases rules; simp add: ResetRuleCache_def)+

text \<open>
  A logical rule gives the same result whatever the two rule-set flags of the metadata are:
  it resets them before each sub-rule.  So \<^verbatim>\<open>rule_set_ip_cidr_match_source\<close> and
  \<^verbatim>\<open>rule_set_ip_cidr_accept_empty\<close> of the outer rule have no effect on the logical rules of a
  rule-set.
\<close>

theorem logical_ignores_rule_set_flags:
  "fst (rule_Match E (LogicalRule k mode rules neg)
      (m\<lparr>IPCIDRMatchSource := a, IPCIDRAcceptEmpty := b\<rparr>)) =
   fst (rule_Match E (LogicalRule k mode rules neg) m)"
proof -
  let ?f = "\<lambda>m. if mode = ''and'' then and_loop E rules 0 m else or_loop E rules False 0 m"
  have "fst (rule_Match E (LogicalRule k mode rules neg) m) =
      (let b = fst (?f m); d = fst (snd (?f m)) in if neg then (if b then d \<noteq> 0 else True) else b)" for m
    by (cases "?f m") (simp add: rule_Match.simps Let_def split: prod.splits)
  then show ?thesis by (simp add: and_loop_flags or_loop_flags)
qed

end
