(* ===== verification/RulePreMatch.thy ===== *)
theory RulePreMatch
  imports RuleSpec
begin

unbundle bit_operations_syntax

text \<open>
  The two phases of legacy DNS rule matching.  \<^verbatim>\<open>LegacyPreMatch\<close> runs before there is a
  response: it ignores destination addresses and records in
  \<^verbatim>\<open>DeferredIPCIDRMatchGroups\<close> that it did.  \<^verbatim>\<open>MatchAddressLimit\<close> runs on the
  response, and the router asks it only when \<^verbatim>\<open>WithAddressLimit\<close> holds.

  The result of the first phase is a verdict: no (it returns false), yes (it returns true with
  nothing deferred) or undecided.  \<open>presound_all\<close> shows by induction over rules and rule-sets that
  a no and a yes are right for every response, on the rules \<open>legacy_ok\<close> describes; the theorems
  at the end state it for the methods the router calls, and exhibit rules outside
  \<open>legacy_ok\<close> on which a no is wrong, and one without address limit on which a yes is.
\<close>

subsection \<open>Rules the pre-match decides correctly\<close>

fun response_free :: "rule_item \<Rightarrow> bool" where
  "response_free (IPCIDRItem ipSet isSource d) = isSource"
| "response_free (IPIsPrivateItem isSource) = isSource"
| "response_free IPAcceptAnyItem = False"
| "response_free (DNSResponseRCodeItem rcode) = False"
| "response_free (DNSResponseRecordItem records s) = False"
| "response_free (PreferredByItem tags outbounds) = False"
| "response_free _ = True"

fun is_cidr_item :: "rule_item \<Rightarrow> bool" where
  "is_cidr_item (IPCIDRItem ipSet isSource d) = True"
| "is_cidr_item _ = False"

definition fields_free :: "bool \<Rightarrow> default_rule \<Rightarrow> bool" where
  "fields_free src r \<longleftrightarrow>
     list_all response_free (items r @ sourceAddressItems r @ sourcePortItems r @
       destinationAddressItems r @ destinationPortItems r) \<and>
     (src \<longrightarrow> list_all is_cidr_item (destinationIPCIDRItems r))"

definition defers :: "bool \<Rightarrow> default_rule \<Rightarrow> bool" where
  "defers src r \<longleftrightarrow> \<not> src \<and> destinationIPCIDRItems r \<noteq> []"

text \<open>No group mixes domain fields with destination addresses of a response.\<close>

definition separated :: "(bool \<times> default_rule) list \<Rightarrow> bool" where
  "separated parts \<longleftrightarrow>
     list_ex (\<lambda>(src, r). defers src r) parts \<longrightarrow>
     list_all (\<lambda>(src, r). destinationAddressItems r = []) parts"

function (sequential)
  may_defer :: "bool \<Rightarrow> rule \<Rightarrow> bool"
and may_defer_default :: "bool \<Rightarrow> default_rule \<Rightarrow> bool"
and may_defer_sets :: "bool \<Rightarrow> rule_set list \<Rightarrow> bool"
and may_defer_rules :: "bool \<Rightarrow> rule list \<Rightarrow> bool"
where
  "may_defer src (DefaultRule r) = may_defer_default src r"
| "may_defer src (DefaultHeadlessRule r) = may_defer_default src r"
| "may_defer src (DefaultDNSRule r matchResponse tg) = may_defer_default src r"
| "may_defer src (LogicalRule k mode rules neg) = may_defer_rules False rules"
| "may_defer_default src (AbstractDefaultRule its sa sp da dip dp al rsi neg) \<longleftrightarrow>
     defers src (AbstractDefaultRule its sa sp da dip dp al rsi neg) \<or>
     (case rsi of None \<Rightarrow> False | Some (RuleSetItem tags sets rsrc ae) \<Rightarrow> may_defer_sets rsrc sets)"
| "may_defer_sets rsrc [] = False"
| "may_defer_sets rsrc (RuleSet tg rules md # sets) \<longleftrightarrow>
     may_defer_rules rsrc rules \<or> may_defer_sets rsrc sets"
| "may_defer_rules src [] = False"
| "may_defer_rules src (r # rules) \<longleftrightarrow> may_defer src r \<or> may_defer_rules src rules"
  by pat_completeness auto

termination by size_change

function (sequential)
  legacy_ok :: "bool \<Rightarrow> rule \<Rightarrow> bool"
and legacy_ok_default :: "bool \<Rightarrow> default_rule \<Rightarrow> bool"
and legacy_ok_sets :: "bool \<Rightarrow> default_rule \<Rightarrow> bool \<Rightarrow> rule_set list \<Rightarrow> bool"
and legacy_ok_rules :: "bool \<Rightarrow> rule list \<Rightarrow> bool"
where
  "legacy_ok src (DefaultRule r) = legacy_ok_default src r"
| "legacy_ok src (DefaultHeadlessRule r) = legacy_ok_default src r"
| "legacy_ok src (DefaultDNSRule r matchResponse tg) \<longleftrightarrow> \<not> matchResponse \<and> legacy_ok_default src r"
| "legacy_ok src (LogicalRule k mode rules neg) = legacy_ok_rules False rules"
| "legacy_ok_default src (AbstractDefaultRule its sa sp da dip dp al rsi neg) \<longleftrightarrow>
     (let r = AbstractDefaultRule its sa sp da dip dp al rsi neg in
      fields_free src r \<and> separated [(src, r)] \<and>
      (case rsi of None \<Rightarrow> True
       | Some (RuleSetItem tags sets rsrc ae) \<Rightarrow> legacy_ok_sets src r rsrc sets))"
| "legacy_ok_sets src r rsrc [] = True"
| "legacy_ok_sets src r rsrc (RuleSet tg rules md # sets) \<longleftrightarrow>
     (case mergeableRuleIn rules of
        Some b \<Rightarrow> fields_free rsrc b \<and> separated [(src, r), (rsrc, b)]
      | None \<Rightarrow> legacy_ok_rules rsrc rules \<and>
          (may_defer_rules rsrc rules \<longrightarrow> destinationAddressItems r = [])) \<and>
     legacy_ok_sets src r rsrc sets"
| "legacy_ok_rules src [] = True"
| "legacy_ok_rules src (r # rules) \<longleftrightarrow> legacy_ok src r \<and> legacy_ok_rules src rules"
  by pat_completeness auto

termination by size_change

subsection \<open>The two phases\<close>

definition pre :: "inbound_context \<Rightarrow> bool" where
  "pre m \<longleftrightarrow> IgnoreDestinationIPCIDRMatch m \<and> DeferredIPCIDRMatchGroups m = 0 \<and>
     \<not> SourceAddressMatch m \<and> \<not> SourcePortMatch m \<and> \<not> DestinationAddressMatch m \<and>
     \<not> DestinationPortMatch m"

definition post :: "dns_msg \<Rightarrow> inbound_context \<Rightarrow> inbound_context" where
  "post response m = m\<lparr>IgnoreDestinationIPCIDRMatch := False, DeferredIPCIDRMatchGroups := 0,
     DNSResponse := Some response, DestinationAddressMatchFromResponse := True\<rparr>"

abbreviation deferring :: "8 word \<Rightarrow> inbound_context \<Rightarrow> inbound_context" where
  "deferring d m \<equiv> m\<lparr>DeferredIPCIDRMatchGroups := d\<rparr>"

lemma response_free_match:
  "response_free it \<Longrightarrow> item_match E it (post resp m) = item_match E it m"
  by (cases it)
    (auto simp: post_def item_match_defs Let_def)

lemma response_free_deferring:
  "response_free it \<Longrightarrow> item_match E it (deferring d m) = item_match E it m"
  by (cases it)
    (auto simp: post_def item_match_defs Let_def)

lemma cidr_source_match:
  "is_cidr_item it \<Longrightarrow> IPCIDRMatchSource m \<Longrightarrow> item_match E it (post resp m) = item_match E it m"
  by (cases it) (auto simp: post_def IPCIDRItem_Match_def)

lemma pre_update [simp]:
  "pre (m\<lparr>IPCIDRMatchSource := a\<rparr>) = pre m" "pre (m\<lparr>IPCIDRAcceptEmpty := b\<rparr>) = pre m"
  by (simp_all add: pre_def)

lemma post_update [simp]:
  "post resp (m\<lparr>IPCIDRMatchSource := a\<rparr>) = (post resp m)\<lparr>IPCIDRMatchSource := a\<rparr>"
  "post resp (m\<lparr>IPCIDRAcceptEmpty := a\<rparr>) = (post resp m)\<lparr>IPCIDRAcceptEmpty := a\<rparr>"
  "post resp (deferring d m) = post resp m"
  "IPCIDRMatchSource (post resp m) = IPCIDRMatchSource m"
  by (simp_all add: post_def)

lemma clean_post: "pre m \<Longrightarrow> clean (post resp m)"
  by (simp add: pre_def clean_def post_def)

lemma matchAny_post:
  "list_all response_free its \<Longrightarrow> matchAnyItem E its (post resp m) = matchAnyItem E its m"
  by (induction its) (auto simp: matchAnyItem_def response_free_match)

lemma matchAny_source_post:
  "list_all is_cidr_item its \<Longrightarrow> IPCIDRMatchSource m \<Longrightarrow>
   matchAnyItem E its (post resp m) = matchAnyItem E its m"
  by (induction its) (auto simp: matchAnyItem_def cidr_source_match)

lemma items_ok_post: "fields_free src r \<Longrightarrow> items_ok E r (post resp m) = items_ok E r m"
  unfolding items_ok_def fields_free_def
  by (induction "items r") (auto simp: list_all_iff response_free_match)

lemma items_ok_deferring: "fields_free src r \<Longrightarrow> items_ok E r (deferring d m) = items_ok E r m"
  unfolding items_ok_def fields_free_def
  by (auto simp: list_all_iff response_free_deferring)

lemma groups_pre:
  "pre m \<Longrightarrow> groups_of E r m =
    \<lparr>required = flags (sourceAddressItems r \<noteq> [] \<or> IPCIDRMatchSource m \<and> destinationIPCIDRItems r \<noteq> [])
       (sourcePortItems r \<noteq> []) (destinationAddressItems r \<noteq> []) (destinationPortItems r \<noteq> []),
     satisfied = flags (matchAnyItem E (sourceAddressItems r) m \<or>
         IPCIDRMatchSource m \<and> matchAnyItem E (destinationIPCIDRItems r) m)
       (matchAnyItem E (sourcePortItems r) m) (matchAnyItem E (destinationAddressItems r) m)
       (matchAnyItem E (destinationPortItems r) m)\<rparr>"
  by (simp add: groups_of_def pre_def Let_def)

lemma groups_post:
  assumes "fields_free (IPCIDRMatchSource m) r"
  shows "groups_of E r (post resp m) =
    \<lparr>required = flags (sourceAddressItems r \<noteq> [] \<or> IPCIDRMatchSource m \<and> destinationIPCIDRItems r \<noteq> [])
       (sourcePortItems r \<noteq> []) (destinationAddressItems r \<noteq> [] \<or> defers (IPCIDRMatchSource m) r)
       (destinationPortItems r \<noteq> []),
     satisfied = flags (matchAnyItem E (sourceAddressItems r) m \<or>
         IPCIDRMatchSource m \<and> matchAnyItem E (destinationIPCIDRItems r) m)
       (matchAnyItem E (sourcePortItems r) m)
       (matchAnyItem E (destinationAddressItems r) m \<or>
         defers (IPCIDRMatchSource m) r \<and> matchAnyItem E (destinationIPCIDRItems r) (post resp m))
       (matchAnyItem E (destinationPortItems r) m)\<rparr>"
proof -
  have "\<not> IgnoreDestinationIPCIDRMatch (post resp m)" by (simp add: post_def)
  moreover have "\<not> IPCIDRMatchSource m \<and> matchAnyItem E (destinationIPCIDRItems r) x \<longleftrightarrow>
      defers (IPCIDRMatchSource m) r \<and> matchAnyItem E (destinationIPCIDRItems r) x" for x
    by (auto simp: defers_def)
  moreover have "IPCIDRMatchSource m \<and> matchAnyItem E (destinationIPCIDRItems r) (post resp m) \<longleftrightarrow>
      IPCIDRMatchSource m \<and> matchAnyItem E (destinationIPCIDRItems r) m"
    using assms by (auto simp: fields_free_def matchAny_source_post)
  ultimately show ?thesis using assms
    by (simp add: groups_of_def Let_def fields_free_def matchAny_post defers_def [symmetric])
qed

lemma done_post_single:
  assumes "fields_free (IPCIDRMatchSource m) r" "separated [(IPCIDRMatchSource m, r)]" "pre m"
  shows "groups_ok E [(r, post resp m)] \<Longrightarrow> group_done (groups_of E r m)"
    and "\<not> defers (IPCIDRMatchSource m) r \<Longrightarrow>
      group_done (groups_of E r m) \<longleftrightarrow> groups_ok E [(r, post resp m)]"
  using assms done_single [OF clean_post [OF assms(3)], of E r resp]
  by (auto simp: groups_pre groups_post group_done_def flags_diff flags_eq_0 separated_def)

lemma done_post_merged:
  assumes "fields_free (IPCIDRMatchSource m) r" "fields_free (IPCIDRMatchSource m') b" "pre m" "pre m'"
    "separated [(IPCIDRMatchSource m, r), (IPCIDRMatchSource m', b)]"
  shows "groups_ok E [(r, post resp m), (b, post resp m')] \<Longrightarrow>
      group_done (mergeWith (groups_of E r m) (groups_of E b m'))"
    and "\<not> defers (IPCIDRMatchSource m) r \<Longrightarrow> \<not> defers (IPCIDRMatchSource m') b \<Longrightarrow>
      group_done (mergeWith (groups_of E r m) (groups_of E b m')) \<longleftrightarrow>
      groups_ok E [(r, post resp m), (b, post resp m')]"
  using assms done_merged [OF clean_post [OF assms(3)] clean_post [OF assms(4)], of E r resp b resp]
  by (auto simp: groups_pre groups_post group_done_def mergeWith_def flags_or flags_diff flags_eq_0
    separated_def)

abbreviation DA :: "8 word" where "DA \<equiv> ruleMatchDestinationAddress"

lemma DA_simps [simp]: "DA \<noteq> 0" "0 OR DA = DA" "DA OR DA = DA"
  by (simp_all add: flag_defs)

lemma evaluateGroups_pre:
  assumes "pre m" "separated [(IPCIDRMatchSource m, r)]"
  shows "evaluateGroups E r m =
    (groups_of E r m, deferring (if defers (IPCIDRMatchSource m) r then DA else 0) m)"
proof -
  have "snd (evaluateGroups E r m) = deferring (if defers (IPCIDRMatchSource m) r then DA else 0) m"
    using assms by (auto simp: evaluateGroups_def Let_def pre_def defers_def separated_def)
  then show ?thesis by (metis evaluateGroups_fst prod.collapse)
qed

lemma DA_not_satisfied:
  "pre m \<Longrightarrow> destinationAddressItems r = [] \<Longrightarrow> DA AND NOT (satisfied (groups_of E r m)) = DA"
  by (simp add: groups_pre flag_flags(3) flags_diff)

lemma DA_not_satisfied_merged:
  "pre m \<Longrightarrow> pre m' \<Longrightarrow> destinationAddressItems r = [] \<Longrightarrow> destinationAddressItems b = [] \<Longrightarrow>
   DA AND NOT (satisfied (mergeWith (groups_of E r m) (groups_of E b m'))) = DA"
  by (simp add: groups_pre mergeWith_def flag_flags(3) flags_or flags_diff)


subsection \<open>Verdicts\<close>

definition verdict :: "bool \<Rightarrow> 8 word \<Rightarrow> bool \<Rightarrow> bool \<Rightarrow> bool" where
  "verdict b d may P \<longleftrightarrow> (d = 0 \<or> d = DA \<and> may) \<and> (\<not> b \<longrightarrow> \<not> P) \<and> (b \<and> d = 0 \<longrightarrow> P)"

definition presound :: "rule_env \<Rightarrow> dns_msg \<Rightarrow> bool \<Rightarrow> rule \<Rightarrow> bool" where
  "presound E resp src r \<longleftrightarrow> (\<forall>m. pre m \<and> IPCIDRMatchSource m = src \<longrightarrow>
     (\<exists>b d. rule_Match E r m = (b, deferring d m) \<and>
        verdict b d (may_defer src r) (sat E r (post resp m))))"

lemma presoundE:
  assumes "presound E resp src r" "pre m" "IPCIDRMatchSource m = src"
  obtains b d where "rule_Match E r m = (b, deferring d m)"
    "verdict b d (may_defer src r) (sat E r (post resp m))"
  using assms unfolding presound_def by blast

lemma pre_reset:
  "pre m \<Longrightarrow> ResetRuleMatchCache (deferring d m) = m"
  "pre m \<Longrightarrow> \<not> IPCIDRMatchSource m \<Longrightarrow> \<not> IPCIDRAcceptEmpty m \<Longrightarrow> ResetRuleCache (deferring d m) = m"
  "pre m \<Longrightarrow> ResetRuleCache (deferring d m) = no_flags m"
  "pre m \<Longrightarrow> prepareNestedMatch src ae (deferring d m) =
     m\<lparr>IPCIDRMatchSource := src, IPCIDRAcceptEmpty := ae\<rparr>"
  by (simp_all add: pre_def ResetRuleMatchCache_def ResetRuleCache_def prepareNestedMatch_def)

lemma pre_deferring_0: "pre m \<Longrightarrow> deferring 0 m = m"
  by (cases m) (simp add: pre_def)

lemma pre_no_deferred: "pre m \<Longrightarrow> DeferredIPCIDRMatchGroups m = 0"
  by (simp add: pre_def)

lemma restore_deferring [simp]: "restore s (deferring d m) = restore s m"
  by (simp add: restore_def)

lemma finish_snapshot:
  "finish_loop (snapshotRuleMatch (deferring e m)) b d (deferring x m) =
   (b, deferring (if b then e OR d else e) m)"
  by (simp add: finish_loop_def restore_def snapshotRuleMatch_def set_deferred_def)

lemma finish_snapshot_pre:
  "pre m \<Longrightarrow> finish_loop (snapshotRuleMatch m) b d (deferring x m) = (b, deferring (if b then d else 0) m)"
  using finish_snapshot [of 0 m b d x] by (simp add: pre_deferring_0)

definition loop_verdict :: "bool \<Rightarrow> bool \<Rightarrow> 8 word \<Rightarrow> bool \<Rightarrow> bool \<Rightarrow> bool" where
  "loop_verdict matched b d may P \<longleftrightarrow>
     (d = 0 \<or> d = DA \<and> (matched \<or> may)) \<and> (\<not> b \<longrightarrow> \<not> matched \<and> \<not> P) \<and> (b \<and> d = 0 \<longrightarrow> P)"

lemma loop_verdict_False [simp]: "loop_verdict False b d may P = verdict b d may P"
  by (auto simp: loop_verdict_def verdict_def)

lemma presound_Cons:
  assumes "\<forall>r' \<in> set (r # rules). presound E resp src r'" "pre m" "IPCIDRMatchSource m = src"
  obtains b d where "rule_Match E r m = (b, deferring d m)"
    "verdict b d (may_defer src r) (sat E r (post resp m))"
    "\<forall>r' \<in> set rules. presound E resp src r'"
  using presoundE [of E resp src r m] assms by (metis list.set_intros)

lemma loop_verdict_step:
  assumes "verdict b d may1 P1" and "\<not> (b \<and> d = 0)"
    and "loop_verdict (matched \<or> b) b' d' may2 P2"
  shows "loop_verdict matched b' d' (may1 \<or> may2) (P1 \<or> P2)"
  using assms by (auto simp: loop_verdict_def verdict_def)

lemma loop_verdict_now:
  "verdict True 0 may1 P1 \<Longrightarrow> loop_verdict matched True 0 (may1 \<or> may2) (P1 \<or> P2)"
  by (auto simp: loop_verdict_def verdict_def)

lemma loop_accumulate:
  "verdict b d may P \<Longrightarrow> \<not> (b \<and> d = 0) \<Longrightarrow> dg = (if matched then DA else 0) \<Longrightarrow>
   (if b then dg OR d else dg) = (if matched \<or> b then DA else 0)"
  by (auto simp: verdict_def)

lemma any_loop_pre:
  assumes "pre m" "\<forall>r \<in> set rules. presound E resp (IPCIDRMatchSource m) r"
    "dg = (if matched then DA else 0)"
  shows "\<exists>b d. any_loop E rules (snapshotRuleMatch m) matched dg (deferring x m) = (b, deferring d m) \<and>
    loop_verdict matched b d (may_defer_rules (IPCIDRMatchSource m) rules) (sat_any E rules (post resp m))"
  using assms(2,3)
proof (induction rules arbitrary: matched dg x)
  case Nil
  have "any_loop E [] (snapshotRuleMatch m) matched dg (deferring x m) =
      (matched, deferring (if matched then dg else 0) m)"
    using assms(1) by (simp add: finish_snapshot_pre)
  moreover have "loop_verdict matched matched (if matched then dg else 0)
      (may_defer_rules (IPCIDRMatchSource m) []) (sat_any E [] (post resp m))"
    using Nil by (simp add: loop_verdict_def)
  ultimately show ?case by blast
next
  case (Cons r rules)
  obtain b d where r: "rule_Match E r m = (b, deferring d m)"
    "verdict b d (may_defer (IPCIDRMatchSource m) r) (sat E r (post resp m))"
    and rest: "\<forall>r' \<in> set rules. presound E resp (IPCIDRMatchSource m) r'"
    using presound_Cons [OF Cons.prems(1) assms(1) refl] by blast
  show ?case
  proof (cases "b \<and> d = 0")
    case True
    then have "any_loop E (r # rules) (snapshotRuleMatch m) matched dg (deferring x m) = (True, deferring 0 m)"
      using r assms(1) by (simp add: pre_reset pre_deferring_0 pre_no_deferred)
    moreover have "loop_verdict matched True 0 (may_defer_rules (IPCIDRMatchSource m) (r # rules))
        (sat_any E (r # rules) (post resp m))"
      using True r by (simp add: loop_verdict_now)
    ultimately show ?thesis by blast
  next
    case False
    from Cons.IH [OF rest loop_accumulate [OF r(2) False Cons.prems(2)], of d] obtain b' d' where
      *: "any_loop E rules (snapshotRuleMatch m) (matched \<or> b) (if b then dg OR d else dg) (deferring d m)
          = (b', deferring d' m)"
      "loop_verdict (matched \<or> b) b' d' (may_defer_rules (IPCIDRMatchSource m) rules)
        (sat_any E rules (post resp m))"
      by blast
    then have "any_loop E (r # rules) (snapshotRuleMatch m) matched dg (deferring x m) = (b', deferring d' m)"
      using r assms(1) False by (cases b) (simp_all add: pre_reset)
    moreover have "loop_verdict matched b' d' (may_defer_rules (IPCIDRMatchSource m) (r # rules))
        (sat_any E (r # rules) (post resp m))"
      using loop_verdict_step [OF r(2) False *(2)] by simp
    ultimately show ?thesis by blast
  qed
qed

lemma or_loop_pre:
  assumes n: "pre n" "\<not> IPCIDRMatchSource n"
    and "\<forall>r \<in> set rules. presound E resp False r" "dg = (if matched then DA else 0)"
    and "ResetRuleCache y = n" "\<forall>s. restore s y = restore s n"
  shows "\<exists>b d y'. or_loop E rules matched dg y = (b, d, y') \<and> (\<forall>s. restore s y' = restore s n) \<and>
    loop_verdict matched b d (may_defer_rules False rules) (sat_any E rules (post resp n))"
  using assms(3-)
proof (induction rules arbitrary: matched dg y)
  case Nil
  then show ?case by (simp add: loop_verdict_def)
next
  case (Cons r rules)
  obtain b d where r: "rule_Match E r n = (b, deferring d n)"
    "verdict b d (may_defer False r) (sat E r (post resp n))"
    and rest: "\<forall>r' \<in> set rules. presound E resp False r'"
    using presound_Cons [OF Cons.prems(1) n(1)] n(2) by blast
  show ?case
  proof (cases "b \<and> d = 0")
    case True
    then show ?thesis
      using r Cons.prems(3) loop_verdict_now [of "may_defer False r" "sat E r (post resp n)"] by auto
  next
    case False
    have reset: "ResetRuleCache (deferring d n) = n"
      using n Cons.prems(3) by (auto simp: ResetRuleCache_def ResetRuleMatchCache_def)
    from Cons.IH [OF rest loop_accumulate [OF r(2) False Cons.prems(2)] reset]
    obtain b' d' y' where
      *: "or_loop E rules (matched \<or> b) (if b then dg OR d else dg) (deferring d n) = (b', d', y')"
      "\<forall>s. restore s y' = restore s n"
      "loop_verdict (matched \<or> b) b' d' (may_defer_rules False rules) (sat_any E rules (post resp n))"
      by auto
    have "or_loop E (r # rules) matched dg y = (b', d', y')"
      using * r False Cons.prems(3) by (cases b) auto
    then show ?thesis using *(2) loop_verdict_step [OF r(2) False *(3)] by auto
  qed
qed

lemma and_loop_pre:
  assumes n: "pre n" "\<not> IPCIDRMatchSource n"
    and "\<forall>r \<in> set rules. presound E resp False r" "dg = 0 \<or> dg = DA \<and> may"
    and "ResetRuleCache y = n" "\<forall>s. restore s y = restore s n"
  shows "\<exists>b d y'. and_loop E rules dg y = (b, d, y') \<and> (\<forall>s. restore s y' = restore s n) \<and>
    (d = 0 \<or> d = DA \<and> (may \<or> may_defer_rules False rules)) \<and>
    (\<not> b \<longrightarrow> \<not> sat_all E rules (post resp n)) \<and>
    (b \<and> d = 0 \<longrightarrow> dg = 0 \<and> sat_all E rules (post resp n))"
  using assms(3-)
proof (induction rules arbitrary: dg may y)
  case Nil
  then show ?case by auto
next
  case (Cons r rules)
  obtain b d where r: "rule_Match E r n = (b, deferring d n)"
    "verdict b d (may_defer False r) (sat E r (post resp n))"
    and rest: "\<forall>r' \<in> set rules. presound E resp False r'"
    using presound_Cons [OF Cons.prems(1) n(1)] n(2) by blast
  show ?case
  proof (cases b)
    case False
    then show ?thesis using r Cons.prems(3) by (auto simp: verdict_def)
  next
    case True
    have reset: "ResetRuleCache (deferring d n) = n"
      using n Cons.prems(3) by (auto simp: ResetRuleCache_def ResetRuleMatchCache_def)
    have acc: "dg OR d = 0 \<or> dg OR d = DA \<and> (may \<or> may_defer False r)"
      using Cons.prems(2) r(2) by (auto simp: verdict_def)
    from Cons.IH [OF rest acc reset]
    obtain b' d' y' where
      *: "and_loop E rules (dg OR d) (deferring d n) = (b', d', y')"
      "\<forall>s. restore s y' = restore s n"
      "d' = 0 \<or> d' = DA \<and> ((may \<or> may_defer False r) \<or> may_defer_rules False rules)"
      "\<not> b' \<longrightarrow> \<not> sat_all E rules (post resp n)"
      "b' \<and> d' = 0 \<longrightarrow> dg OR d = 0 \<and> sat_all E rules (post resp n)"
      by auto
    then show ?thesis using r Cons.prems(2,3) True by (auto simp: verdict_def)
  qed
qed

lemma matchAnyHeadlessRule_pre:
  assumes "pre m" "\<forall>r \<in> set rules. presound E resp (IPCIDRMatchSource m) r"
  obtains b d where "matchAnyHeadlessRule E rules m = (b, deferring d m)"
    "verdict b d (may_defer_rules (IPCIDRMatchSource m) rules) (sat_any E rules (post resp m))"
proof -
  have "(0 :: 8 word) = (if False then DA else 0)" by simp
  from any_loop_pre [OF assms this, of 0] obtain b d where
    "any_loop E rules (snapshotRuleMatch m) False 0 m = (b, deferring d m)"
    "verdict b d (may_defer_rules (IPCIDRMatchSource m) rules) (sat_any E rules (post resp m))"
    unfolding pre_deferring_0 [OF assms(1)] loop_verdict_False by blast
  then show ?thesis using that by (simp add: matchAnyHeadlessRule.simps)
qed

definition outer_base :: "default_rule \<Rightarrow> inbound_context \<Rightarrow> 8 word" where
  "outer_base r m = (if defers (IPCIDRMatchSource m) r then DA else 0)"

definition set_sat :: "rule_env \<Rightarrow> rule list \<Rightarrow> default_rule \<Rightarrow> inbound_context \<Rightarrow> inbound_context \<Rightarrow> bool" where
  "set_sat E rules r m m' =
     (case mergeableRuleIn rules of
        Some b \<Rightarrow> items_ok E b m' \<and> groups_ok E [(r, m), (b, m')]
      | None \<Rightarrow> groups_ok E [(r, m)] \<and> sat_any E rules m')"

lemma evaluateForMerge_pre:
  assumes "pre n" "fields_free (IPCIDRMatchSource n) b" "separated [(IPCIDRMatchSource n, b)]"
  shows "evaluateForMerge E b n =
    ((if items_ok E b n then (groups_of E b n, True) else (\<lparr>required = 0, satisfied = 0\<rparr>, False)),
     deferring (outer_base b n) n)"
  using assms items_ok_deferring [OF assms(2), of E _ n]
  by (simp add: evaluateForMerge_def evaluateGroups_pre outer_base_def items_ok_def)

lemma restore_outer:
  "restore (snapshotRuleMatch (deferring e m)) (deferring d (m\<lparr>IPCIDRMatchSource := a, IPCIDRAcceptEmpty := b\<rparr>))
    = deferring e m"
  by (simp add: restore_def snapshotRuleMatch_def)

text \<open>
  One turn of the loop over rule-sets: it ends with a match, or goes on with the verdict on this
  rule-set accumulated.
\<close>

definition set_step ::
  "rule_env \<Rightarrow> dns_msg \<Rightarrow> default_rule \<Rightarrow> inbound_context \<Rightarrow> bool \<Rightarrow> bool \<Rightarrow> rule list \<Rightarrow> bool \<Rightarrow> 8 word \<Rightarrow> 8 word \<Rightarrow> bool"
where
  "set_step E resp r m rsrc ae rules b1 d1 e \<longleftrightarrow>
     (let n = m\<lparr>IPCIDRMatchSource := rsrc, IPCIDRAcceptEmpty := ae\<rparr>;
          P = set_sat E rules r (post resp m) (post resp n);
          G = groups_of E r m; s = snapshotRuleMatch (deferring (outer_base r m) m) in
      (d1 = 0 \<or> d1 = DA \<and> may_defer_rules rsrc rules) \<and> (\<not> b1 \<longrightarrow> \<not> P) \<and>
      (b1 \<and> d1 = 0 \<and> \<not> defers (IPCIDRMatchSource m) r \<longrightarrow> P) \<and>
      (\<forall>tg md sets matched dg y. prepareNestedMatch rsrc ae y = n \<longrightarrow>
         outer_loop E (RuleSet tg rules md # sets) rsrc ae G s matched dg y =
         (if b1 \<and> d1 = 0 then (True, deferring (outer_base r m) m)
          else outer_loop E sets rsrc ae G s (matched \<or> b1) (if b1 then dg OR d1 else dg)
                 (deferring e n))))"

lemma may_defer_mergeable:
  "mergeableRuleIn rules = Some b \<Longrightarrow> may_defer_rules rsrc rules = defers rsrc b"
  by (cases b) (auto simp: mergeableRuleIn_def split: list.splits rule.splits if_splits)

lemma set_step_merge:
  fixes m :: inbound_context and rsrc ae :: bool
  defines "n \<equiv> m\<lparr>IPCIDRMatchSource := rsrc, IPCIDRAcceptEmpty := ae\<rparr>"
  assumes m: "pre m" and r: "fields_free (IPCIDRMatchSource m) r"
    and b: "mergeableRuleIn rules = Some b" "fields_free rsrc b"
      "separated [(IPCIDRMatchSource m, r), (rsrc, b)]"
  shows "set_step E resp r m rsrc ae rules
    (items_ok E b n \<and> group_done (mergeWith (groups_of E r m) (groups_of E b n))) (outer_base b n) (outer_base b n)"
proof -
  have n: "pre n" "IPCIDRMatchSource n = rsrc" using m by (simp_all add: n_def)
  have sep: "separated [(IPCIDRMatchSource n, b)]" using b(3) n by (auto simp: separated_def)
  let ?mg = "mergeWith (groups_of E r m) (groups_of E b n)"
  have keep: "outer_base b n AND NOT (satisfied ?mg) = outer_base b n"
    "outer_base r m AND NOT (satisfied ?mg) = outer_base r m"
    using b(3) n m DA_not_satisfied_merged [OF m n(1)] by (auto simp: outer_base_def separated_def)
  have sat: "items_ok E b n \<and> groups_ok E [(r, post resp m), (b, post resp n)] \<longleftrightarrow>
      set_sat E rules r (post resp m) (post resp n)"
    using b items_ok_post [OF b(2)] by (simp add: set_sat_def)
  let ?b1 = "items_ok E b n \<and> group_done ?mg" and ?s = "snapshotRuleMatch (deferring (outer_base r m) m)"
  have ev: "evaluateForMerge E b n =
    ((if items_ok E b n then (groups_of E b n, True) else (\<lparr>required = 0, satisfied = 0\<rparr>, False)),
     deferring (outer_base b n) n)"
    using n b(2) sep by (simp add: evaluateForMerge_pre)
  have ret: "set_deferred (\<lambda>d. d AND NOT (satisfied ?mg)) (restore ?s (deferring (outer_base b n) n)) =
      deferring (outer_base r m) m"
    unfolding n_def restore_outer set_deferred_def using keep(2) by (simp add: n_def)
  have loop: "prepareNestedMatch rsrc ae y = n \<Longrightarrow>
      outer_loop E (RuleSet tg rules md # sets) rsrc ae (groups_of E r m) ?s matched dg y =
      (if ?b1 \<and> outer_base b n = 0 then (True, deferring (outer_base r m) m)
       else outer_loop E sets rsrc ae (groups_of E r m) ?s (matched \<or> ?b1)
         (if ?b1 then dg OR outer_base b n else dg) (deferring (outer_base b n) n))"
    for tg md sets matched dg y
    using keep(1) ret by (simp add: b(1) ev Let_def)
  have d: "outer_base b n = 0 \<or> outer_base b n = DA \<and> may_defer_rules rsrc rules"
    "outer_base b n = 0 \<Longrightarrow> \<not> defers rsrc b"
    using n by (auto simp: outer_base_def may_defer_mergeable [OF b(1)])
  have "fields_free (IPCIDRMatchSource n) b"
    "separated [(IPCIDRMatchSource m, r), (IPCIDRMatchSource n, b)]" using b n by simp_all
  note dp = done_post_merged [OF r this(1) m n(1) this(2), of E resp]
  have "\<not> ?b1 \<longrightarrow> \<not> set_sat E rules r (post resp m) (post resp n)"
    using dp(1) sat by blast
  moreover have "?b1 \<and> outer_base b n = 0 \<and> \<not> defers (IPCIDRMatchSource m) r \<longrightarrow>
      set_sat E rules r (post resp m) (post resp n)"
    using dp(2) d(2) sat n(2) by blast
  ultimately show ?thesis
    unfolding set_step_def Let_def n_def [symmetric] using d(1) loop by blast
qed


lemma set_step_any:
  fixes m :: inbound_context and rsrc ae :: bool
  defines "n \<equiv> m\<lparr>IPCIDRMatchSource := rsrc, IPCIDRAcceptEmpty := ae\<rparr>"
  assumes m: "pre m" and r: "fields_free (IPCIDRMatchSource m) r" "separated [(IPCIDRMatchSource m, r)]"
    and b: "mergeableRuleIn rules = None" "\<forall>r \<in> set rules. presound E resp rsrc r"
  shows "\<exists>b1 d1 e. set_step E resp r m rsrc ae rules b1 d1 e"
proof -
  have n: "pre n" "IPCIDRMatchSource n = rsrc" using m by (simp_all add: n_def)
  note dp = done_post_single [OF r m, of E resp]
  have sat: "set_sat E rules r (post resp m) (post resp n) \<longleftrightarrow>
      groups_ok E [(r, post resp m)] \<and> sat_any E rules (post resp n)"
    using b by (simp add: set_sat_def)
  obtain b1 d1 where any: "matchAnyHeadlessRule E rules n = (b1, deferring d1 n)"
    "verdict b1 d1 (may_defer_rules rsrc rules) (sat_any E rules (post resp n))"
    using matchAnyHeadlessRule_pre [OF n(1), of rules E resp] b(2) n(2) by auto
  let ?s = "snapshotRuleMatch (deferring (outer_base r m) m)" and ?G = "groups_of E r m"
  have ret: "restore ?s (deferring d1 n) = deferring (outer_base r m) m"
    unfolding n_def restore_outer by (rule refl)
  show ?thesis
  proof (cases "group_done ?G")
    case True
    have "prepareNestedMatch rsrc ae y = n \<Longrightarrow>
      outer_loop E (RuleSet tg rules md # sets) rsrc ae ?G ?s matched dg y =
      (if b1 \<and> d1 = 0 then (True, deferring (outer_base r m) m)
       else outer_loop E sets rsrc ae ?G ?s (matched \<or> b1) (if b1 then dg OR d1 else dg) (deferring d1 n))"
      for tg md sets matched dg y using ret by (simp add: b(1) any(1) True)
    moreover have "\<not> b1 \<longrightarrow> \<not> set_sat E rules r (post resp m) (post resp n)"
      "b1 \<and> d1 = 0 \<and> \<not> defers (IPCIDRMatchSource m) r \<longrightarrow> set_sat E rules r (post resp m) (post resp n)"
      "d1 = 0 \<or> d1 = DA \<and> may_defer_rules rsrc rules"
      using any(2) sat dp(2) True by (auto simp: verdict_def)
    ultimately have "set_step E resp r m rsrc ae rules b1 d1 d1"
      unfolding set_step_def Let_def n_def [symmetric] by blast
    then show ?thesis by blast
  next
    case False
    have "prepareNestedMatch rsrc ae y = n \<Longrightarrow>
      outer_loop E (RuleSet tg rules md # sets) rsrc ae ?G ?s matched dg y =
      outer_loop E sets rsrc ae ?G ?s matched dg (deferring 0 n)" for tg md sets matched dg y
      by (simp add: b(1) False pre_deferring_0 [OF n(1)])
    moreover have "\<not> set_sat E rules r (post resp m) (post resp n)"
      using sat dp(1) False by blast
    ultimately have "set_step E resp r m rsrc ae rules False 0 0"
      unfolding set_step_def Let_def n_def [symmetric] by simp
    then show ?thesis by blast
  qed
qed


lemma legacy_ok_rules_iff: "legacy_ok_rules src rules \<longleftrightarrow> (\<forall>r \<in> set rules. legacy_ok src r)"
  by (induction rules) auto

lemma prepare_deferring:
  "pre m \<Longrightarrow> prepareNestedMatch rsrc ae (deferring e (m\<lparr>IPCIDRMatchSource := a, IPCIDRAcceptEmpty := b\<rparr>)) =
   m\<lparr>IPCIDRMatchSource := rsrc, IPCIDRAcceptEmpty := ae\<rparr>"
  by (simp add: pre_def prepareNestedMatch_def ResetRuleMatchCache_def)

lemma sat_sets_Cons:
  "sat_sets E (RuleSet tg rules md # sets) r m m' \<longleftrightarrow> set_sat E rules r m m' \<or> sat_sets E sets r m m'"
  by (simp add: set_sat_def)

lemma outer_loop_pre:
  fixes m :: inbound_context and rsrc ae :: bool
  defines "n \<equiv> m\<lparr>IPCIDRMatchSource := rsrc, IPCIDRAcceptEmpty := ae\<rparr>"
  assumes m: "pre m" and r: "fields_free (IPCIDRMatchSource m) r" "separated [(IPCIDRMatchSource m, r)]"
    and "legacy_ok_sets (IPCIDRMatchSource m) r rsrc sets"
    and "\<forall>S \<in> set sets. \<forall>r \<in> set (set_rules S). legacy_ok rsrc r \<longrightarrow> presound E resp rsrc r"
    and "dg = (if matched then DA else 0)"
    and "prepareNestedMatch rsrc ae y = n" "\<And>s. restore s y = restore s m"
  shows "\<exists>b d. outer_loop E sets rsrc ae (groups_of E r m)
        (snapshotRuleMatch (deferring (outer_base r m) m)) matched dg y = (b, deferring d m) \<and>
      loop_verdict matched b d (defers (IPCIDRMatchSource m) r \<or> may_defer_sets rsrc sets)
        (sat_sets E sets r (post resp m) (post resp n))"
  using assms(5-)
proof (induction sets arbitrary: matched dg y)
  case Nil
  let ?s = "snapshotRuleMatch (deferring (outer_base r m) m)"
  have "outer_loop E [] rsrc ae (groups_of E r m) ?s matched dg y =
      finish_loop ?s matched dg (deferring 0 m)"
    using Nil.prems(5) by (simp add: finish_loop_def)
  then have "outer_loop E [] rsrc ae (groups_of E r m) ?s matched dg y =
      (matched, deferring (if matched then outer_base r m OR dg else outer_base r m) m)"
    by (simp add: finish_snapshot)
  moreover have "loop_verdict matched matched (if matched then outer_base r m OR dg else outer_base r m)
      (defers (IPCIDRMatchSource m) r \<or> may_defer_sets rsrc []) (sat_sets E [] r (post resp m) (post resp n))"
    using Nil.prems(3) by (auto simp: loop_verdict_def outer_base_def)
  ultimately show ?case by blast
next
  case (Cons S sets)
  obtain tg rules md where S: "S = RuleSet tg rules md" by (cases S)
  let ?s = "snapshotRuleMatch (deferring (outer_base r m) m)" and ?G = "groups_of E r m"
  let ?P = "set_sat E rules r (post resp m) (post resp n)"
  have ok: "legacy_ok_sets (IPCIDRMatchSource m) r rsrc sets" using Cons.prems(1) S by simp
  have "\<exists>b1 d1 e. set_step E resp r m rsrc ae rules b1 d1 e"
  proof (cases "mergeableRuleIn rules")
    case None
    then have "\<forall>r \<in> set rules. presound E resp rsrc r"
      using Cons.prems(1,2) S by (simp add: legacy_ok_rules_iff)
    then show ?thesis by (rule set_step_any [OF m r None])
  next
    case (Some b)
    then have "fields_free rsrc b" "separated [(IPCIDRMatchSource m, r), (rsrc, b)]"
      using Cons.prems(1) S by simp_all
    then show ?thesis using set_step_merge [OF m r(1) Some] by blast
  qed
  then obtain b1 d1 e where "set_step E resp r m rsrc ae rules b1 d1 e" by blast
  then have st: "d1 = 0 \<or> d1 = DA \<and> may_defer_rules rsrc rules" "\<not> b1 \<longrightarrow> \<not> ?P"
    "b1 \<and> d1 = 0 \<and> \<not> defers (IPCIDRMatchSource m) r \<longrightarrow> ?P"
    "outer_loop E (S # sets) rsrc ae ?G ?s matched dg y =
      (if b1 \<and> d1 = 0 then (True, deferring (outer_base r m) m)
       else outer_loop E sets rsrc ae ?G ?s (matched \<or> b1) (if b1 then dg OR d1 else dg) (deferring e n))"
    using Cons.prems(4) unfolding set_step_def Let_def S n_def [symmetric] by blast+
  show ?case
  proof (cases "b1 \<and> d1 = 0")
    case True
    then have "outer_loop E (S # sets) rsrc ae ?G ?s matched dg y = (True, deferring (outer_base r m) m)"
      using st(4) by simp
    moreover have "loop_verdict matched True (outer_base r m)
        (defers (IPCIDRMatchSource m) r \<or> may_defer_sets rsrc (S # sets))
        (sat_sets E (S # sets) r (post resp m) (post resp n))"
      using True st(3) unfolding S sat_sets_Cons by (auto simp: loop_verdict_def outer_base_def)
    ultimately show ?thesis by blast
  next
    case False
    have acc: "(if b1 then dg OR d1 else dg) = (if matched \<or> b1 then DA else 0)"
      using st(1) False Cons.prems(3) by auto
    have y: "prepareNestedMatch rsrc ae (deferring e n) = n" "restore s (deferring e n) = restore s m" for s
      using m by (simp_all add: n_def prepare_deferring)
    from Cons.IH [OF ok _ acc y] Cons.prems(2) obtain b d where
      *: "outer_loop E sets rsrc ae ?G ?s (matched \<or> b1) (if b1 then dg OR d1 else dg) (deferring e n) =
        (b, deferring d m)"
      "loop_verdict (matched \<or> b1) b d (defers (IPCIDRMatchSource m) r \<or> may_defer_sets rsrc sets)
        (sat_sets E sets r (post resp m) (post resp n))"
      by auto
    have "outer_loop E (S # sets) rsrc ae ?G ?s matched dg y = (b, deferring d m)"
      using st(4) False *(1) by simp
    moreover have "loop_verdict matched b d
        (defers (IPCIDRMatchSource m) r \<or> may_defer_sets rsrc (S # sets))
        (sat_sets E (S # sets) r (post resp m) (post resp n))"
      using *(2) False st(1,2) unfolding S sat_sets_Cons by (auto simp: loop_verdict_def)
    ultimately show ?thesis by blast
  qed
qed

lemma may_defer_sets_no_domain:
  "legacy_ok_sets src r rsrc sets \<Longrightarrow> may_defer_sets rsrc sets \<Longrightarrow> destinationAddressItems r = []"
proof (induction sets)
  case (Cons S sets)
  then show ?case
    by (cases S; cases "mergeableRuleIn (set_rules S)")
      (auto simp: separated_def may_defer_mergeable)
qed simp

definition nested_presound :: "rule_env \<Rightarrow> dns_msg \<Rightarrow> default_rule \<Rightarrow> bool" where
  "nested_presound E resp r \<longleftrightarrow> (\<forall>rs \<in> set_option (ruleSetItem r). \<forall>S \<in> set (setList rs).
     \<forall>r' \<in> set (set_rules S). \<forall>src. legacy_ok src r' \<longrightarrow> presound E resp src r')"

definition inner_sat :: "rule_env \<Rightarrow> default_rule \<Rightarrow> inbound_context \<Rightarrow> bool" where
  "inner_sat E r m \<longleftrightarrow> items_ok E r m \<and>
     (case ruleSetItem r of None \<Rightarrow> groups_ok E [(r, m)]
      | Some rs \<Rightarrow> sat_sets E (setList rs) r m
          (m\<lparr>IPCIDRMatchSource := ipCidrMatchSource rs, IPCIDRAcceptEmpty := ipCidrAcceptEmpty rs\<rparr>))"

lemma sat_default_inner:
  "sat_default E r m \<longleftrightarrow> allItems r = [] \<or> inner_sat E r m \<noteq> invert r"
  by (cases r) (auto simp: inner_sat_def Let_def split: option.splits rule_set_item.splits)

lemma matchInner_eq:
  "matchInner E r m =
     (let (groups, m1) = evaluateGroups E r m in
      if \<not> items_ok E r m1 then (False, m1)
      else (let (b, m2) =
          (case ruleSetItem r of Some rs \<Rightarrow> matchWithOuterGroups E rs groups m1
           | None \<Rightarrow> (group_done groups, m1))
        in (b, if b then set_deferred (\<lambda>d. d AND NOT (satisfied groups)) m2 else m2)))"
proof (cases r)
  case (AbstractDefaultRule its sa sp da dip dp al rsi neg)
  show ?thesis
    unfolding AbstractDefaultRule matchInner.simps items_ok_def default_rule.sel Let_def by (rule refl)
qed

lemma legacy_ok_default_parts:
  assumes "legacy_ok_default src r"
  shows "fields_free src r" "separated [(src, r)]"
    "ruleSetItem r = Some rs \<Longrightarrow> legacy_ok_sets src r (ipCidrMatchSource rs) (setList rs)"
  using assms by (cases r; cases rs; simp add: Let_def)+

lemma may_defer_default_eq:
  "may_defer_default src r \<longleftrightarrow> defers src r \<or>
     (case ruleSetItem r of None \<Rightarrow> False | Some rs \<Rightarrow> may_defer_sets (ipCidrMatchSource rs) (setList rs))"
  by (cases r) (simp split: option.splits rule_set_item.splits)

lemma keep_deferred:
  assumes "pre m" "legacy_ok_default (IPCIDRMatchSource m) r"
    and "d = 0 \<or> d = DA \<and> may_defer_default (IPCIDRMatchSource m) r"
  shows "d AND NOT (satisfied (groups_of E r m)) = d"
proof (cases "d = 0")
  case False
  then have "destinationAddressItems r = []"
    using assms legacy_ok_default_parts [OF assms(2)] may_defer_sets_no_domain
    by (auto simp: may_defer_default_eq separated_def split: option.splits)
  then show ?thesis using assms(1,3) False DA_not_satisfied by auto
qed simp

lemma matchInner_pre:
  assumes m: "pre m" and ok: "legacy_ok_default (IPCIDRMatchSource m) r" and IH: "nested_presound E resp r"
  shows "\<exists>b d. matchInner E r m = (b, deferring d m) \<and>
    verdict b d (may_defer_default (IPCIDRMatchSource m) r) (inner_sat E r (post resp m))"
proof -
  let ?src = "IPCIDRMatchSource m" and ?m = "deferring (outer_base r m) m" and ?G = "groups_of E r m"
  note free = legacy_ok_default_parts [OF ok]
  have its: "items_ok E r (deferring e m) \<longleftrightarrow> items_ok E r (post resp m)" for e
    using items_ok_deferring [OF free(1)] items_ok_post [OF free(1)] by blast
  have base: "outer_base r m = 0 \<or> outer_base r m = DA \<and> may_defer_default ?src r"
    by (simp add: outer_base_def may_defer_default_eq)
  have inner: "matchInner E r m =
     (if \<not> items_ok E r (post resp m) then (False, ?m)
      else (let (b, m2) =
          (case ruleSetItem r of Some rs \<Rightarrow> matchWithOuterGroups E rs ?G ?m
           | None \<Rightarrow> (group_done ?G, ?m))
        in (b, if b then set_deferred (\<lambda>d. d AND NOT (satisfied ?G)) m2 else m2)))"
    unfolding matchInner_eq evaluateGroups_pre [OF m free(2), folded outer_base_def] prod.case Let_def its
    by (rule refl)
  show ?thesis
  proof (cases "items_ok E r (post resp m)")
    case False
    then have "verdict False (outer_base r m) (may_defer_default ?src r) (inner_sat E r (post resp m))"
      using base by (simp add: verdict_def inner_sat_def)
    then show ?thesis using inner False by auto
  next
    case True
    have "\<exists>b d. (case ruleSetItem r of Some rs \<Rightarrow> matchWithOuterGroups E rs ?G ?m
           | None \<Rightarrow> (group_done ?G, ?m)) = (b, deferring d m) \<and>
        verdict b d (may_defer_default ?src r) (inner_sat E r (post resp m))"
    proof (cases "ruleSetItem r")
      case None
      have "verdict (group_done ?G) (outer_base r m) (may_defer_default ?src r) (inner_sat E r (post resp m))"
        using base True None done_post_single [OF free(1,2) m, of E resp]
        by (auto simp: verdict_def inner_sat_def outer_base_def)
      then show ?thesis using None by auto
    next
      case (Some rs)
      let ?n = "m\<lparr>IPCIDRMatchSource := ipCidrMatchSource rs, IPCIDRAcceptEmpty := ipCidrAcceptEmpty rs\<rparr>"
      have mw: "matchWithOuterGroups E rs ?G ?m = outer_loop E (setList rs) (ipCidrMatchSource rs)
          (ipCidrAcceptEmpty rs) ?G (snapshotRuleMatch ?m) False 0 ?m"
        by (cases rs) simp
      have sets: "\<forall>S \<in> set (setList rs). \<forall>r \<in> set (set_rules S).
          legacy_ok (ipCidrMatchSource rs) r \<longrightarrow> presound E resp (ipCidrMatchSource rs) r"
        using IH Some by (auto simp: nested_presound_def)
      have y: "prepareNestedMatch (ipCidrMatchSource rs) (ipCidrAcceptEmpty rs) ?m = ?n"
        "restore s ?m = restore s m" for s
        using m by (simp_all add: pre_reset)
      obtain b d where "outer_loop E (setList rs) (ipCidrMatchSource rs) (ipCidrAcceptEmpty rs) ?G
          (snapshotRuleMatch ?m) False 0 ?m = (b, deferring d m)"
        "loop_verdict False b d (defers ?src r \<or> may_defer_sets (ipCidrMatchSource rs) (setList rs))
          (sat_sets E (setList rs) r (post resp m) (post resp ?n))"
        using outer_loop_pre [OF m free(1,2) free(3) [OF Some] sets _ y, where matched = False and dg = 0]
        by auto
      then show ?thesis using True Some
        by (auto simp: mw inner_sat_def may_defer_default_eq)
    qed
    then obtain b d where bd: "(case ruleSetItem r of Some rs \<Rightarrow> matchWithOuterGroups E rs ?G ?m
           | None \<Rightarrow> (group_done ?G, ?m)) = (b, deferring d m)"
        "verdict b d (may_defer_default ?src r) (inner_sat E r (post resp m))" by blast
    then have "set_deferred (\<lambda>d. d AND NOT (satisfied ?G)) (deferring d m) = deferring d m"
      using keep_deferred [OF m ok, of d E] by (simp add: set_deferred_def verdict_def)
    then have "matchInner E r m = (b, deferring d m)"
      using inner True bd(1) by simp
    then show ?thesis using bd(2) by blast
  qed
qed

lemma default_Match_pre:
  assumes m: "pre m" and ok: "legacy_ok_default (IPCIDRMatchSource m) r" and IH: "nested_presound E resp r"
  shows "\<exists>b d. default_Match E r m = (b, deferring d m) \<and>
    verdict b d (may_defer_default (IPCIDRMatchSource m) r) (sat_default E r (post resp m))"
proof (cases "allItems r = []")
  case True
  then have "default_Match E r m = (True, deferring 0 m)"
    using m by (simp add: default_Match.simps pre_deferring_0)
  moreover have "verdict True 0 (may_defer_default (IPCIDRMatchSource m) r) (sat_default E r (post resp m))"
    using True by (simp add: verdict_def sat_default_inner)
  ultimately show ?thesis by blast
next
  case False
  obtain b d where i: "matchInner E r m = (b, deferring d m)"
    "verdict b d (may_defer_default (IPCIDRMatchSource m) r) (inner_sat E r (post resp m))"
    using matchInner_pre [OF assms] by blast
  let ?b = "if invert r then \<not> b \<or> d \<noteq> 0 else b" and ?d = "if invert r \<and> \<not> b then 0 else d"
  have "default_Match E r m = (?b, deferring ?d m)"
    using i(1) False by (simp add: default_Match.simps set_deferred_def)
  moreover have "verdict ?b ?d (may_defer_default (IPCIDRMatchSource m) r) (sat_default E r (post resp m))"
    using i(2) False by (auto simp: verdict_def sat_default_inner)
  ultimately show ?thesis by blast
qed


lemma logical_pre:
  assumes m: "pre m" and rules: "\<forall>r \<in> set rules. presound E resp False r"
  shows "\<exists>b d. rule_Match E (LogicalRule k mode rules neg) m = (b, deferring d m) \<and>
    verdict b d (may_defer src (LogicalRule k mode rules neg))
      (sat E (LogicalRule k mode rules neg) (post resp m))"
proof -
  let ?n = "no_flags m" and ?P = "if mode = ''and'' then sat_all E rules (post resp (no_flags m))
    else sat_any E rules (post resp (no_flags m))"
  let ?loop = "if mode = ''and'' then and_loop E rules 0 m else or_loop E rules False 0 m"
  have n: "pre ?n" "\<not> IPCIDRMatchSource ?n" using m by simp_all
  have y: "ResetRuleCache m = ?n" "\<forall>s. restore s m = restore s ?n"
    using pre_reset(3) [OF m, of 0] by (simp_all add: pre_deferring_0 [OF m])
  have "\<exists>b d y'. ?loop = (b, d, y') \<and> (\<forall>s. restore s y' = restore s ?n) \<and>
      verdict b d (may_defer_rules False rules) ?P"
  proof (cases "mode = ''and''")
    case True
    then show ?thesis
      using and_loop_pre [OF n rules _ y, of 0 False] by (fastforce simp: verdict_def)
  next
    case False
    then show ?thesis
      using or_loop_pre [OF n rules _ y, of 0 False] by simp
  qed
  then obtain b d y' where l: "?loop = (b, d, y')" "\<forall>s. restore s y' = restore s ?n"
    "verdict b d (may_defer_rules False rules) ?P" by blast
  have again: "restore (snapshotRuleMatch m) y' = m"
    using l(2) restore_snapshot [of m] by (simp add: restore_def)
  let ?b = "if neg then \<not> b \<or> d \<noteq> 0 else b" and ?d = "if b then d else 0"
  have "rule_Match E (LogicalRule k mode rules neg) m = (?b, deferring ?d m)"
    unfolding rule_Match.simps Let_def l(1) prod.case again
    using m by (simp add: set_deferred_def pre_no_deferred pre_deferring_0)
  moreover have "verdict ?b ?d (may_defer src (LogicalRule k mode rules neg))
      (sat E (LogicalRule k mode rules neg) (post resp m))"
    using l(3) by (auto simp: verdict_def Let_def)
  ultimately show ?thesis by blast
qed

theorem presound_all: "legacy_ok src r \<Longrightarrow> presound E resp src r"
proof (induction r arbitrary: src rule: rule.induct [where
      ?P2.0 = "nested_presound E resp" and
      ?P3.0 = "\<lambda>rs. \<forall>S \<in> set (setList rs). \<forall>r \<in> set (set_rules S). \<forall>src. legacy_ok src r \<longrightarrow> presound E resp src r" and
      ?P4.0 = "\<lambda>S. \<forall>r \<in> set (set_rules S). \<forall>src. legacy_ok src r \<longrightarrow> presound E resp src r"])
  case (LogicalRule k mode rules neg)
  then have "\<forall>r \<in> set rules. presound E resp False r" by (simp add: legacy_ok_rules_iff)
  note l = logical_pre [OF _ this]
  show ?case unfolding presound_def using l by blast
next
  case (AbstractDefaultRule its sa sp da dip dp al rsi neg)
  then show ?case by (auto simp: nested_presound_def)
qed (auto simp: presound_def rule_Match.simps nested_presound_def [symmetric] default_Match_pre)

subsection \<open>What the router may conclude\<close>

text \<open>The metadata of a rule-set says so when one of its rules has addresses.\<close>

fun described :: "rule \<Rightarrow> bool" where
  "described (DefaultDNSRule r matchResponse tg) \<longleftrightarrow>
     (case ruleSetItem r of None \<Rightarrow> True
      | Some rs \<Rightarrow> list_all (\<lambda>S. may_defer_rules False (set_rules S) \<longrightarrow> ContainsIPCIDRRule (set_Metadata S)) (setList rs))"
| "described (LogicalRule k mode rules neg) \<longleftrightarrow> list_all (\<lambda>r. is_dns_rule r \<and> described r) rules"
| "described _ \<longleftrightarrow> False"

text \<open>
  Under \<^verbatim>\<open>rule_set_ip_cidr_match_source\<close> no rule of the rule-set has addresses that are still matched
  against the destination. A logical rule resets the option, so its addresses are.
\<close>

fun source_matched :: "rule \<Rightarrow> bool" where
  "source_matched (DefaultDNSRule r matchResponse tg) \<longleftrightarrow>
     (case ruleSetItem r of None \<Rightarrow> True
      | Some rs \<Rightarrow> ipCidrMatchSource rs \<longrightarrow> list_all (\<lambda>S. \<not> may_defer_rules True (set_rules S)) (setList rs))"
| "source_matched (LogicalRule k mode rules neg) \<longleftrightarrow> list_all source_matched rules"
| "source_matched _ \<longleftrightarrow> True"

lemma may_defer_sets_iff:
  "may_defer_sets rsrc sets \<longleftrightarrow> (\<exists>S \<in> set sets. may_defer_rules rsrc (set_rules S))"
proof (induction sets)
  case (Cons S sets)
  then show ?case by (cases S) auto
qed simp

lemma may_defer_rules_iff: "may_defer_rules src rules \<longleftrightarrow> (\<exists>r \<in> set rules. may_defer src r)"
  by (induction rules) auto

lemma no_limit_no_defer: "described r \<Longrightarrow> source_matched r \<Longrightarrow> \<not> WithAddressLimit r \<Longrightarrow> \<not> may_defer False r"
proof (induction r rule: WithAddressLimit.induct)
  case (1 r mr tg)
  then show ?case
    by (cases "\<exists>rs. ruleSetItem r = Some rs \<and> ipCidrMatchSource rs")
      (auto simp: default_WithAddressLimit_def may_defer_default_eq defers_def may_defer_sets_iff
        ContainsDestinationIPCIDRRule_def list_all_iff list_ex_iff split: option.splits if_splits)
next
  case (2 k mode rules neg)
  then show ?case by (auto simp: may_defer_rules_iff list_all_iff list_ex_iff)
qed auto

definition resting :: "inbound_context \<Rightarrow> bool" where
  "resting m \<longleftrightarrow> clean m \<and> \<not> IPCIDRMatchSource m \<and> \<not> IPCIDRAcceptEmpty m"

lemma resting_pre: "resting m \<Longrightarrow> pre (m\<lparr>IgnoreDestinationIPCIDRMatch := True\<rparr>)"
  by (simp add: resting_def clean_def pre_def)

lemma response_context_post:
  "resting m \<Longrightarrow> response_context resp (deferring d m) =
   post resp (m\<lparr>IgnoreDestinationIPCIDRMatch := True\<rparr>)"
  by (cases m) (simp add: resting_def clean_def response_context_def post_def ResetRuleCache_def
    ResetRuleMatchCache_def)

lemma MatchAddressLimit_sat:
  assumes "is_dns_rule r" "legacy_ok False r" "resting m"
  shows "MatchAddressLimit E r (deferring d m) resp =
    sat E r (post resp (m\<lparr>IgnoreDestinationIPCIDRMatch := True\<rparr>))"
proof -
  let ?m = "post resp (m\<lparr>IgnoreDestinationIPCIDRMatch := True\<rparr>)"
  have c: "clean ?m" using assms(3) by (intro clean_post resting_pre)
  have "fst (rule_Match E r ?m) = sat E r ?m"
    using refinesD [OF rule_Match_refines c] by simp
  then show ?thesis
    using assms by (cases r) (simp_all add: MatchAddressLimit_def response_context_post rule_Match.simps)
qed

lemma LegacyPreMatch_verdict:
  assumes "is_dns_rule r" "legacy_ok False r" "resting m"
  shows "\<exists>b d. LegacyPreMatch E r m = (b, deferring d m) \<and>
    verdict b d (may_defer False r) (sat E r (post resp (m\<lparr>IgnoreDestinationIPCIDRMatch := True\<rparr>)))"
proof -
  let ?m = "m\<lparr>IgnoreDestinationIPCIDRMatch := True\<rparr>"
  have flags: "\<not> IPCIDRMatchSource ?m" "IgnoreDestinationIPCIDRMatch m = False"
    using assms(3) by (simp_all add: resting_def clean_def)
  obtain b d where bd: "rule_Match E r ?m = (b, deferring d ?m)"
    "verdict b d (may_defer False r) (sat E r (post resp ?m))"
    using presound_all [OF assms(2), of E resp] resting_pre [OF assms(3)] flags
    by (auto elim: presoundE)
  have ign: "(deferring d ?m)\<lparr>IgnoreDestinationIPCIDRMatch := False\<rparr> = deferring d m"
    using flags(2) by (cases m) simp
  have "LegacyPreMatch E r m =
      (b, (deferring d ?m)\<lparr>IgnoreDestinationIPCIDRMatch := False\<rparr>)"
    using bd(1) assms(1,2) by (cases r) (simp_all add: LegacyPreMatch_def rule_Match.simps)
  then show ?thesis unfolding ign using bd(2) by blast
qed

subsection \<open>Witnesses and two rules outside the fragment\<close>

definition sample_response :: dns_msg where
  "sample_response = \<lparr>Rcode = 0, Answer = [RR_A [1, 2, 3, 4]], Ns = [], Extra = []\<rparr>"

definition limited_rule :: rule where
  "limited_rule = LogicalRule DNSKind ''and''
     [DefaultDNSRule (rules_with_sets [] [[headless_cidr 0x01000000 8], [headless_cidr 0x05000000 8]] False)
        False [],
      DefaultDNSRule (AbstractDefaultRule [QueryTypeItem [1]] [] [] [domain_item ''a.example''] [] []
        [PlainItem (QueryTypeItem [1]), PlainItem (domain_item ''a.example'')] None False) False []] False"

definition unlimited_rule :: rule where
  "unlimited_rule = DefaultDNSRule (AbstractDefaultRule [QueryTypeItem [1]] [] []
     [domain_item ''b.example''] [] [] [PlainItem (QueryTypeItem [1]), PlainItem (domain_item ''b.example'')]
     None True) False []"

text \<open>An inverted rule on some destination fields and on a rule-set with one rule per address item.\<close>

definition address_rule :: "rule_item \<Rightarrow> rule" where
  "address_rule it = DefaultHeadlessRule (AbstractDefaultRule [] [] [] [] [it] [] [PlainItem it] None False)"

definition inverted_set_rule :: "rule_item list \<Rightarrow> rule_item list \<Rightarrow> rule" where
  "inverted_set_rule da ps = DefaultDNSRule (rules_with_sets da [map address_rule ps] True) False []"

text \<open>A rule on a rule-set matched against the source address, whose logical rule has addresses.\<close>

definition source_rule :: rule where
  "source_rule = DefaultDNSRule (AbstractDefaultRule [] [] [] [] [] [] [TheRuleSetItem]
     (Some (RuleSetItem [''set''] [RuleSet ''set'' [LogicalRule HeadlessKind ''or'' [headless_cidr 0x05000000 8] False]
        sample_metadata] True False)) False) False []"

text \<open>A rule with both \<^verbatim>\<open>domain\<close> and \<^verbatim>\<open>ip_cidr\<close>.\<close>

definition mixed_rule :: rule where
  "mixed_rule = DefaultDNSRule (AbstractDefaultRule [] [] [] [domain_item ''b.example'']
     [cidr_item 0x01000000 8] [] [PlainItem (domain_item ''b.example''), PlainItem (cidr_item 0x01000000 8)]
     None False) False []"

lemma sample_resting: "resting sample_context"
  by (simp add: resting_def clean_def sample_context_def)

text \<open>
  C2: What the pre-match decides without a response is right for every response.  For a DNS rule
  that \<open>legacy_ok\<close> accepts, started on metadata in its resting state: if
  \<^verbatim>\<open>LegacyPreMatch\<close> returns false then \<^verbatim>\<open>MatchAddressLimit\<close> rejects every response; if it
  returns true with no deferred group then \<^verbatim>\<open>MatchAddressLimit\<close> accepts every response; and of the
  metadata only the deferred groups have changed.
\<close>

theorem legacy_prematch_sound:
  assumes "is_dns_rule r" "legacy_ok False r" "resting m" "LegacyPreMatch E r m = (b, m1)"
  shows "m1 = m\<lparr>DeferredIPCIDRMatchGroups := DeferredIPCIDRMatchGroups m1\<rparr> \<and>
    (\<not> b \<longrightarrow> \<not> MatchAddressLimit E r m1 resp) \<and>
    (b \<and> DeferredIPCIDRMatchGroups m1 = 0 \<longrightarrow> MatchAddressLimit E r m1 resp)"
proof -
  obtain d where d: "m1 = deferring d m"
    "verdict b d (may_defer False r) (sat E r (post resp (m\<lparr>IgnoreDestinationIPCIDRMatch := True\<rparr>)))"
    using LegacyPreMatch_verdict [OF assms(1-3), of E resp] assms(4) by auto
  then show ?thesis
    using MatchAddressLimit_sat [OF assms(1-3)] by (simp add: verdict_def)
qed

theorem legacy_prematch_sound_witness:
  "fst (LegacyPreMatch sample_env limited_rule sample_context) \<and>
   DeferredIPCIDRMatchGroups (snd (LegacyPreMatch sample_env limited_rule sample_context)) = 4 \<and>
   fst (LegacyPreMatch sample_env unlimited_rule sample_context) \<and>
   MatchAddressLimit sample_env unlimited_rule
     (snd (LegacyPreMatch sample_env unlimited_rule sample_context)) sample_response"
proof -
  have r: "is_dns_rule unlimited_rule" "legacy_ok False unlimited_rule" by code_simp+
  have l: "fst (LegacyPreMatch sample_env limited_rule sample_context)"
    "DeferredIPCIDRMatchGroups (snd (LegacyPreMatch sample_env limited_rule sample_context)) = 4"
    by code_simp+
  have u: "fst (LegacyPreMatch sample_env unlimited_rule sample_context)"
    "DeferredIPCIDRMatchGroups (snd (LegacyPreMatch sample_env unlimited_rule sample_context)) = 0"
    by code_simp+
  show ?thesis
    using l u legacy_prematch_sound [OF r sample_resting, of sample_env _ _ sample_response]
    by (metis prod.collapse)
qed

text \<open>
  C12: When a DNS rule has no address limit the router takes the pre-match for final and never looks
  at the response.  That is right for a rule that \<open>legacy_ok\<close> accepts, on metadata in its resting
  state, if the metadata of its rule-sets tells whether they have address rules, and if no rule-set matched under
  \<^verbatim>\<open>rule_set_ip_cidr_match_source\<close> has a logical rule with addresses: the
  pre-match returns true exactly when \<^verbatim>\<open>MatchAddressLimit\<close> would accept the response, whatever the
  response is, and it leaves the metadata unchanged.
\<close>

theorem unlimited_prematch_exact:
  assumes "is_dns_rule r" "legacy_ok False r" "resting m" "described r" "source_matched r" "\<not> WithAddressLimit r"
    "LegacyPreMatch E r m = (b, m1)"
  shows "m1 = m \<and> (b \<longleftrightarrow> MatchAddressLimit E r m1 resp)"
proof -
  obtain d where d: "m1 = deferring d m"
    "verdict b d (may_defer False r) (sat E r (post resp (m\<lparr>IgnoreDestinationIPCIDRMatch := True\<rparr>)))"
    using LegacyPreMatch_verdict [OF assms(1-3), of E resp] assms(7) by auto
  moreover have "d = 0" using d(2) no_limit_no_defer [OF assms(4-6)] by (auto simp: verdict_def)
  moreover have "deferring 0 m = m" using assms(3) by (cases m) (simp add: resting_def clean_def)
  ultimately show ?thesis
    using MatchAddressLimit_sat [OF assms(1-3), of E 0] by (auto simp: verdict_def)
qed

theorem unlimited_prematch_exact_witness:
  "\<not> WithAddressLimit unlimited_rule \<and>
   LegacyPreMatch sample_env unlimited_rule sample_context = (True, sample_context) \<and>
   MatchAddressLimit sample_env unlimited_rule sample_context sample_response"
proof -
  have r: "is_dns_rule unlimited_rule" "legacy_ok False unlimited_rule" "described unlimited_rule"
    "source_matched unlimited_rule" "\<not> WithAddressLimit unlimited_rule" by code_simp+
  have "fst (LegacyPreMatch sample_env unlimited_rule sample_context)" by code_simp
  then show ?thesis
    using r(5) unlimited_prematch_exact [OF r(1,2) sample_resting r(3-5), of sample_env _ _ sample_response]
    by (metis prod.collapse)
qed

text \<open>
  The limit of a rule does not see the addresses of a logical rule under
  \<^verbatim>\<open>rule_set_ip_cidr_match_source\<close>: the rule has no address limit, the pre-match is true, and
  the check of the response would reject it.
\<close>

theorem source_rule_unlimited:
  "\<not> WithAddressLimit source_rule \<and> described source_rule \<and> fst (LegacyPreMatch sample_env source_rule sample_context) \<and>
   \<not> MatchAddressLimit sample_env source_rule sample_context sample_response"
  by code_simp

lemma response_free_ignore:
  "response_free it \<Longrightarrow> item_match E it (m\<lparr>IgnoreDestinationIPCIDRMatch := b\<rparr>) = item_match E it m"
  by (cases it) (auto simp: item_match_defs Let_def)

lemma address_rule_pre:
  assumes "IgnoreDestinationIPCIDRMatch m" "\<not> IPCIDRMatchSource m"
  shows "rule_Match E (address_rule it) m =
    (True, m\<lparr>DeferredIPCIDRMatchGroups := DeferredIPCIDRMatchGroups m OR ruleMatchDestinationAddress\<rparr>)"
  using assms
  by (simp add: address_rule_def rule_Match.simps default_Match.simps evaluateGroups_def require_def Let_def
    destinationIPCIDRMatchesSource_def destinationIPCIDRMatchesDestination_def group_done_def set_deferred_def)

lemma any_loop_addresses:
  assumes "IgnoreDestinationIPCIDRMatch m" "\<not> IPCIDRMatchSource m" "matched \<Longrightarrow> d = ruleMatchDestinationAddress"
    "\<not> matched \<Longrightarrow> d = 0" "matched \<or> ps \<noteq> []" "\<not> SourceAddressMatch m" "\<not> SourcePortMatch m"
    "\<not> DestinationAddressMatch m" "\<not> DestinationPortMatch m"
  shows "any_loop E (map address_rule ps) s matched d m =
    (True, set_deferred (\<lambda>d. d OR ruleMatchDestinationAddress) (restore s m))"
  using assms
proof (induction ps arbitrary: matched d m)
  case (Cons p ps)
  have reset: "ResetRuleMatchCache m = m\<lparr>DeferredIPCIDRMatchGroups := 0\<rparr>"
    using Cons.prems by (cases m) (simp add: ResetRuleMatchCache_def)
  have "d OR ruleMatchDestinationAddress = ruleMatchDestinationAddress" "ruleMatchDestinationAddress \<noteq> 0"
    using Cons.prems by (cases matched) (simp_all add: ruleMatchDestinationAddress_def)
  then show ?case
    using Cons.prems Cons.IH [of "m\<lparr>DeferredIPCIDRMatchGroups := ruleMatchDestinationAddress\<rparr>" True ruleMatchDestinationAddress]
    by (simp add: reset address_rule_pre restore_def)
qed (simp add: finish_loop_def)

lemma mergeable_addresses: "2 \<le> length ps \<Longrightarrow> mergeableRuleIn (map address_rule ps) = None"
  by (cases ps rule: list.exhaust; cases "tl ps") (auto simp: mergeableRuleIn_def address_rule_def)

lemma matchInner_addresses:
  assumes "pre m" "\<not> IPCIDRMatchSource m" "\<not> IPCIDRAcceptEmpty m" "2 \<le> length ps" "matchAnyItem E da m"
  shows "matchInner E (rules_with_sets da [map address_rule ps] True) m = (True, m)"
proof -
  let ?d = ruleMatchDestinationAddress
  obtain p q qs where ps: "ps = p # q # qs" using assms(4) by (cases ps rule: list.exhaust; cases "tl ps") auto
  have m: "ResetRuleMatchCache m = m" "m\<lparr>IPCIDRMatchSource := False, IPCIDRAcceptEmpty := False\<rparr> = m"
    "restore (snapshotRuleMatch m) (set_deferred f m) = m" for f
    using assms(1-3) by (cases m; simp add: ResetRuleMatchCache_def pre_def restore_def snapshotRuleMatch_def set_deferred_def)+
  have d: "DeferredIPCIDRMatchGroups (set_deferred (\<lambda>d. d OR ?d) m) = ?d" "?d \<noteq> 0" "0 OR ?d = ?d" "?d AND NOT ?d = 0"
    "set_deferred (\<lambda>d. d AND NOT ?d) (set_deferred (\<lambda>d. d OR ?d) m) = m"
    using assms(1) by (cases m; simp add: set_deferred_def pre_def ruleMatchDestinationAddress_def)+
  have nm: "mergeableRuleIn (map address_rule ps) = None" using assms(4) by (rule mergeable_addresses)
  have groups: "evaluateGroups E (rules_with_sets da [map address_rule ps] True) m = (\<lparr>required = ?d, satisfied = ?d\<rparr>, m)"
    using assms(1,2,5)
    by (auto simp: evaluateGroups_def rules_with_sets_def require_def Let_def pre_def has_state_def
      destinationIPCIDRMatchesSource_def destinationIPCIDRMatchesDestination_def)
  have loop: "any_loop E (map address_rule ps) (snapshotRuleMatch m) False 0 m =
      (True, set_deferred (\<lambda>d. d OR ?d) m)"
    using any_loop_addresses [of m False 0 ps E "snapshotRuleMatch m"] assms(1,2) by (simp add: pre_def ps del: any_loop.simps)
  have "outer_loop E [RuleSet ''set'' (map address_rule ps) sample_metadata] False False \<lparr>required = ?d, satisfied = ?d\<rparr>
      (snapshotRuleMatch m) False 0 m = (True, set_deferred (\<lambda>d. d OR ?d) m)"
    using loop nm
    by (simp add: prepareNestedMatch_def matchAnyHeadlessRule.simps group_done_def finish_loop_def m d)
  with groups show ?thesis unfolding rules_with_sets_def by (simp add: d del: outer_loop.simps)
qed

text \<open>
  C38: The clearing of deferred groups loses a match.  Take any inverted DNS rule on destination fields
  that do not read the response, such as domains, and on a rule-set of at least two rules, one per address item.  For a query that
  one of the fields matches, the pre-match rejects the rule, because the outer rule's matched
  group clears the group the rule-set deferred; yet the rule matches every response
  that none of the address items matches.
\<close>

theorem prematch_loses_inverted_rule:
  assumes "resting m" "2 \<le> length ps" "list_all response_free da" "matchAnyItem E da m"
    "list_all (\<lambda>it. \<not> item_match E it (response_context resp m)) ps"
  shows "\<not> fst (LegacyPreMatch E (inverted_set_rule da ps) m) \<and> WithAddressLimit (inverted_set_rule da ps) \<and>
    MatchAddressLimit E (inverted_set_rule da ps) m resp"
proof -
  let ?r = "rules_with_sets da [map address_rule ps] True" and ?m = "m\<lparr>IgnoreDestinationIPCIDRMatch := True\<rparr>"
    and ?c = "response_context resp m"
  have al: "allItems ?r \<noteq> []" "invert ?r" by (simp_all add: rules_with_sets_def)
  have "matchAnyItem E da ?m" using assms(3,4) by (auto simp: matchAnyItem_def list_ex_iff list_all_iff response_free_ignore)
  then have "matchInner E ?r ?m = (True, ?m)"
    using matchInner_addresses [OF resting_pre [OF assms(1)] _ _ assms(2)] assms(1) by (simp add: resting_def)
  then have "\<not> fst (default_Match E ?r ?m)"
    using al assms(1) by (simp add: default_Match.simps resting_def clean_def)
  then have pre: "\<not> fst (LegacyPreMatch E (inverted_set_rule da ps) m)"
    by (simp add: LegacyPreMatch_def inverted_set_rule_def case_prod_unfold)
  have c: "clean ?c" using assms(1) by (simp add: resting_def response_context_def ResetRuleCache_def ResetRuleMatchCache_def clean_def)
  have flags: "no_flags ?c = ?c" "\<not> IPCIDRMatchSource ?c" by (simp_all add: response_context_def ResetRuleCache_def ResetRuleMatchCache_def)
  have "\<not> sat E (address_rule p) ?c" if "p \<in> set ps" for p
    using that assms(5) flags(2) by (auto simp: address_rule_def items_ok_def groups_ok_def Let_def list_all_iff)
  then have "\<not> sat_any E (map address_rule ps) ?c" by (induction ps) auto
  then have "sat_default E ?r ?c"
    using flags(1) mergeable_addresses [OF assms(2)] by (simp add: rules_with_sets_def Let_def)
  then have "MatchAddressLimit E (inverted_set_rule da ps) m resp"
    using refinesD [OF rule_Match_refines c, of E "DefaultRule ?r"]
    by (simp add: MatchAddressLimit_def inverted_set_rule_def rule_Match.simps)
  with pre show ?thesis
    by (simp add: inverted_set_rule_def default_WithAddressLimit_def rules_with_sets_def ContainsDestinationIPCIDRRule_def
      sample_metadata_def)
qed

theorem prematch_loses_inverted_rule_witness:
  "let r = inverted_set_rule [domain_item ''a.example''] [cidr_item 0x05000000 8, cidr_item 0x06000000 8]
   in \<not> fst (LegacyPreMatch sample_env r sample_context) \<and> MatchAddressLimit sample_env r sample_context sample_response"
proof -
  have "matchAnyItem sample_env [domain_item ''a.example''] sample_context = True"
    "list_all response_free [domain_item ''a.example''] = True"
    "list_all (\<lambda>it. \<not> item_match sample_env it (response_context sample_response sample_context))
       [cidr_item 0x05000000 8, cidr_item 0x06000000 8] = True" by code_simp+
  then show ?thesis
    using prematch_loses_inverted_rule [OF sample_resting, of "[cidr_item 0x05000000 8, cidr_item 0x06000000 8]"]
    unfolding Let_def by simp
qed

text \<open>
  The documented logic makes \<^verbatim>\<open>domain\<close> and \<^verbatim>\<open>ip_cidr\<close> alternatives of one group, and the
  response check of a rule with both accepts the response 1.2.3.4 to a query of another domain;
  the pre-match demands the domain and drops the rule before any response.
\<close>

theorem prematch_demands_domain:
  "\<not> fst (LegacyPreMatch sample_env mixed_rule sample_context) \<and>
   MatchAddressLimit sample_env mixed_rule sample_context sample_response"
  by code_simp

end
