(* ===== verification/RuleBuild.thy ===== *)
theory RuleBuild
  imports RulePreMatch "HOL-Library.Multiset"
begin

text \<open>
  The constructors of \<^verbatim>\<open>route/rule\<close>: from the options of a rule to the rule the engine
  matches, with every error the Go constructors return.

  A rule constructor is a sequence of conditional blocks, each building one item and appending it to
  the lists the block names, or failing.  Here it is the list of those blocks, in the order of the
  source and each with the lists it appends to, run by \<open>run_steps\<close>.  The options of the three kinds of rules are
  records over the common fields of \<open>match_options\<close>; an empty list stands for a nil slice,
  and compiled matchers the options may carry are kept as opaque bytes and given meaning by
  \<open>build_lib\<close>.  The rule's action is not part of these definitions.

  The lemmas show that a constructed rule's item lists are consistent, that constructed rules have
  the field types the pre-match theorems ask for, that the metadata of a loaded rule-set is exact
  about addresses, and what a port range item matches.
\<close>

subsection \<open>Library\<close>

record build_lib =
  regexp_Compile :: "string \<Rightarrow> (string \<Rightarrow> bool) option"
  ParsePrefix :: "string \<Rightarrow> ip_prefix option"
  ParseAddr :: "string \<Rightarrow> addr option"
  ParseMAC :: "string \<Rightarrow> bytes option"
  NewMatcher :: "string list \<Rightarrow> string list \<Rightarrow> bool \<Rightarrow> string \<Rightarrow> bool"
  Matcher_of :: "bytes \<Rightarrow> string \<Rightarrow> bool"
  NewAdGuardMatcher :: "string list \<Rightarrow> string \<Rightarrow> bool"
  AdGuardMatcher_of :: "bytes \<Rightarrow> string \<Rightarrow> bool"
  IPSet_build :: "(ip_prefix + addr) list \<Rightarrow> (addr \<Rightarrow> bool) option"
  IPSet_of :: "bytes \<Rightarrow> addr \<Rightarrow> bool"
  prefix_String :: "ip_prefix \<Rightarrow> string"
  int_ToString :: "nat \<Rightarrow> string"

datatype build_error =
    EmptyItem string
  | ParseExpression nat
  | ParseCIDR nat
  | IPSetError
  | ErrBadPortRange string
  | InvalidIPVersion int
  | DeprecatedOption string
  | MissingConditions
  | UnknownRuleType string
  | UnknownLogicalMode string
  | RaceRequiresMatchResponse
  | NestedAction
  | MissingField string
  | InvalidOption string
  | Cause string build_error

fun map_error :: "('e \<Rightarrow> 'f) \<Rightarrow> 'e + 'a \<Rightarrow> 'f + 'a" where
  "map_error f (Inl e) = Inl (f e)"
| "map_error f (Inr x) = Inr x"

subsection \<open>Item constructors\<close>

text \<open>The text an item keeps to describe itself: at most three values.\<close>

definition describe_short :: "string \<Rightarrow> string list \<Rightarrow> string \<Rightarrow> string" where
  "describe_short label xs dots =
     (if length xs = 1 then label @ hd xs
      else if length xs > 3 then label @ ''['' @ join_with '' '' (take 3 xs) @ dots @ '']''
      else label @ ''['' @ join_with '' '' xs @ '']'')"

definition NewDomainItem :: "build_lib \<Rightarrow> string list \<Rightarrow> string list \<Rightarrow> build_error + rule_item" where
  "NewDomainItem L domains domainSuffixes =
     (if [] \<in> set domains then Inl (EmptyItem ''domain'')
      else if [] \<in> set domainSuffixes then Inl (EmptyItem ''domain_suffix'')
      else
        (let d1 = (if domains = [] then [] else describe_short ''domain='' domains ''...'');
             d2 = (if domainSuffixes = [] then []
                   else (if d1 = [] then [] else '' '') @
                     describe_short ''domain_suffix='' domainSuffixes ''...'')
         in Inr (DomainItem (NewMatcher L domains domainSuffixes False) (d1 @ d2))))"

definition NewRawDomainItem :: "build_lib \<Rightarrow> bytes \<Rightarrow> rule_item" where
  "NewRawDomainItem L matcher = DomainItem (Matcher_of L matcher) ''domain/domain_suffix=<binary>''"

fun compile_all ::
  "build_lib \<Rightarrow> nat \<Rightarrow> string list \<Rightarrow> build_error + (string \<Rightarrow> bool) list" where
  "compile_all L i [] = Inr []"
| "compile_all L i (e # es) =
     (case regexp_Compile L e of None \<Rightarrow> Inl (ParseExpression i)
      | Some m \<Rightarrow> bind_res (compile_all L (Suc i) es) (\<lambda>ms. Inr (m # ms)))"

definition NewDomainRegexItem :: "build_lib \<Rightarrow> string list \<Rightarrow> build_error + rule_item" where
  "NewDomainRegexItem L expressions =
     bind_res (compile_all L 0 expressions) (\<lambda>matchers.
       Inr (DomainRegexItem matchers (describe_short ''domain_regex='' expressions [])))"

definition NewProcessPathRegexItem :: "build_lib \<Rightarrow> string list \<Rightarrow> build_error + rule_item" where
  "NewProcessPathRegexItem L expressions =
     bind_res (compile_all L 0 expressions) (\<lambda>matchers.
       Inr (ProcessPathRegexItem matchers (describe_short ''process_path_regex='' expressions [])))"

definition NewPackageNameRegexItem :: "build_lib \<Rightarrow> string list \<Rightarrow> build_error + rule_item" where
  "NewPackageNameRegexItem L expressions =
     bind_res (compile_all L 0 expressions) (\<lambda>matchers.
       Inr (PackageNameRegexItem matchers (describe_short ''package_name_regex='' expressions [])))"

fun parse_cidrs ::
  "build_lib \<Rightarrow> nat \<Rightarrow> string list \<Rightarrow> build_error + (ip_prefix + addr) list" where
  "parse_cidrs L i [] = Inr []"
| "parse_cidrs L i (s # ss) =
     (case ParsePrefix L s of
        Some p \<Rightarrow> bind_res (parse_cidrs L (Suc i) ss) (\<lambda>xs. Inr (Inl p # xs))
      | None \<Rightarrow>
          (case ParseAddr L s of
             Some a \<Rightarrow> bind_res (parse_cidrs L (Suc i) ss) (\<lambda>xs. Inr (Inr a # xs))
           | None \<Rightarrow> Inl (ParseCIDR i)))"

definition NewIPCIDRItem :: "build_lib \<Rightarrow> bool \<Rightarrow> string list \<Rightarrow> build_error + rule_item" where
  "NewIPCIDRItem L isSource prefixStrings =
     bind_res (parse_cidrs L 0 prefixStrings) (\<lambda>entries.
       case IPSet_build L entries of None \<Rightarrow> Inl IPSetError
       | Some ipSet \<Rightarrow> Inr (IPCIDRItem ipSet isSource
           (describe_short (if isSource then ''source_ip_cidr='' else ''ip_cidr='') prefixStrings ''...'')))"

definition NewRawIPCIDRItem :: "build_lib \<Rightarrow> bool \<Rightarrow> bytes \<Rightarrow> rule_item" where
  "NewRawIPCIDRItem L isSource ipSet =
     IPCIDRItem (IPSet_of L ipSet) isSource
       ((if isSource then ''source_ip_cidr='' else ''ip_cidr='') @ ''<binary>'')"

text \<open>
  \<^verbatim>\<open>NewPortRangeItem\<close>, one range: the text before the first colon, if any, is the start,
  the text after it the end; an empty start is 0 and an empty end 0xFFFF.
\<close>

definition parse_port_range :: "string \<Rightarrow> build_error + (16 word \<times> 16 word)" where
  "parse_port_range portRange =
     (if CHR '':'' \<notin> set portRange then Inl (ErrBadPortRange portRange)
      else
        (let start = takeWhile (\<lambda>c. c \<noteq> CHR '':'') portRange;
             stop = drop (Suc (length start)) portRange
         in bind_res
              (if length start > 0
               then map_error (\<lambda>_. ErrBadPortRange portRange) (parse_uint 16 start) else Inr 0)
              (\<lambda>a. bind_res
                 (if stop = [] then Inr 0xFFFF
                  else map_error (\<lambda>_. ErrBadPortRange portRange) (parse_uint 16 stop))
                 (\<lambda>b. Inr (of_nat a, of_nat b)))))"

fun parse_port_ranges :: "string list \<Rightarrow> build_error + (16 word \<times> 16 word) list" where
  "parse_port_ranges [] = Inr []"
| "parse_port_ranges (s # ss) =
     bind_res (parse_port_range s) (\<lambda>r. bind_res (parse_port_ranges ss) (\<lambda>rs. Inr (r # rs)))"

definition NewPortRangeItem :: "bool \<Rightarrow> string list \<Rightarrow> build_error + rule_item" where
  "NewPortRangeItem isSource rangeList =
     bind_res (parse_port_ranges rangeList) (\<lambda>rs. Inr (PortRangeItem isSource rangeList rs))"

definition NewSourceMACAddressItem :: "build_lib \<Rightarrow> string list \<Rightarrow> rule_item" where
  "NewSourceMACAddressItem L addressList =
     SourceMACAddressItem (map (\<lambda>a.
       case ParseMAC L a of Some mac \<Rightarrow> mac_String mac | None \<Rightarrow> a) addressList)"

definition is_space :: "char \<Rightarrow> bool" where
  "is_space c \<longleftrightarrow> (let n = of_char c :: nat in n = 32 \<or> 9 \<le> n \<and> n \<le> 13)"

definition TrimSpace :: "string \<Rightarrow> string" where
  "TrimSpace s = rev (dropWhile is_space (rev (dropWhile is_space s)))"

definition hex_value :: "char \<Rightarrow> nat option" where
  "hex_value c =
     (let n = of_char c :: nat in
      if 48 \<le> n \<and> n \<le> 57 then Some (n - 48)
      else if 97 \<le> n \<and> n \<le> 102 then Some (n - 87)
      else if 65 \<le> n \<and> n \<le> 70 then Some (n - 55) else None)"

fun hex_DecodeString :: "string \<Rightarrow> bytes option" where
  "hex_DecodeString [] = Some []"
| "hex_DecodeString [c] = None"
| "hex_DecodeString (c # d # cs) =
     (case (hex_value c, hex_value d, hex_DecodeString cs) of
        (Some x, Some y, Some bs) \<Rightarrow> Some (of_nat (16 * x + y) # bs)
      | _ \<Rightarrow> None)"

definition NormalizeWIFIBSSID :: "build_lib \<Rightarrow> string \<Rightarrow> string" where
  "NormalizeWIFIBSSID L bssid0 =
     (let bssid = TrimSpace bssid0 in
      if bssid = [] then []
      else
        (case ParseMAC L bssid of
           Some parsed \<Rightarrow> if length parsed = 6 then mac_String parsed
             else if length bssid = 12 then
               (case hex_DecodeString bssid of Some decoded \<Rightarrow> mac_String decoded | None \<Rightarrow> bssid)
             else bssid
         | None \<Rightarrow> if length bssid = 12 then
               (case hex_DecodeString bssid of Some decoded \<Rightarrow> mac_String decoded | None \<Rightarrow> bssid)
             else bssid))"

definition NewWIFIBSSIDItem :: "build_lib \<Rightarrow> string list \<Rightarrow> rule_item" where
  "NewWIFIBSSIDItem L bssidList = WIFIBSSIDItem (map (NormalizeWIFIBSSID L) bssidList)"

definition NewOutboundRule :: "string list \<Rightarrow> rule_item" where
  "NewOutboundRule outbounds =
     OutboundItem (filter (\<lambda>o'. o' \<noteq> ''any'') outbounds) (''any'' \<in> set outbounds)"

subsection \<open>Options\<close>

record match_options =
  o_Network :: "string list"
  o_Domain :: "string list"
  o_DomainSuffix :: "string list"
  o_DomainKeyword :: "string list"
  o_DomainRegex :: "string list"
  o_SourceIPCIDR :: "string list"
  o_IPCIDR :: "string list"
  o_SourcePort :: "16 word list"
  o_SourcePortRange :: "string list"
  o_Port :: "16 word list"
  o_PortRange :: "string list"
  o_ProcessName :: "string list"
  o_ProcessPath :: "string list"
  o_ProcessPathRegex :: "string list"
  o_PackageName :: "string list"
  o_PackageNameRegex :: "string list"
  o_NetworkType :: "nat list"
  o_NetworkIsExpensive :: bool
  o_NetworkIsConstrained :: bool
  o_WIFISSID :: "string list"
  o_WIFIBSSID :: "string list"
  o_NetworkInterfaceAddress :: "(nat \<times> ip_prefix list) list"
  o_DefaultInterfaceAddress :: "ip_prefix list"
  o_Invert :: bool

record headless_options = match_options +
  h_QueryType :: "16 word list"
  h_DomainMatcher :: "bytes option"
  h_SourceIPSet :: "bytes option"
  h_IPSet :: "bytes option"
  h_AdGuardDomain :: "string list"
  h_AdGuardDomainMatcher :: "bytes option"

record connection_options = match_options +
  o_Inbound :: "string list"
  o_IPVersion :: int
  o_AuthUser :: "string list"
  o_Protocol :: "string list"
  o_Geosite :: "string list"
  o_SourceGeoIP :: "string list"
  o_GeoIP :: "string list"
  o_SourceIPIsPrivate :: bool
  o_IPIsPrivate :: bool
  o_User :: "string list"
  o_UserID :: "int list"
  o_ClashMode :: string
  o_InterfaceAddress :: "(string \<times> ip_prefix list) list"
  o_SourceMACAddress :: "string list"
  o_SourceHostname :: "string list"
  o_PreferredBy :: "string list"
  o_RuleSet :: "string list"
  o_RuleSetIPCIDRMatchSource :: bool
  o_Deprecated_RulesetIPCIDRMatchSource :: bool

record route_options = connection_options +
  r_Client :: "string list"

record dns_options = connection_options +
  d_QueryType :: "16 word list"
  d_QueryClientSubnet :: "ip_prefix list"
  d_QueryDNSSEC :: bool
  d_IPAcceptAny :: bool
  d_ResponseRcode :: "int option"
  d_ResponseAnswer :: "dns_rr option list"
  d_ResponseNs :: "dns_rr option list"
  d_ResponseExtra :: "dns_rr option list"
  d_Outbound :: "string list"
  d_RuleSetIPCIDRAcceptEmpty :: bool
  d_MatchResponse :: "(bool \<times> string) option"

subsection \<open>Building a rule step by step\<close>

text \<open>
  The lists of items a rule has. A block of a constructor builds its item and appends it to the lists the
  block names, one statement per list: to one of the six groups and to \<^verbatim>\<open>allItems\<close>.
  Every step below spells out the lists of its block.
\<close>

datatype item_list = Items | SourceAddressItems | SourcePortItems | DestinationAddressItems
  | DestinationIPCIDRItems | DestinationPortItems | AllItems

fun append_item :: "item_list \<Rightarrow> rule_item \<Rightarrow> default_rule \<Rightarrow> default_rule" where
  "append_item l it (AbstractDefaultRule its sa sp da dip dp al rsi neg) =
     (case l of
        Items \<Rightarrow> AbstractDefaultRule (its @ [it]) sa sp da dip dp al rsi neg
      | SourceAddressItems \<Rightarrow> AbstractDefaultRule its (sa @ [it]) sp da dip dp al rsi neg
      | SourcePortItems \<Rightarrow> AbstractDefaultRule its sa (sp @ [it]) da dip dp al rsi neg
      | DestinationAddressItems \<Rightarrow> AbstractDefaultRule its sa sp (da @ [it]) dip dp al rsi neg
      | DestinationIPCIDRItems \<Rightarrow> AbstractDefaultRule its sa sp da (dip @ [it]) dp al rsi neg
      | DestinationPortItems \<Rightarrow> AbstractDefaultRule its sa sp da dip (dp @ [it]) al rsi neg
      | AllItems \<Rightarrow> AbstractDefaultRule its sa sp da dip dp (al @ [PlainItem it]) rsi neg)"

fun append_items :: "item_list list \<Rightarrow> rule_item \<Rightarrow> default_rule \<Rightarrow> default_rule" where
  "append_items [] it r = r"
| "append_items (l # ls) it r = append_items ls it (append_item l it r)"

fun add_rule_set :: "rule_set_item \<Rightarrow> default_rule \<Rightarrow> default_rule" where
  "add_rule_set rs (AbstractDefaultRule its sa sp da dip dp al rsi neg) =
     AbstractDefaultRule its sa sp da dip dp (al @ [TheRuleSetItem]) (Some rs) neg"

type_synonym step = "bool \<times> item_list list \<times> (build_error + rule_item)"

fun run_steps :: "step list \<Rightarrow> default_rule \<Rightarrow> build_error + default_rule" where
  "run_steps [] r = Inr r"
| "run_steps ((present, ls, item) # steps) r =
     (if present then bind_res item (\<lambda>it. run_steps steps (append_items ls it r)) else run_steps steps r)"

definition fail_if :: "bool \<Rightarrow> build_error \<Rightarrow> step" where
  "fail_if c e = (c, [], Inl e)"

definition under :: "string \<Rightarrow> build_error + rule_item \<Rightarrow> build_error + rule_item" where
  "under label = map_error (Cause label)"

definition empty_rule :: "bool \<Rightarrow> default_rule" where
  "empty_rule neg = AbstractDefaultRule [] [] [] [] [] [] [] None neg"

subsection \<open>Headless rules\<close>

definition headless_steps_1 :: "build_lib \<Rightarrow> headless_options \<Rightarrow> step list" where
  "headless_steps_1 L o' =
     [(h_QueryType o' \<noteq> [], [Items, AllItems], Inr (NewQueryTypeItem (h_QueryType o'))),
      (o_Network o' \<noteq> [], [Items, AllItems], Inr (NewNetworkItem (o_Network o'))),
      (o_Domain o' \<noteq> [] \<or> o_DomainSuffix o' \<noteq> [], [DestinationAddressItems, AllItems],
         NewDomainItem L (o_Domain o') (o_DomainSuffix o')),
      (\<not> (o_Domain o' \<noteq> [] \<or> o_DomainSuffix o' \<noteq> []) \<and> h_DomainMatcher o' \<noteq> None,
         [DestinationAddressItems, AllItems], Inr (NewRawDomainItem L (the (h_DomainMatcher o')))),
      (o_DomainKeyword o' \<noteq> [], [DestinationAddressItems, AllItems], Inr (NewDomainKeywordItem (o_DomainKeyword o'))),
      (o_DomainRegex o' \<noteq> [], [DestinationAddressItems, AllItems],
         under ''domain_regex'' (NewDomainRegexItem L (o_DomainRegex o'))),
      (o_SourceIPCIDR o' \<noteq> [], [SourceAddressItems, AllItems],
         under ''source_ip_cidr'' (NewIPCIDRItem L True (o_SourceIPCIDR o'))),
      (o_SourceIPCIDR o' = [] \<and> h_SourceIPSet o' \<noteq> None, [SourceAddressItems, AllItems],
         Inr (NewRawIPCIDRItem L True (the (h_SourceIPSet o')))),
      (o_IPCIDR o' \<noteq> [], [DestinationIPCIDRItems, AllItems], under ''ipcidr'' (NewIPCIDRItem L False (o_IPCIDR o'))),
      (o_IPCIDR o' = [] \<and> h_IPSet o' \<noteq> None, [DestinationIPCIDRItems, AllItems],
         Inr (NewRawIPCIDRItem L False (the (h_IPSet o')))),
      (o_SourcePort o' \<noteq> [], [SourcePortItems, AllItems], Inr (NewPortItem True (o_SourcePort o'))),
      (o_SourcePortRange o' \<noteq> [], [SourcePortItems, AllItems],
         under ''source_port_range'' (NewPortRangeItem True (o_SourcePortRange o'))),
      (o_Port o' \<noteq> [], [DestinationPortItems, AllItems], Inr (NewPortItem False (o_Port o'))),
      (o_PortRange o' \<noteq> [], [DestinationPortItems, AllItems],
         under ''port_range'' (NewPortRangeItem False (o_PortRange o')))]"

definition headless_steps_2 :: "build_lib \<Rightarrow> bool \<Rightarrow> headless_options \<Rightarrow> step list" where
  "headless_steps_2 L networkManager o' =
     [(o_ProcessName o' \<noteq> [], [Items, AllItems], Inr (NewProcessItem (o_ProcessName o'))),
      (o_ProcessPath o' \<noteq> [], [Items, AllItems], Inr (NewProcessPathItem (o_ProcessPath o'))),
      (o_ProcessPathRegex o' \<noteq> [], [Items, AllItems],
         under ''process_path_regex'' (NewProcessPathRegexItem L (o_ProcessPathRegex o'))),
      (o_PackageName o' \<noteq> [], [Items, AllItems], Inr (NewPackageNameItem (o_PackageName o'))),
      (o_PackageNameRegex o' \<noteq> [], [Items, AllItems],
         under ''package_name_regex'' (NewPackageNameRegexItem L (o_PackageNameRegex o'))),
      (networkManager \<and> o_NetworkType o' \<noteq> [], [Items, AllItems], Inr (NewNetworkTypeItem (o_NetworkType o'))),
      (networkManager \<and> o_NetworkIsExpensive o', [Items, AllItems], Inr NetworkIsExpensiveItem),
      (networkManager \<and> o_NetworkIsConstrained o', [Items, AllItems], Inr NetworkIsConstrainedItem),
      (networkManager \<and> o_WIFISSID o' \<noteq> [], [Items, AllItems], Inr (NewWIFISSIDItem (o_WIFISSID o'))),
      (networkManager \<and> o_WIFIBSSID o' \<noteq> [], [Items, AllItems], Inr (NewWIFIBSSIDItem L (o_WIFIBSSID o'))),
      (networkManager \<and> o_NetworkInterfaceAddress o' \<noteq> [], [Items, AllItems],
         Inr (NewNetworkInterfaceAddressItem (prefix_String L) (int_ToString L) (o_NetworkInterfaceAddress o'))),
      (networkManager \<and> o_DefaultInterfaceAddress o' \<noteq> [], [Items, AllItems],
         Inr (NewDefaultInterfaceAddressItem (o_DefaultInterfaceAddress o'))),
      (h_AdGuardDomain o' \<noteq> [], [DestinationAddressItems, AllItems],
         Inr (AdGuardDomainItem (NewAdGuardMatcher L (h_AdGuardDomain o')))),
      (h_AdGuardDomain o' = [] \<and> h_AdGuardDomainMatcher o' \<noteq> None, [DestinationAddressItems, AllItems],
         Inr (AdGuardDomainItem (AdGuardMatcher_of L (the (h_AdGuardDomainMatcher o')))))]"

definition NewDefaultHeadlessRule ::
  "build_lib \<Rightarrow> bool \<Rightarrow> headless_options \<Rightarrow> build_error + rule" where
  "NewDefaultHeadlessRule L networkManager o' =
     bind_res (run_steps (headless_steps_1 L o' @ headless_steps_2 L networkManager o')
       (empty_rule (o_Invert o'))) (\<lambda>r. Inr (DefaultHeadlessRule r))"

definition empty_headless_options :: headless_options where
  "empty_headless_options = \<lparr>o_Network = [], o_Domain = [], o_DomainSuffix = [], o_DomainKeyword = [],
     o_DomainRegex = [], o_SourceIPCIDR = [], o_IPCIDR = [], o_SourcePort = [],
     o_SourcePortRange = [], o_Port = [], o_PortRange = [], o_ProcessName = [], o_ProcessPath = [],
     o_ProcessPathRegex = [], o_PackageName = [], o_PackageNameRegex = [], o_NetworkType = [],
     o_NetworkIsExpensive = False, o_NetworkIsConstrained = False, o_WIFISSID = [],
     o_WIFIBSSID = [], o_NetworkInterfaceAddress = [], o_DefaultInterfaceAddress = [],
     o_Invert = False, h_QueryType = [], h_DomainMatcher = None, h_SourceIPSet = None,
     h_IPSet = None, h_AdGuardDomain = [], h_AdGuardDomainMatcher = None\<rparr>"

definition DefaultHeadlessRule_IsValid :: "headless_options \<Rightarrow> bool" where
  "DefaultHeadlessRule_IsValid o' \<longleftrightarrow> o' \<noteq> empty_headless_options\<lparr>o_Invert := o_Invert o'\<rparr>"

text \<open>\<^verbatim>\<open>option.HeadlessRule\<close>: the type, the options of a default rule, and those of a
  logical rule (mode, sub-rules, invert).\<close>

datatype headless_rule_options =
  HeadlessRuleOptions (ho_Type: string) (ho_Default: headless_options) (ho_Mode: string)
    (ho_Rules: "headless_rule_options list") (ho_Invert: bool)

text \<open>\<^verbatim>\<open>IsValid\<close> of a rule of unknown type panics: \<^const>\<open>None\<close>.\<close>

fun HeadlessRule_IsValid :: "headless_rule_options \<Rightarrow> bool option"
and all_valid :: "headless_rule_options list \<Rightarrow> bool option" where
  "HeadlessRule_IsValid (HeadlessRuleOptions t d mode rules neg) =
     (if t = [] \<or> t = ''default'' then Some (DefaultHeadlessRule_IsValid d)
      else if t = ''logical'' then (if rules = [] then Some False else all_valid rules)
      else None)"
| "all_valid [] = Some True"
| "all_valid (o' # os) =
     (case HeadlessRule_IsValid o' of None \<Rightarrow> None | Some b \<Rightarrow> if b then all_valid os else Some False)"

text \<open>\<^verbatim>\<open>NewHeadlessRule\<close> and \<^verbatim>\<open>NewLogicalHeadlessRule\<close>; a panic is \<^const>\<open>None\<close>.\<close>

fun NewHeadlessRule ::
  "build_lib \<Rightarrow> bool \<Rightarrow> headless_rule_options \<Rightarrow> (build_error + rule) option"
and new_sub_rules ::
  "build_lib \<Rightarrow> bool \<Rightarrow> headless_rule_options list \<Rightarrow> (build_error + rule list) option" where
  "NewHeadlessRule L nm (HeadlessRuleOptions t d mode rules neg) =
     (if t = [] \<or> t = ''default'' then
        (if \<not> DefaultHeadlessRule_IsValid d then Some (Inl MissingConditions)
         else Some (NewDefaultHeadlessRule L nm d))
      else if t = ''logical'' then
        (case (if rules = [] then Some False else all_valid rules) of
           None \<Rightarrow> None
         | Some False \<Rightarrow> Some (Inl MissingConditions)
         | Some True \<Rightarrow>
             (if mode = ''and'' \<or> mode = ''or'' then
                (case new_sub_rules L nm rules of None \<Rightarrow> None
                 | Some res \<Rightarrow> Some (bind_res res (\<lambda>rs. Inr (LogicalRule HeadlessKind mode rs neg))))
              else Some (Inl (UnknownLogicalMode mode))))
      else Some (Inl (UnknownRuleType t)))"
| "new_sub_rules L nm [] = Some (Inr [])"
| "new_sub_rules L nm (o' # os) =
     (case NewHeadlessRule L nm o' of
        None \<Rightarrow> None
      | Some (Inl e) \<Rightarrow> Some (Inl (Cause ''sub rule'' e))
      | Some (Inr r) \<Rightarrow>
          (case new_sub_rules L nm os of None \<Rightarrow> None
           | Some res \<Rightarrow> Some (bind_res res (\<lambda>rs. Inr (r # rs)))))"

subsection \<open>Rule-set metadata\<close>

fun HasHeadlessRule :: "headless_rule_options list \<Rightarrow> (headless_options \<Rightarrow> bool) \<Rightarrow> bool" where
  "HasHeadlessRule [] cond = False"
| "HasHeadlessRule (HeadlessRuleOptions t d mode rules neg # os) cond =
     (if t = ''default'' \<and> cond d then True
      else if t = ''logical'' \<and> HasHeadlessRule rules cond then True
      else HasHeadlessRule os cond)"

definition isProcessHeadlessRule :: "headless_options \<Rightarrow> bool" where
  "isProcessHeadlessRule o' \<longleftrightarrow> o_ProcessName o' \<noteq> [] \<or> o_ProcessPath o' \<noteq> [] \<or>
     o_ProcessPathRegex o' \<noteq> [] \<or> o_PackageName o' \<noteq> [] \<or> o_PackageNameRegex o' \<noteq> []"

definition isWIFIHeadlessRule :: "headless_options \<Rightarrow> bool" where
  "isWIFIHeadlessRule o' \<longleftrightarrow> o_WIFISSID o' \<noteq> [] \<or> o_WIFIBSSID o' \<noteq> []"

definition isIPCIDRHeadlessRule :: "headless_options \<Rightarrow> bool" where
  "isIPCIDRHeadlessRule o' \<longleftrightarrow> o_IPCIDR o' \<noteq> [] \<or> h_IPSet o' \<noteq> None"

definition isDNSQueryTypeHeadlessRule :: "headless_options \<Rightarrow> bool" where
  "isDNSQueryTypeHeadlessRule o' \<longleftrightarrow> h_QueryType o' \<noteq> []"

definition isNonIPCIDRHeadlessRule :: "headless_options \<Rightarrow> bool" where
  "isNonIPCIDRHeadlessRule o' \<longleftrightarrow>
     o' \<noteq> empty_headless_options\<lparr>o_IPCIDR := o_IPCIDR o', h_IPSet := h_IPSet o',
            o_Invert := o_Invert o'\<rparr>"

definition buildRuleSetMetadata :: "headless_rule_options list \<Rightarrow> RuleSetMetadata" where
  "buildRuleSetMetadata headlessRules =
     \<lparr>ContainsProcessRule = HasHeadlessRule headlessRules isProcessHeadlessRule,
      ContainsWIFIRule = HasHeadlessRule headlessRules isWIFIHeadlessRule,
      ContainsIPCIDRRule = HasHeadlessRule headlessRules isIPCIDRHeadlessRule,
      ContainsDNSQueryTypeRule = HasHeadlessRule headlessRules isDNSQueryTypeHeadlessRule,
      ContainsNonIPCIDRRule = HasHeadlessRule headlessRules isNonIPCIDRHeadlessRule\<rparr>"

text \<open>
  \<^verbatim>\<open>LocalRuleSet.reloadRules\<close> up to the swap of the rules: it builds every rule, computes the
  metadata and asks the validator the context may carry.
\<close>

fun build_rules ::
  "build_lib \<Rightarrow> bool \<Rightarrow> headless_rule_options list \<Rightarrow> (build_error + rule list) option" where
  "build_rules L nm [] = Some (Inr [])"
| "build_rules L nm (o' # os) =
     (case NewHeadlessRule L nm o' of
        None \<Rightarrow> None
      | Some (Inl e) \<Rightarrow> Some (Inl (Cause ''parse rule_set.rules'' e))
      | Some (Inr r) \<Rightarrow>
          (case build_rules L nm os of None \<Rightarrow> None
           | Some res \<Rightarrow> Some (bind_res res (\<lambda>rs. Inr (r # rs)))))"

definition reloadRules ::
  "build_lib \<Rightarrow> bool \<Rightarrow> (string \<Rightarrow> RuleSetMetadata \<Rightarrow> build_error option) \<Rightarrow> string \<Rightarrow>
   headless_rule_options list \<Rightarrow> (build_error + rule_set) option" where
  "reloadRules L nm validate tg headlessRules =
     (case build_rules L nm headlessRules of None \<Rightarrow> None
      | Some res \<Rightarrow> Some (bind_res res (\<lambda>rules.
          let metadata = buildRuleSetMetadata headlessRules in
          case validate tg metadata of Some e \<Rightarrow> Inl e
          | None \<Rightarrow> Inr (RuleSet tg rules metadata))))"

subsection \<open>Route rules\<close>

definition ip_version_step :: "int \<Rightarrow> step" where
  "ip_version_step v =
     (0 < v, [Items, AllItems], if v = 4 \<or> v = 6 then Inr (NewIPVersionItem (v = 6)) else Inl (InvalidIPVersion v))"

definition geo_steps :: "('e connection_options_scheme) \<Rightarrow> step list" where
  "geo_steps o' =
     [fail_if (o_Geosite o' \<noteq> []) (DeprecatedOption ''geosite''),
      fail_if (o_SourceGeoIP o' \<noteq> []) (DeprecatedOption ''geoip''),
      fail_if (o_GeoIP o' \<noteq> []) (DeprecatedOption ''geoip'')]"

definition route_steps_1 :: "build_lib \<Rightarrow> route_options \<Rightarrow> step list" where
  "route_steps_1 L o' =
     [(o_Inbound o' \<noteq> [], [Items, AllItems], Inr (NewInboundRule (o_Inbound o'))),
      ip_version_step (o_IPVersion o'),
      (o_Network o' \<noteq> [], [Items, AllItems], Inr (NewNetworkItem (o_Network o'))),
      (o_AuthUser o' \<noteq> [], [Items, AllItems], Inr (NewAuthUserItem (o_AuthUser o'))),
      (o_Protocol o' \<noteq> [], [Items, AllItems], Inr (NewProtocolItem (o_Protocol o'))),
      (r_Client o' \<noteq> [], [Items, AllItems], Inr (NewClientItem (r_Client o'))),
      (o_Domain o' \<noteq> [] \<or> o_DomainSuffix o' \<noteq> [], [DestinationAddressItems, AllItems],
         NewDomainItem L (o_Domain o') (o_DomainSuffix o')),
      (o_DomainKeyword o' \<noteq> [], [DestinationAddressItems, AllItems], Inr (NewDomainKeywordItem (o_DomainKeyword o'))),
      (o_DomainRegex o' \<noteq> [], [DestinationAddressItems, AllItems], NewDomainRegexItem L (o_DomainRegex o'))]
     @ geo_steps o' @
     [(o_SourceIPCIDR o' \<noteq> [], [SourceAddressItems, AllItems],
         under ''source_ip_cidr'' (NewIPCIDRItem L True (o_SourceIPCIDR o'))),
      (o_SourceIPIsPrivate o', [SourceAddressItems, AllItems], Inr (NewIPIsPrivateItem True)),
      (o_IPCIDR o' \<noteq> [], [DestinationIPCIDRItems, AllItems], under ''ipcidr'' (NewIPCIDRItem L False (o_IPCIDR o'))),
      (o_IPIsPrivate o', [DestinationIPCIDRItems, AllItems], Inr (NewIPIsPrivateItem False)),
      (o_SourcePort o' \<noteq> [], [SourcePortItems, AllItems], Inr (NewPortItem True (o_SourcePort o'))),
      (o_SourcePortRange o' \<noteq> [], [SourcePortItems, AllItems],
         under ''source_port_range'' (NewPortRangeItem True (o_SourcePortRange o'))),
      (o_Port o' \<noteq> [], [DestinationPortItems, AllItems], Inr (NewPortItem False (o_Port o'))),
      (o_PortRange o' \<noteq> [], [DestinationPortItems, AllItems],
         under ''port_range'' (NewPortRangeItem False (o_PortRange o')))]"

text \<open>The steps from the process fields to the user id, the same in route and DNS rules.\<close>

definition process_steps :: "build_lib \<Rightarrow> ('e connection_options_scheme) \<Rightarrow> step list" where
  "process_steps L o' =
     [(o_ProcessName o' \<noteq> [], [Items, AllItems], Inr (NewProcessItem (o_ProcessName o'))),
      (o_ProcessPath o' \<noteq> [], [Items, AllItems], Inr (NewProcessPathItem (o_ProcessPath o'))),
      (o_ProcessPathRegex o' \<noteq> [], [Items, AllItems],
         under ''process_path_regex'' (NewProcessPathRegexItem L (o_ProcessPathRegex o'))),
      (o_PackageName o' \<noteq> [], [Items, AllItems], Inr (NewPackageNameItem (o_PackageName o'))),
      (o_PackageNameRegex o' \<noteq> [], [Items, AllItems],
         under ''package_name_regex'' (NewPackageNameRegexItem L (o_PackageNameRegex o'))),
      (o_User o' \<noteq> [], [Items, AllItems], Inr (NewUserItem (o_User o'))),
      (o_UserID o' \<noteq> [], [Items, AllItems], Inr (NewUserIDItem (o_UserID o')))]"

text \<open>The steps from the Clash mode to the source hostname.\<close>

definition network_steps :: "build_lib \<Rightarrow> ('e connection_options_scheme) \<Rightarrow> step list" where
  "network_steps L o' =
     [(o_ClashMode o' \<noteq> [], [Items, AllItems], Inr (NewClashModeItem (o_ClashMode o'))),
      (o_NetworkType o' \<noteq> [], [Items, AllItems], Inr (NewNetworkTypeItem (o_NetworkType o'))),
      (o_NetworkIsExpensive o', [Items, AllItems], Inr NetworkIsExpensiveItem),
      (o_NetworkIsConstrained o', [Items, AllItems], Inr NetworkIsConstrainedItem),
      (o_WIFISSID o' \<noteq> [], [Items, AllItems], Inr (NewWIFISSIDItem (o_WIFISSID o'))),
      (o_WIFIBSSID o' \<noteq> [], [Items, AllItems], Inr (NewWIFIBSSIDItem L (o_WIFIBSSID o'))),
      (o_InterfaceAddress o' \<noteq> [], [Items, AllItems], Inr (NewInterfaceAddressItem (prefix_String L) (o_InterfaceAddress o'))),
      (o_NetworkInterfaceAddress o' \<noteq> [], [Items, AllItems],
         Inr (NewNetworkInterfaceAddressItem (prefix_String L) (int_ToString L) (o_NetworkInterfaceAddress o'))),
      (o_DefaultInterfaceAddress o' \<noteq> [], [Items, AllItems],
         Inr (NewDefaultInterfaceAddressItem (o_DefaultInterfaceAddress o'))),
      (o_SourceMACAddress o' \<noteq> [], [Items, AllItems], Inr (NewSourceMACAddressItem L (o_SourceMACAddress o'))),
      (o_SourceHostname o' \<noteq> [], [Items, AllItems], Inr (NewSourceHostnameItem (o_SourceHostname o')))]"

definition route_steps_2 :: "build_lib \<Rightarrow> route_options \<Rightarrow> step list" where
  "route_steps_2 L o' = process_steps L o' @ network_steps L o' @
     [(o_PreferredBy o' \<noteq> [], [Items, AllItems], Inr (NewPreferredByItem (o_PreferredBy o')))]"

definition rule_set_step ::
  "('e connection_options_scheme) \<Rightarrow> bool \<Rightarrow> default_rule \<Rightarrow> build_error + default_rule" where
  "rule_set_step o' acceptEmpty r =
     (if o_RuleSet o' = [] then Inr r
      else if o_Deprecated_RulesetIPCIDRMatchSource o'
      then Inl (DeprecatedOption ''rule_set_ipcidr_match_source'')
      else Inr (add_rule_set
        (RuleSetItem (o_RuleSet o') [] (o_RuleSetIPCIDRMatchSource o') acceptEmpty) r))"

definition NewDefaultRule :: "build_lib \<Rightarrow> route_options \<Rightarrow> build_error + rule" where
  "NewDefaultRule L o' =
     bind_res (run_steps (route_steps_1 L o' @ route_steps_2 L o') (empty_rule (o_Invert o'))) (\<lambda>r.
       bind_res (rule_set_step o' False r) (\<lambda>r'. Inr (DefaultRule r')))"

subsection \<open>DNS rules\<close>

definition dns_steps_1 :: "build_lib \<Rightarrow> dns_options \<Rightarrow> step list" where
  "dns_steps_1 L o' =
     [(o_Inbound o' \<noteq> [], [Items, AllItems], Inr (NewInboundRule (o_Inbound o'))),
      ip_version_step (o_IPVersion o'),
      (d_QueryType o' \<noteq> [], [Items, AllItems], Inr (NewQueryTypeItem (d_QueryType o'))),
      (d_QueryClientSubnet o' \<noteq> [], [Items, AllItems], Inr (NewQueryClientSubnetItem (d_QueryClientSubnet o'))),
      (d_QueryDNSSEC o', [Items, AllItems], Inr QueryDNSSECItem),
      (o_Network o' \<noteq> [], [Items, AllItems], Inr (NewNetworkItem (o_Network o'))),
      (o_AuthUser o' \<noteq> [], [Items, AllItems], Inr (NewAuthUserItem (o_AuthUser o'))),
      (o_Protocol o' \<noteq> [], [Items, AllItems], Inr (NewProtocolItem (o_Protocol o'))),
      (o_Domain o' \<noteq> [] \<or> o_DomainSuffix o' \<noteq> [], [DestinationAddressItems, AllItems],
         NewDomainItem L (o_Domain o') (o_DomainSuffix o')),
      (o_DomainKeyword o' \<noteq> [], [DestinationAddressItems, AllItems], Inr (NewDomainKeywordItem (o_DomainKeyword o'))),
      (o_DomainRegex o' \<noteq> [], [DestinationAddressItems, AllItems],
         under ''domain_regex'' (NewDomainRegexItem L (o_DomainRegex o')))]
     @ geo_steps o' @
     [(o_SourceIPCIDR o' \<noteq> [], [SourceAddressItems, AllItems],
         under ''source_ip_cidr'' (NewIPCIDRItem L True (o_SourceIPCIDR o'))),
      (o_IPCIDR o' \<noteq> [], [DestinationIPCIDRItems, AllItems], under ''ip_cidr'' (NewIPCIDRItem L False (o_IPCIDR o'))),
      (o_SourceIPIsPrivate o', [SourceAddressItems, AllItems], Inr (NewIPIsPrivateItem True)),
      (o_IPIsPrivate o', [DestinationIPCIDRItems, AllItems], Inr (NewIPIsPrivateItem False)),
      (d_IPAcceptAny o', [DestinationIPCIDRItems, AllItems], Inr IPAcceptAnyItem)]"

definition response_steps :: "dns_options \<Rightarrow> step list" where
  "response_steps o' =
     [(d_ResponseRcode o' \<noteq> None, [Items, AllItems], Inr (NewDNSResponseRCodeItem (the (d_ResponseRcode o')))),
      (d_ResponseAnswer o' \<noteq> [], [Items, AllItems], Inr (NewDNSResponseRecordItem (d_ResponseAnswer o') AnswerSection)),
      (d_ResponseNs o' \<noteq> [], [Items, AllItems], Inr (NewDNSResponseRecordItem (d_ResponseNs o') NsSection)),
      (d_ResponseExtra o' \<noteq> [], [Items, AllItems], Inr (NewDNSResponseRecordItem (d_ResponseExtra o') ExtraSection))]"

definition dns_steps_2 :: "build_lib \<Rightarrow> dns_options \<Rightarrow> step list" where
  "dns_steps_2 L o' =
     [(o_SourcePort o' \<noteq> [], [SourcePortItems, AllItems], Inr (NewPortItem True (o_SourcePort o'))),
      (o_SourcePortRange o' \<noteq> [], [SourcePortItems, AllItems],
         under ''source_port_range'' (NewPortRangeItem True (o_SourcePortRange o'))),
      (o_Port o' \<noteq> [], [DestinationPortItems, AllItems], Inr (NewPortItem False (o_Port o'))),
      (o_PortRange o' \<noteq> [], [DestinationPortItems, AllItems],
         under ''port_range'' (NewPortRangeItem False (o_PortRange o')))]
     @ process_steps L o' @
     [(d_Outbound o' \<noteq> [], [Items, AllItems], Inr (NewOutboundRule (d_Outbound o')))]
     @ network_steps L o' @
     [(o_PreferredBy o' \<noteq> [], [Items, AllItems], Inr (NewPreferredByDNSItem (o_PreferredBy o')))]"

definition IsEnabled :: "(bool \<times> string) option \<Rightarrow> bool" where
  "IsEnabled mr = (case mr of None \<Rightarrow> False | Some (enabled, tg) \<Rightarrow> enabled)"

definition ResponseTag :: "(bool \<times> string) option \<Rightarrow> string" where
  "ResponseTag mr = (case mr of None \<Rightarrow> [] | Some (enabled, tg) \<Rightarrow> tg)"

definition NewDefaultDNSRule :: "build_lib \<Rightarrow> bool \<Rightarrow> dns_options \<Rightarrow> build_error + rule" where
  "NewDefaultDNSRule L legacyDNSMode o' =
     bind_res (run_steps (dns_steps_1 L o' @ response_steps o' @ dns_steps_2 L o')
         (empty_rule (o_Invert o'))) (\<lambda>r.
       if d_RuleSetIPCIDRAcceptEmpty o' \<and> \<not> legacyDNSMode
       then Inl (DeprecatedOption ''rule_set_ip_cidr_accept_empty'')
       else bind_res (rule_set_step o' (d_RuleSetIPCIDRAcceptEmpty o') r) (\<lambda>r'.
         Inr (DefaultDNSRule r' (IsEnabled (d_MatchResponse o')) (ResponseTag (d_MatchResponse o')))))"

subsection \<open>What every constructed rule satisfies\<close>

lemma run_steps_inv:
  assumes "\<And>ls it r. P r \<Longrightarrow> Q ls it \<Longrightarrow> P (append_items ls it r)"
  shows "run_steps steps r = Inr r' \<Longrightarrow> P r \<Longrightarrow>
    list_all (\<lambda>(c, ls, i). c \<longrightarrow> (\<forall>it. i = Inr it \<longrightarrow> Q ls it)) steps \<Longrightarrow> P r'"
proof (induction steps arbitrary: r)
  case (Cons st steps)
  obtain c ls i where st: "st = (c, ls, i)" by (cases st)
  show ?case
  proof (cases c)
    case True
    then obtain it where "i = Inr it" "run_steps steps (append_items ls it r) = Inr r'"
      using Cons.prems(1) st by auto
    then show ?thesis using Cons.IH [of "append_items ls it r"] Cons.prems st True assms by auto
  next
    case False
    then show ?thesis using Cons st by auto
  qed
qed simp

definition slots_ok :: "default_rule \<Rightarrow> bool" where
  "slots_ok r \<longleftrightarrow> mset (allItems r) =
     mset (map PlainItem (items r @ sourceAddressItems r @ sourcePortItems r @
       destinationAddressItems r @ destinationIPCIDRItems r @ destinationPortItems r)) +
     (if ruleSetItem r = None then {#} else {#TheRuleSetItem#})"

text \<open>A block keeps the books if it appends its item to one group and to \<^verbatim>\<open>allItems\<close>.\<close>

fun booked :: "item_list list \<Rightarrow> bool" where
  "booked [l, AllItems] \<longleftrightarrow> l \<noteq> AllItems"
| "booked _ = False"

lemma slots_ok_booked: "slots_ok r \<Longrightarrow> booked ls \<Longrightarrow> slots_ok (append_items ls it r)"
  by (induction ls rule: booked.induct; cases r) (auto simp: slots_ok_def split: item_list.splits)

lemma slots_ok_rule_set: "slots_ok r \<Longrightarrow> ruleSetItem r = None \<Longrightarrow> slots_ok (add_rule_set rs r)"
  by (cases r) (simp add: slots_ok_def)

lemma append_item_keeps [simp]:
  "ruleSetItem (append_item l it r) = ruleSetItem r" "invert (append_item l it r) = invert r"
  by (cases r; cases l; simp)+

lemma append_items_keeps [simp]:
  "ruleSetItem (append_items ls it r) = ruleSetItem r" "invert (append_items ls it r) = invert r"
  by (induction ls arbitrary: r) simp_all

lemma empty_rule_ok: "slots_ok (empty_rule neg)" "ruleSetItem (empty_rule neg) = None"
  "fields_free src (empty_rule neg)"
  by (simp_all add: slots_ok_def empty_rule_def fields_free_def)

definition booked_steps :: "step list \<Rightarrow> bool" where
  "booked_steps = list_all (\<lambda>(c, ls, i). c \<longrightarrow> (\<forall>it. i = Inr it \<longrightarrow> booked ls))"

lemma booked_steps_simps [simp]:
  "booked_steps []"
  "booked_steps ((c, ls, i) # steps) \<longleftrightarrow> (c \<longrightarrow> (\<forall>it. i = Inr it \<longrightarrow> booked ls)) \<and> booked_steps steps"
  "booked_steps (xs @ ys) \<longleftrightarrow> booked_steps xs \<and> booked_steps ys"
  by (auto simp: booked_steps_def)

lemma run_steps_slots:
  assumes "run_steps steps (empty_rule neg) = Inr r" "booked_steps steps"
  shows "slots_ok r"
  by (rule run_steps_inv [OF _ assms(1), where Q = "\<lambda>ls _. booked ls"])
    (use assms(2) in \<open>simp_all add: slots_ok_booked empty_rule_ok booked_steps_def\<close>)

lemma run_steps_ruleSetItem:
  assumes "run_steps steps (empty_rule neg) = Inr r"
  shows "ruleSetItem r = None"
  by (rule run_steps_inv [OF _ assms, where Q = "\<lambda>_ _. True"])
    (simp_all add: empty_rule_ok case_prod_unfold list_all_iff)

text \<open>Every block of the three constructors does so.\<close>

lemma common_steps_booked:
  "booked_steps (process_steps L o')" "booked_steps (network_steps L o')" "booked_steps (geo_steps o')"
  "booked_steps (ip_version_step v # steps) = booked_steps steps"
  by (simp_all add: process_steps_def network_steps_def geo_steps_def fail_if_def ip_version_step_def)

lemma steps_booked:
  "booked_steps (headless_steps_1 L ho @ headless_steps_2 L nm ho)"
  "booked_steps (route_steps_1 L ro @ route_steps_2 L ro)"
  "booked_steps (dns_steps_1 L dno @ response_steps dno @ dns_steps_2 L dno)"
  by (simp_all add: headless_steps_1_def headless_steps_2_def route_steps_1_def route_steps_2_def dns_steps_1_def
    dns_steps_2_def response_steps_def common_steps_booked)

definition typed_item :: "bool \<Rightarrow> item_list list \<Rightarrow> rule_item \<Rightarrow> bool" where
  "typed_item src ls it \<longleftrightarrow> list_all (\<lambda>l. l = AllItems \<or>
     (if l = DestinationIPCIDRItems then src \<longrightarrow> is_cidr_item it else response_free it)) ls"

lemma fields_free_append: "fields_free src r \<Longrightarrow> typed_item src ls it \<Longrightarrow> fields_free src (append_items ls it r)"
proof (induction ls arbitrary: r)
  case (Cons l ls)
  then have "fields_free src (append_item l it r)"
    by (cases r; cases l) (simp_all add: fields_free_def typed_item_def)
  with Cons show ?case by (simp add: typed_item_def)
qed simp

definition typed_steps :: "bool \<Rightarrow> step list \<Rightarrow> bool" where
  "typed_steps src = list_all (\<lambda>(c, ls, i). c \<longrightarrow> (\<forall>it. i = Inr it \<longrightarrow> typed_item src ls it))"

lemma typed_steps_simps [simp]:
  "typed_steps src [] = True"
  "typed_steps src ((c, ls, i) # steps) \<longleftrightarrow> (c \<longrightarrow> (\<forall>it. i = Inr it \<longrightarrow> typed_item src ls it)) \<and> typed_steps src steps"
  "typed_steps src (xs @ ys) \<longleftrightarrow> typed_steps src xs \<and> typed_steps src ys"
  by (auto simp: typed_steps_def)

lemma run_steps_typed:
  assumes "run_steps steps (empty_rule neg) = Inr r" "typed_steps src steps"
  shows "fields_free src r"
  by (rule run_steps_inv [OF _ assms(1), where Q = "typed_item src"])
    (use assms(2) in \<open>simp_all add: fields_free_append empty_rule_ok typed_steps_def\<close>)

lemma under_Inr [simp]: "under l x = Inr it \<longleftrightarrow> x = Inr it"
  by (cases x) (simp_all add: under_def)

lemma item_shapes:
  "NewDomainItem L ds ss = Inr it \<Longrightarrow> response_free it"
  "NewDomainRegexItem L es = Inr it \<Longrightarrow> response_free it"
  "NewProcessPathRegexItem L es = Inr it \<Longrightarrow> response_free it"
  "NewPackageNameRegexItem L es = Inr it \<Longrightarrow> response_free it"
  "NewIPCIDRItem L True ps = Inr it \<Longrightarrow> response_free it"
  "NewIPCIDRItem L isSource ps = Inr it \<Longrightarrow> is_cidr_item it"
  "NewPortRangeItem isSource rs = Inr it \<Longrightarrow> response_free it"
  by (auto simp: NewDomainItem_def NewDomainRegexItem_def NewProcessPathRegexItem_def
    NewPackageNameRegexItem_def NewIPCIDRItem_def NewPortRangeItem_def Let_def
    split: if_splits option.splits)

lemma item_shapes_raw:
  "response_free (NewRawDomainItem L m)" "response_free (NewRawIPCIDRItem L True s)"
  "is_cidr_item (NewRawIPCIDRItem L b s)" "response_free (NewWIFIBSSIDItem L bs)"
  "response_free (NewSourceMACAddressItem L ms)" "response_free (NewOutboundRule os)"
  by (simp_all add: NewRawDomainItem_def NewRawIPCIDRItem_def NewWIFIBSSIDItem_def
    NewSourceMACAddressItem_def NewOutboundRule_def)

lemma headless_steps_typed: "typed_steps src (headless_steps_1 L o' @ headless_steps_2 L nm o')"
  by (auto simp: headless_steps_1_def headless_steps_2_def typed_item_def item_shapes_raw item_constructors
    intro: item_shapes)

lemma common_steps_typed:
  "typed_steps src (process_steps L o')" "typed_steps src (network_steps L o')" "typed_steps src (geo_steps o')"
  "typed_steps src (ip_version_step v # steps) = typed_steps src steps"
  by (auto simp: process_steps_def network_steps_def geo_steps_def fail_if_def ip_version_step_def
    typed_item_def item_shapes_raw item_constructors intro: item_shapes split: if_splits)

lemma dns_steps_typed: "typed_steps False (dns_steps_1 L o')" "typed_steps src (dns_steps_2 L o')"
  by (auto simp: dns_steps_1_def dns_steps_2_def common_steps_typed typed_item_def item_shapes_raw item_constructors
    intro: item_shapes)


lemma rule_set_step_slots:
  "rule_set_step o' acceptEmpty r = Inr r' \<Longrightarrow> slots_ok r \<Longrightarrow> ruleSetItem r = None \<Longrightarrow> slots_ok r'"
  by (auto simp: rule_set_step_def slots_ok_rule_set split: if_splits)

subsection \<open>A small library\<close>

definition sample_lib :: build_lib where
  "sample_lib =
     \<lparr>regexp_Compile = (\<lambda>e. if e = [] then None else Some (\<lambda>s. strings_Contains s e)),
      ParsePrefix = (\<lambda>s. if s = ''10.0.0.0/8'' then Some (IPPrefix (V4 0x0A000000) 8) else None),
      ParseAddr = (\<lambda>s. None), ParseMAC = (\<lambda>s. None),
      NewMatcher = (\<lambda>ds ss legacy h. h \<in> set ds), Matcher_of = (\<lambda>b h. False),
      NewAdGuardMatcher = (\<lambda>ls h. False), AdGuardMatcher_of = (\<lambda>b h. False),
      IPSet_build = (\<lambda>es. Some (\<lambda>a. list_ex (\<lambda>e.
        case e of Inl p \<Rightarrow> prefix_Contains p a | Inr b \<Rightarrow> a = b) es)),
      IPSet_of = (\<lambda>b a. False), prefix_String = (\<lambda>p. []), int_ToString = itoa\<rparr>"

definition sample_options :: headless_options where
  "sample_options = empty_headless_options\<lparr>o_Network := [''tcp''], o_IPCIDR := [''10.0.0.0/8'']\<rparr>"

lemma sample_build:
  "NewDefaultHeadlessRule sample_lib True sample_options = Inr (DefaultHeadlessRule
     (AbstractDefaultRule [NetworkItem [''tcp'']] [] [] []
       [IPCIDRItem (\<lambda>a. list_ex (\<lambda>e. case e of Inl p \<Rightarrow> prefix_Contains p a | Inr b \<Rightarrow> a = b)
          [Inl (IPPrefix (V4 0x0A000000) 8)]) False ''ip_cidr=10.0.0.0/8''] []
       [PlainItem (NetworkItem [''tcp'']),
        PlainItem (IPCIDRItem (\<lambda>a. list_ex (\<lambda>e. case e of Inl p \<Rightarrow> prefix_Contains p a | Inr b \<Rightarrow> a = b)
          [Inl (IPPrefix (V4 0x0A000000) 8)]) False ''ip_cidr=10.0.0.0/8'')] None False))"
  by (simp add: NewDefaultHeadlessRule_def headless_steps_1_def headless_steps_2_def sample_options_def
    empty_headless_options_def sample_lib_def empty_rule_def NewIPCIDRItem_def describe_short_def
    under_def item_constructors)

lemma sample_valid: "DefaultHeadlessRule_IsValid sample_options"
  by (simp add: DefaultHeadlessRule_IsValid_def sample_options_def empty_headless_options_def)

text \<open>
  C30: Every constructed default rule, headless, route or DNS, keeps its books: the list of all
  items holds exactly the items of the six groups, each once, plus the rule-set item when there is
  one.  In particular a constructed rule with no items at all has no condition in any group.
\<close>

theorem built_rule_slots:
  assumes "NewDefaultHeadlessRule L nm ho = Inr (DefaultHeadlessRule r) \<or>
    NewDefaultRule L ro = Inr (DefaultRule r) \<or>
    NewDefaultDNSRule L legacy dno = Inr (DefaultDNSRule r mr tg)"
  shows "slots_ok r"
  using assms
proof (elim disjE)
  assume "NewDefaultHeadlessRule L nm ho = Inr (DefaultHeadlessRule r)"
  then show ?thesis using run_steps_slots [OF _ steps_booked(1)] by (fastforce simp: NewDefaultHeadlessRule_def)
next
  assume "NewDefaultRule L ro = Inr (DefaultRule r)"
  then show ?thesis using run_steps_slots [OF _ steps_booked(2)] rule_set_step_slots run_steps_ruleSetItem
    by (fastforce simp: NewDefaultRule_def)
next
  assume "NewDefaultDNSRule L legacy dno = Inr (DefaultDNSRule r mr tg)"
  then show ?thesis using run_steps_slots [OF _ steps_booked(3)] rule_set_step_slots run_steps_ruleSetItem
    by (fastforce simp: NewDefaultDNSRule_def split: if_splits)
qed

theorem built_rule_slots_witness:
  "\<exists>r. NewDefaultHeadlessRule sample_lib True sample_options = Inr (DefaultHeadlessRule r) \<and>
     slots_ok r \<and> length (allItems r) = 2"
  using sample_build built_rule_slots [OF disjI1, OF sample_build] by fastforce

lemma fields_free_rule_set [simp]: "fields_free src (add_rule_set rs r) = fields_free src r"
  by (cases r) (simp add: fields_free_def)

text \<open>
  What the fragment \<open>legacy_ok\<close> asks of the fields of a rule holds of every constructed rule:
  always for a headless rule, in both modes of a rule-set, and for a DNS rule without
  \<^verbatim>\<open>response_*\<close> options.  Of the conditions of the fragment only the separation of domain and
  address fields remains a condition on the configuration.
\<close>

theorem built_rule_fields_free:
  assumes "NewDefaultHeadlessRule L nm ho = Inr (DefaultHeadlessRule r) \<or>
    NewDefaultDNSRule L legacy dno = Inr (DefaultDNSRule r mr tg) \<and> \<not> src \<and>
    d_ResponseRcode dno = None \<and> d_ResponseAnswer dno = [] \<and> d_ResponseNs dno = [] \<and> d_ResponseExtra dno = []"
  shows "fields_free src r"
proof (cases "NewDefaultHeadlessRule L nm ho = Inr (DefaultHeadlessRule r)")
  case True
  then show ?thesis
    using run_steps_typed [OF _ headless_steps_typed] by (auto simp: NewDefaultHeadlessRule_def)
next
  case False
  then have "typed_steps False (dns_steps_1 L dno @ response_steps dno @ dns_steps_2 L dno)"
    using assms by (simp add: dns_steps_typed response_steps_def)
  then show ?thesis
    using assms False run_steps_typed
    by (fastforce simp: NewDefaultDNSRule_def rule_set_step_def split: if_splits)
qed

theorem built_rule_fields_free_witness:
  "\<exists>r. NewDefaultHeadlessRule sample_lib True sample_options = Inr (DefaultHeadlessRule r) \<and>
     fields_free True r \<and> fields_free False r \<and> destinationIPCIDRItems r \<noteq> []"
  using sample_build built_rule_fields_free [OF disjI1, OF sample_build] by fastforce

subsection \<open>What the metadata of a loaded rule-set says\<close>

fun typed_options :: "headless_rule_options \<Rightarrow> bool" where
  "typed_options (HeadlessRuleOptions t d mode rules neg) \<longleftrightarrow>
     t = ''default'' \<or> t = ''logical'' \<and> list_all typed_options rules"

lemma dip_append_items: "destinationIPCIDRItems (append_items ls it r) = [] \<longleftrightarrow>
    DestinationIPCIDRItems \<notin> set ls \<and> destinationIPCIDRItems r = []"
proof (induction ls arbitrary: r)
  case (Cons l ls)
  have "destinationIPCIDRItems (append_item l it r) = [] \<longleftrightarrow> l \<noteq> DestinationIPCIDRItems \<and> destinationIPCIDRItems r = []"
    by (cases r; cases l) simp_all
  then show ?case using Cons.IH by auto
qed simp

lemma run_steps_dip:
  "run_steps steps r = Inr r' \<Longrightarrow> destinationIPCIDRItems r' = [] \<longleftrightarrow>
     destinationIPCIDRItems r = [] \<and> list_all (\<lambda>(c, ls, i). \<not> (c \<and> DestinationIPCIDRItems \<in> set ls)) steps"
proof (induction steps arbitrary: r)
  case (Cons st steps)
  obtain c ls i where st: "st = (c, ls, i)" by (cases st)
  show ?case
  proof (cases c)
    case True
    then obtain it where "i = Inr it" "run_steps steps (append_items ls it r) = Inr r'"
      using Cons.prems st by auto
    then show ?thesis using Cons.IH [of "append_items ls it r"] st True by (auto simp: dip_append_items)
  next
    case False
    then show ?thesis using Cons st by auto
  qed
qed simp

lemma headless_default_defers:
  assumes "NewDefaultHeadlessRule L nm o' = Inr r"
  shows "may_defer False r \<longleftrightarrow> isIPCIDRHeadlessRule o'"
proof -
  obtain d where d: "run_steps (headless_steps_1 L o' @ headless_steps_2 L nm o') (empty_rule (o_Invert o')) = Inr d"
    "r = DefaultHeadlessRule d"
    using assms by (auto simp: NewDefaultHeadlessRule_def)
  have "ruleSetItem d = None" by (rule run_steps_ruleSetItem [OF d(1)])
  moreover have "destinationIPCIDRItems d = [] \<longleftrightarrow> \<not> isIPCIDRHeadlessRule o'"
    unfolding run_steps_dip [OF d(1)]
    by (auto simp: headless_steps_1_def headless_steps_2_def isIPCIDRHeadlessRule_def empty_rule_def)
  ultimately show ?thesis using d(2) by (simp add: may_defer_default_eq defers_def)
qed

lemma HasHeadlessRule_iff:
  "HasHeadlessRule (os @ ps) cond \<longleftrightarrow> HasHeadlessRule os cond \<or> HasHeadlessRule ps cond"
  by (induction os cond rule: HasHeadlessRule.induct) auto

lemma new_headless_defers:
  "NewHeadlessRule L nm o' = Some (Inr r) \<Longrightarrow> typed_options o' \<Longrightarrow>
     may_defer False r \<longleftrightarrow> HasHeadlessRule [o'] isIPCIDRHeadlessRule"
  "new_sub_rules L nm os = Some (Inr rs) \<Longrightarrow> list_all typed_options os \<Longrightarrow>
     may_defer_rules False rs \<longleftrightarrow> HasHeadlessRule os isIPCIDRHeadlessRule"
proof (induction L nm o' and L nm os arbitrary: r and rs rule: NewHeadlessRule_new_sub_rules.induct)
  case (1 L nm t d mode rules neg)
  show ?case
  proof (cases "t = ''default''")
    case True
    then show ?thesis using 1 by (auto simp: headless_default_defers split: if_splits)
  next
    case False
    then show ?thesis using 1 by (auto split: if_splits option.splits bool.splits)
  qed
next
  case (2 L nm)
  then show ?case by simp
next
  case (3 L nm o' os)
  then show ?case using HasHeadlessRule_iff [of "[o']" os]
    by (auto split: option.splits sum.splits)
qed

lemma build_rules_defers:
  "build_rules L nm os = Some (Inr rs) \<Longrightarrow> list_all typed_options os \<Longrightarrow>
     may_defer_rules False rs \<longleftrightarrow> HasHeadlessRule os isIPCIDRHeadlessRule"
proof (induction os arbitrary: rs)
  case (Cons o' os)
  then show ?case using HasHeadlessRule_iff [of "[o']" os]
    by (auto simp: new_headless_defers(1) split: option.splits sum.splits)
qed simp

text \<open>
  The metadata a rule-set is loaded with is exact about addresses: it says that the rule-set
  contains address rules if and only if matching one of its rules can be deferred to the response.
  So \<^verbatim>\<open>WithAddressLimit\<close>, which only reads the metadata, misses no rule of a loaded rule-set.
\<close>

theorem reload_metadata_exact:
  assumes "reloadRules L nm validate tg hs = Some (Inr S)" "list_all typed_options hs"
  shows "ContainsIPCIDRRule (set_Metadata S) \<longleftrightarrow> may_defer_rules False (set_rules S)"
  using assms build_rules_defers
  by (auto simp: reloadRules_def buildRuleSetMetadata_def Let_def split: option.splits)

theorem reload_metadata_exact_witness:
  "\<exists>S. reloadRules sample_lib True (\<lambda>_ _. None) ''set''
      [HeadlessRuleOptions ''logical'' empty_headless_options ''or''
        [HeadlessRuleOptions ''default'' sample_options [] [] False] True] = Some (Inr S) \<and>
     ContainsIPCIDRRule (set_Metadata S) \<and> may_defer_rules False (set_rules S)"
proof -
  let ?hs = "[HeadlessRuleOptions ''logical'' empty_headless_options ''or''
        [HeadlessRuleOptions ''default'' sample_options [] [] False] True]"
  have "\<exists>S. reloadRules sample_lib True (\<lambda>_ _. None) ''set'' ?hs = Some (Inr S)"
    by (simp add: reloadRules_def sample_build sample_valid Let_def)
  then obtain S where S: "reloadRules sample_lib True (\<lambda>_ _. None) ''set'' ?hs = Some (Inr S)" by blast
  then have "ContainsIPCIDRRule (set_Metadata S)"
    by (auto simp: reloadRules_def buildRuleSetMetadata_def isIPCIDRHeadlessRule_def sample_options_def Let_def
      split: option.splits)
  moreover have "list_all typed_options ?hs" by simp
  ultimately show ?thesis using reload_metadata_exact [OF S] S by blast
qed

subsection \<open>Port ranges\<close>

lemma itoa_no_colon: "CHR '':'' \<notin> set (itoa n)"
  using itoa_digits [of "CHR '':''" n] by (auto simp: digit_of_def)

lemma takeWhile_no_colon:
  "CHR '':'' \<notin> set s \<Longrightarrow> takeWhile (\<lambda>c. c \<noteq> CHR '':'') (s @ CHR '':'' # t) = s"
  by (induction s) auto

lemma parse_port_range_sep:
  "CHR '':'' \<notin> set s \<Longrightarrow> parse_port_range (s @ CHR '':'' # t) =
     bind_res (if s \<noteq> [] then map_error (\<lambda>_. ErrBadPortRange (s @ CHR '':'' # t)) (parse_uint 16 s) else Inr 0)
       (\<lambda>a. bind_res (if t = [] then Inr 0xFFFF
                     else map_error (\<lambda>_. ErrBadPortRange (s @ CHR '':'' # t)) (parse_uint 16 t))
          (\<lambda>b. Inr (of_nat a, of_nat b)))"
  by (simp add: parse_port_range_def takeWhile_no_colon Let_def)

abbreviation port_of :: "bool \<Rightarrow> inbound_context \<Rightarrow> nat" where
  "port_of isSource m \<equiv> unat (if isSource then sa_Port (Source m) else sa_Port (Destination m))"

lemma port_le: "a < 2 ^ 16 \<Longrightarrow> of_nat a \<le> (w :: 16 word) \<longleftrightarrow> a \<le> unat w"
  "b < 2 ^ 16 \<Longrightarrow> (w :: 16 word) \<le> of_nat b \<longleftrightarrow> unat w \<le> b"
  by (simp_all add: word_le_nat_alt unat_of_nat take_bit_nat_eq_self)

text \<open>
  A port range written as two decimal numbers around a colon is accepted and matches exactly the
  ports between them, source or destination as asked; without the first number it starts at 0,
  without the second it ends at 65535; a range without a colon is refused.
\<close>

theorem port_range_item:
  assumes "a < 65536" "b < 65536"
  shows "(\<exists>it. NewPortRangeItem isSource [itoa a @ '':'' @ itoa b] = Inr it \<and>
      (\<forall>E m. item_match E it m \<longleftrightarrow> a \<le> port_of isSource m \<and> port_of isSource m \<le> b)) \<and>
    (\<exists>it. NewPortRangeItem isSource ['':'' @ itoa b] = Inr it \<and>
      (\<forall>E m. item_match E it m \<longleftrightarrow> port_of isSource m \<le> b)) \<and>
    (\<exists>it. NewPortRangeItem isSource [itoa a @ '':''] = Inr it \<and>
      (\<forall>E m. item_match E it m \<longleftrightarrow> a \<le> port_of isSource m)) \<and>
    NewPortRangeItem isSource [itoa a] = Inl (ErrBadPortRange (itoa a))"
proof -
  have max: "unat w \<le> 65535" "w \<le> 65535" for w :: "16 word"
    using unsigned_less [of w, where 'a = nat] by (simp_all add: word_le_nat_alt)
  show ?thesis
    using assms parse_port_range_sep [OF itoa_no_colon, of a "itoa b"]
      parse_port_range_sep [of "[]" "itoa b"] parse_port_range_sep [OF itoa_no_colon, of a "[]"]
    by (simp add: NewPortRangeItem_def parse_uint_itoa PortRangeItem_Match_def Let_def port_le max
      parse_port_range_def [of "itoa a"] itoa_no_colon)
qed

theorem port_range_item_witness:
  "NewPortRangeItem False [itoa 1000 @ '':'' @ itoa 2000] \<noteq> Inl (ErrBadPortRange ''x'') \<and>
   (\<exists>it. NewPortRangeItem False [itoa 1000 @ '':'' @ itoa 2000] = Inr it \<and>
     \<not> item_match sample_env it sample_context)"
proof -
  have "(1000 :: nat) < 65536" "(2000 :: nat) < 65536" by simp_all
  note p = port_range_item [OF this, of False]
  have "port_of False sample_context = 443" by (simp add: sample_context_def)
  then show ?thesis using p by fastforce
qed

end
