(* ===== verification/RuleReferences.thy ===== *)
theory RuleReferences
  imports RuleBuild
begin

unbundle bit_operations_syntax

text \<open>
  Which outbounds and DNS servers the rules can choose under the current Clash mode
  (\<^verbatim>\<open>route/reference_rule.go\<close>): rules are evaluated to always, never or unknown without a
  connection, and the targets of the rules that may match are collected up to a final rule that always
  matches.

  \<^item> \<open>rule_options\<close> are the options of a route or DNS rule, \<open>NewRule\<close> and \<open>NewDNSRule\<close> build the rules of
    the engine from them, \<open>matchRule\<close> and \<open>matchDNS\<close> are the loops of the two routers that
    choose a rule.
  \<^item> The locale \<open>static_rules\<close> is the interface between the evaluation of a single default rule and the
    rest: given that the evaluation of default rules is sound for the engine, so is that of
    logical rules. It is interpreted for route and for DNS rules.
\<close>

subsection \<open>Static evaluation\<close>

datatype staticMatch = staticMatchUnknown | staticMatchNever | staticMatchAlways

fun staticMatch_invert :: "staticMatch \<Rightarrow> staticMatch" where
  "staticMatch_invert staticMatchNever = staticMatchAlways"
| "staticMatch_invert staticMatchAlways = staticMatchNever"
| "staticMatch_invert staticMatchUnknown = staticMatchUnknown"

definition evaluateClashMode :: "string \<Rightarrow> string \<Rightarrow> bool \<Rightarrow> bool \<Rightarrow> staticMatch" where
  "evaluateClashMode clashMode mode neg otherConditions =
     (let match = (if clashMode \<noteq> '''' \<and> \<not> EqualFold clashMode mode then staticMatchNever
                   else if \<not> otherConditions then staticMatchAlways
                   else staticMatchUnknown)
      in if neg then staticMatch_invert match else match)"

fun logical_scan :: "string \<Rightarrow> staticMatch list \<Rightarrow> staticMatch \<Rightarrow> staticMatch" where
  "logical_scan logicalMode [] match = match"
| "logical_scan logicalMode (ruleMatch # matches) match =
     (if logicalMode = ''and'' \<and> ruleMatch = staticMatchNever then staticMatchNever
      else if logicalMode = ''or'' \<and> ruleMatch = staticMatchAlways then staticMatchAlways
      else logical_scan logicalMode matches (if ruleMatch = staticMatchUnknown then staticMatchUnknown else match))"

definition evaluateLogical :: "staticMatch list \<Rightarrow> string \<Rightarrow> bool \<Rightarrow> staticMatch" where
  "evaluateLogical matches logicalMode neg =
     (let match = logical_scan logicalMode matches
            (if logicalMode = ''and'' then staticMatchAlways else staticMatchNever)
      in if neg then staticMatch_invert match else match)"

text \<open>
  \<^verbatim>\<open>option.Rule\<close> and \<^verbatim>\<open>option.DNSRule\<close>: the type, the options of a default rule, those of a
  logical rule and the action of the one the type selects.
\<close>

datatype ('o, 'a) rule_options =
  RuleOptions (ro_Type: string) (ro_Default: 'o) (ro_Mode: string)
    (ro_Rules: "('o, 'a) rule_options list") (ro_Invert: bool) (ro_Action: 'a)

fun evaluate_options :: "('o \<Rightarrow> string \<Rightarrow> staticMatch) \<Rightarrow> ('o, 'a) rule_options \<Rightarrow> string \<Rightarrow> staticMatch" where
  "evaluate_options ev (RuleOptions t d lm rules neg a) mode =
     (if t = ''default'' then ev d mode
      else if t = ''logical'' then evaluateLogical (map (\<lambda>r. evaluate_options ev r mode) rules) lm neg
      else staticMatchUnknown)"

definition empty_route_options :: route_options where
  "empty_route_options = \<lparr>o_Network = [], o_Domain = [], o_DomainSuffix = [], o_DomainKeyword = [],
     o_DomainRegex = [], o_SourceIPCIDR = [], o_IPCIDR = [], o_SourcePort = [],
     o_SourcePortRange = [], o_Port = [], o_PortRange = [], o_ProcessName = [], o_ProcessPath = [],
     o_ProcessPathRegex = [], o_PackageName = [], o_PackageNameRegex = [], o_NetworkType = [],
     o_NetworkIsExpensive = False, o_NetworkIsConstrained = False, o_WIFISSID = [],
     o_WIFIBSSID = [], o_NetworkInterfaceAddress = [], o_DefaultInterfaceAddress = [],
     o_Invert = False, o_Inbound = [], o_IPVersion = 0, o_AuthUser = [], o_Protocol = [],
     o_Geosite = [], o_SourceGeoIP = [], o_GeoIP = [], o_SourceIPIsPrivate = False,
     o_IPIsPrivate = False, o_User = [], o_UserID = [], o_ClashMode = '''', o_InterfaceAddress = [],
     o_SourceMACAddress = [], o_SourceHostname = [], o_PreferredBy = [], o_RuleSet = [],
     o_RuleSetIPCIDRMatchSource = False, o_Deprecated_RulesetIPCIDRMatchSource = False,
     r_Client = []\<rparr>"

definition empty_dns_options :: dns_options where
  "empty_dns_options = connection_options.extend (connection_options.truncate empty_route_options)
     (dns_options.fields [] [] False False None [] [] [] [] False None)"

definition evaluate_route :: "route_options \<Rightarrow> string \<Rightarrow> staticMatch" where
  "evaluate_route o' mode = evaluateClashMode (o_ClashMode o') mode (o_Invert o')
     (o'\<lparr>o_ClashMode := '''', o_Invert := False\<rparr> \<noteq> empty_route_options)"

definition evaluate_dns :: "dns_options \<Rightarrow> string \<Rightarrow> staticMatch" where
  "evaluate_dns o' mode = evaluateClashMode (o_ClashMode o') mode (o_Invert o')
     (o'\<lparr>o_ClashMode := '''', o_Invert := False\<rparr> \<noteq> empty_dns_options)"

definition evaluateRule :: "(route_options, 'a) rule_options \<Rightarrow> string \<Rightarrow> staticMatch" where
  "evaluateRule = evaluate_options evaluate_route"

definition evaluateDNSRule :: "(dns_options, 'a) rule_options \<Rightarrow> string \<Rightarrow> staticMatch" where
  "evaluateDNSRule = evaluate_options evaluate_dns"

subsection \<open>Collecting references\<close>

text \<open>
  The actions, with what the collection and the routers read of them. \<open>NoAction\<close> is the zero value of
  the options.
\<close>

datatype route_action =
    NoAction
  | RouteAction string
  | RouteOptionsAction
  | BypassAction string
  | RejectAction
  | HijackDNSAction
  | SniffAction
  | ResolveAction string

fun action_targets :: "route_action \<Rightarrow> string list \<times> string list \<times> bool" where
  "action_targets (RouteAction outbound) = ([outbound], [], True)"
| "action_targets (BypassAction outbound) = (if outbound \<noteq> '''' then ([outbound], [], True) else ([], [], False))"
| "action_targets RejectAction = ([], [], True)"
| "action_targets HijackDNSAction = ([], [], True)"
| "action_targets (ResolveAction server) = ([], [server], False)"
| "action_targets _ = ([], [], False)"

fun collectRuleReferences ::
  "(route_options, route_action) rule_options list \<Rightarrow> string \<Rightarrow> string list \<Rightarrow> string list
   \<Rightarrow> bool \<times> string list \<times> string list" where
  "collectRuleReferences [] mode outs transports = (False, outs, transports)"
| "collectRuleReferences (r # rules) mode outs transports =
     (let match = evaluateRule r mode in
      if match = staticMatchNever then collectRuleReferences rules mode outs transports
      else
        (let (os, ts, final) =
           (if ro_Type r = ''default'' \<or> ro_Type r = ''logical'' then action_targets (ro_Action r) else ([], [], False));
             outs = outs @ os; transports = transports @ ts
         in if final \<and> match = staticMatchAlways then (True, outs, transports)
            else collectRuleReferences rules mode outs transports))"

text \<open>
  DNS actions carry the options of \<^verbatim>\<open>RuleActionDNSRouteOptions\<close>; an absent client subnet is \<^term>\<open>None\<close>.
  \<open>da_Race\<close> is the flag \<^verbatim>\<open>race\<close>, which any action may have.
\<close>

record dns_route_options =
  dr_Strategy :: nat
  dr_Timeout :: int
  dr_DisableCache :: bool
  dr_DisableOptimisticCache :: bool
  dr_RewriteTTL :: "32 word option"
  dr_ClientSubnet :: "ip_prefix option"
  dr_RemoveClientSubnet :: bool

datatype dns_action =
    NoDNSAction
  | DNSRouteAction string dns_route_options bool
  | DNSRouteOptionsAction dns_route_options
  | DNSEvaluateAction string dns_route_options string bool
  | DNSRespondAction
  | DNSRejectAction string
  | DNSPredefinedAction

record dns_rule_action =
  da_Action :: dns_action
  da_Race :: bool

fun dns_action_targets :: "dns_action \<Rightarrow> string list \<times> bool" where
  "dns_action_targets (DNSRouteAction server opts speculative) = ([server], True)"
| "dns_action_targets (DNSEvaluateAction server opts tag speculative) = ([server], False)"
| "dns_action_targets DNSRespondAction = ([], True)"
| "dns_action_targets (DNSRejectAction reject_method) = ([], True)"
| "dns_action_targets DNSPredefinedAction = ([], True)"
| "dns_action_targets _ = ([], False)"

fun collectDNSRuleReferences ::
  "(dns_options, dns_rule_action) rule_options list \<Rightarrow> string \<Rightarrow> string list \<Rightarrow> bool \<times> string list" where
  "collectDNSRuleReferences [] mode transports = (False, transports)"
| "collectDNSRuleReferences (r # rules) mode transports =
     (let match = evaluateDNSRule r mode in
      if match = staticMatchNever then collectDNSRuleReferences rules mode transports
      else
        (let (ts, final) =
           (if ro_Type r = ''default'' \<or> ro_Type r = ''logical'' then dns_action_targets (da_Action (ro_Action r)) else ([], False));
             transports = transports @ ts
         in if final \<and> match = staticMatchAlways then (True, transports)
            else collectDNSRuleReferences rules mode transports))"

subsection \<open>Building the rules\<close>

text \<open>
  \<^verbatim>\<open>IsValid\<close> of the options; a rule of unknown type panics. \<open>valid\<close> is the check of a default rule:
  it compares the conditions and the action with their zero value, but for \<^verbatim>\<open>invert\<close>.
\<close>

fun Rule_IsValid :: "('o \<Rightarrow> 'a \<Rightarrow> bool) \<Rightarrow> ('o, 'a) rule_options \<Rightarrow> bool option"
and Rules_IsValid :: "('o \<Rightarrow> 'a \<Rightarrow> bool) \<Rightarrow> ('o, 'a) rule_options list \<Rightarrow> bool option" where
  "Rule_IsValid valid (RuleOptions t d lm rules neg a) =
     (if t = ''default'' then Some (valid d a)
      else if t = ''logical'' then (if rules = [] then Some False else Rules_IsValid valid rules)
      else None)"
| "Rules_IsValid valid [] = Some True"
| "Rules_IsValid valid (r # rules) =
     (case Rule_IsValid valid r of None \<Rightarrow> None | Some b \<Rightarrow> if b then Rules_IsValid valid rules else Some False)"

fun validateNoNestedRuleActions :: "('a \<Rightarrow> bool) \<Rightarrow> bool \<Rightarrow> ('o, 'a) rule_options \<Rightarrow> bool" where
  "validateNoNestedRuleActions configured nested (RuleOptions t d lm rules neg a) =
     (if nested \<and> (t = [] \<or> t = ''default'' \<or> t = ''logical'') \<and> configured a then False
      else if t \<noteq> ''logical'' then True
      else list_all (validateNoNestedRuleActions configured True) rules)"

text \<open>
  \<^verbatim>\<open>NewRule\<close> with \<^verbatim>\<open>NewLogicalRule\<close>, and in the same form \<^verbatim>\<open>NewDNSRule\<close>. \<open>check\<close> are the checks of
  the action, \<open>build\<close> builds a default rule, \<open>finish\<close> are the checks of a logical rule
  after its sub-rules; \<open>outer\<close> is set for a rule that is no sub-rule.
\<close>

record ('o, 'a) rule_builder =
  rb_valid :: "'o \<Rightarrow> 'a \<Rightarrow> bool"
  rb_configured :: "'a \<Rightarrow> bool"
  rb_check :: "bool \<Rightarrow> 'o option \<Rightarrow> 'a \<Rightarrow> build_error option"
  rb_build :: "'o \<Rightarrow> 'a \<Rightarrow> build_error + rule"
  rb_finish :: "'a \<Rightarrow> rule list \<Rightarrow> build_error option"
  rb_kind :: rule_kind

fun new_rule :: "('o, 'a) rule_builder \<Rightarrow> bool \<Rightarrow> ('o, 'a) rule_options \<Rightarrow> (build_error + rule) option"
and new_rules :: "('o, 'a) rule_builder \<Rightarrow> ('o, 'a) rule_options list \<Rightarrow> (build_error + rule list) option" where
  "new_rule B outer (RuleOptions t d lm rules neg a) =
     (if t = [] \<or> t = ''default'' then
        Some (if \<not> rb_valid B d a then Inl MissingConditions
              else case rb_check B outer (Some d) a of Some e \<Rightarrow> Inl e | None \<Rightarrow> rb_build B d a)
      else if t = ''logical'' then
        (case (if rules = [] then Some False else Rules_IsValid (rb_valid B) rules) of
           None \<Rightarrow> None
         | Some False \<Rightarrow> Some (Inl MissingConditions)
         | Some True \<Rightarrow>
             (case rb_check B outer None a of
                Some e \<Rightarrow> Some (Inl e)
              | None \<Rightarrow>
                  if lm = ''and'' \<or> lm = ''or'' then
                    map_option (\<lambda>res. bind_res res (\<lambda>rs.
                        case rb_finish B a rs of Some e \<Rightarrow> Inl e | None \<Rightarrow> Inr (LogicalRule (rb_kind B) lm rs neg)))
                      (new_rules B rules)
                  else Some (Inl (UnknownLogicalMode lm))))
      else Some (Inl (UnknownRuleType t)))"
| "new_rules B [] = Some (Inr [])"
| "new_rules B (r # rules) =
     (if \<not> validateNoNestedRuleActions (rb_configured B) True r then Some (Inl (Cause ''sub rule'' NestedAction))
      else case new_rule B False r of
             None \<Rightarrow> None
           | Some (Inl e) \<Rightarrow> Some (Inl (Cause ''sub rule'' e))
           | Some (Inr x) \<Rightarrow>
               map_option (\<lambda>res. bind_res res (\<lambda>rs. Inr (x # rs))) (new_rules B rules))"

definition DefaultRule_IsValid :: "route_options \<Rightarrow> route_action \<Rightarrow> bool" where
  "DefaultRule_IsValid d a \<longleftrightarrow> \<not> (d = empty_route_options\<lparr>o_Invert := o_Invert d\<rparr> \<and> a = NoAction)"

definition check_route :: "bool \<Rightarrow> route_options option \<Rightarrow> route_action \<Rightarrow> build_error option" where
  "check_route checkOutbound d a =
     (if checkOutbound \<and> (a = NoAction \<or> a = RouteAction '''') then Some (MissingField ''outbound'') else None)"

definition route_builder :: "build_lib \<Rightarrow> (route_options, route_action) rule_builder" where
  "route_builder L =
     \<lparr>rb_valid = DefaultRule_IsValid, rb_configured = (\<lambda>a. a \<noteq> NoAction), rb_check = check_route,
      rb_build = (\<lambda>d a. NewDefaultRule L d), rb_finish = (\<lambda>a rs. None), rb_kind = RouteKind\<rparr>"

definition NewRule ::
  "build_lib \<Rightarrow> bool \<Rightarrow> (route_options, route_action) rule_options \<Rightarrow> (build_error + rule) option" where
  "NewRule L = new_rule (route_builder L)"

definition zero_dns_action :: dns_rule_action where
  "zero_dns_action = \<lparr>da_Action = NoDNSAction, da_Race = False\<rparr>"

definition DefaultDNSRule_IsValid :: "dns_options \<Rightarrow> dns_rule_action \<Rightarrow> bool" where
  "DefaultDNSRule_IsValid d a \<longleftrightarrow> \<not> (d = empty_dns_options\<lparr>o_Invert := o_Invert d\<rparr> \<and> a = zero_dns_action)"

definition subnet_conflict :: "dns_route_options \<Rightarrow> bool" where
  "subnet_conflict opts \<longleftrightarrow> dr_RemoveClientSubnet opts \<and> dr_ClientSubnet opts \<noteq> None"

definition validateDNSRuleAction :: "dns_rule_action \<Rightarrow> build_error option" where
  "validateDNSRuleAction a =
     (if da_Action a = DNSRejectAction ''reply'' then Some (InvalidOption ''reply'')
      else if (case da_Action a of
                 DNSRouteAction server opts speculative \<Rightarrow> subnet_conflict opts
               | DNSEvaluateAction server opts tag speculative \<Rightarrow> subnet_conflict opts
               | DNSRouteOptionsAction opts \<Rightarrow> subnet_conflict opts
               | _ \<Rightarrow> False) then Some (InvalidOption ''client_subnet'')
      else if da_Race a then
        (case da_Action a of
           DNSRouteAction server opts speculative \<Rightarrow>
             if speculative then Some (InvalidOption ''speculative'') else None
         | DNSEvaluateAction server opts tag speculative \<Rightarrow> Some (InvalidOption ''race'')
         | DNSRouteOptionsAction opts \<Rightarrow> Some (InvalidOption ''race'')
         | _ \<Rightarrow> None)
      else None)"

definition check_dns :: "bool \<Rightarrow> dns_options option \<Rightarrow> dns_rule_action \<Rightarrow> build_error option" where
  "check_dns checkServer d a =
     (if \<not> checkServer \<and> (case da_Action a of DNSEvaluateAction server opts tag speculative \<Rightarrow> True | _ \<Rightarrow> False)
      then Some NestedAction
      else case validateDNSRuleAction a of
             Some e \<Rightarrow> Some e
           | None \<Rightarrow>
               if da_Race a \<and> (case d of None \<Rightarrow> False | Some d \<Rightarrow> \<not> IsEnabled (d_MatchResponse d))
               then Some RaceRequiresMatchResponse
               else if checkServer \<and> (case da_Action a of
                    NoDNSAction \<Rightarrow> True
                  | DNSRouteAction server opts speculative \<Rightarrow> server = ''''
                  | DNSEvaluateAction server opts tag speculative \<Rightarrow> server = ''''
                  | _ \<Rightarrow> False)
               then Some (MissingField ''server'') else None)"

text \<open>The responses a built DNS rule refers to: by name, and the last one without a name.\<close>

fun MatchResponseTags :: "rule \<Rightarrow> string list" where
  "MatchResponseTags (DefaultDNSRule r matchResponse tag) = (if tag = '''' then [] else [tag])"
| "MatchResponseTags (LogicalRule k mode rules neg) =
     rev (remdups (rev (concat (map (\<lambda>sub. if is_dns_rule sub then MatchResponseTags sub else []) rules))))"
| "MatchResponseTags _ = []"

fun MatchResponseAnonymous :: "rule \<Rightarrow> bool" where
  "MatchResponseAnonymous (DefaultDNSRule r matchResponse tag) \<longleftrightarrow> matchResponse \<and> tag = ''''"
| "MatchResponseAnonymous (LogicalRule k mode rules neg) =
     list_ex (\<lambda>sub. is_dns_rule sub \<and> MatchResponseAnonymous sub) rules"
| "MatchResponseAnonymous _ = False"

definition matches_response :: "rule \<Rightarrow> bool" where
  "matches_response r \<longleftrightarrow> MatchResponseTags r \<noteq> [] \<or> MatchResponseAnonymous r"

definition dns_builder :: "build_lib \<Rightarrow> bool \<Rightarrow> (dns_options, dns_rule_action) rule_builder" where
  "dns_builder L legacyDNSMode =
     \<lparr>rb_valid = DefaultDNSRule_IsValid, rb_configured = (\<lambda>a. a \<noteq> zero_dns_action), rb_check = check_dns,
      rb_build = (\<lambda>d a. NewDefaultDNSRule L legacyDNSMode d),
      rb_finish = (\<lambda>a rs. if da_Race a \<and> \<not> list_ex matches_response rs then Some RaceRequiresMatchResponse else None),
      rb_kind = DNSKind\<rparr>"

definition NewDNSRule ::
  "build_lib \<Rightarrow> bool \<Rightarrow> bool \<Rightarrow> (dns_options, dns_rule_action) rule_options \<Rightarrow> (build_error + rule) option" where
  "NewDNSRule L checkServer legacyDNSMode = new_rule (dns_builder L legacyDNSMode) checkServer"

subsection \<open>Choosing a rule\<close>

text \<open>
  The loop of \<^verbatim>\<open>matchRule\<close>. \<open>act\<close> is what the action of a matched rule does to the metadata (route
  options, sniffing, resolving), \<^term>\<open>None\<close> a fatal error. The result is the action of the
  selected rule, if one was selected.
\<close>

fun final_action :: "route_action \<Rightarrow> bool" where
  "final_action (RouteAction outbound) = True"
| "final_action RejectAction = True"
| "final_action HijackDNSAction = True"
| "final_action (BypassAction outbound) \<longleftrightarrow> outbound \<noteq> ''''"
| "final_action _ = False"

fun matchRule ::
  "rule_env \<Rightarrow> (route_action \<Rightarrow> inbound_context \<Rightarrow> inbound_context option) \<Rightarrow> (rule \<times> route_action) list
   \<Rightarrow> inbound_context \<Rightarrow> route_action option option" where
  "matchRule E act [] m = Some None"
| "matchRule E act ((r, a) # rules) m =
     (let (b, m1) = rule_Match E r (ResetRuleCache m) in
      if \<not> b then matchRule E act rules m1
      else case act a m1 of
             None \<Rightarrow> None
           | Some m2 \<Rightarrow> if final_action a then Some (Some a) else matchRule E act rules m2)"

text \<open>
  \<^verbatim>\<open>matchDNS\<close>, the loop of the DNS router in legacy mode. \<open>transport\<close> is the lookup of a server, with whether
  it is a fakeip server.
\<close>

record dns_query_options =
  q_Strategy :: nat
  q_DisableCache :: bool
  q_DisableOptimisticCache :: bool
  q_RewriteTTL :: "32 word option"
  q_Timeout :: int
  q_ClientSubnet :: "ip_prefix option"
  q_RemoveClientSubnet :: bool

definition apply_dns_options :: "dns_route_options \<Rightarrow> bool \<Rightarrow> dns_query_options \<Rightarrow> dns_query_options" where
  "apply_dns_options opts isFakeIP q =
     (let q = (if dr_Strategy opts \<noteq> 0 then q\<lparr>q_Strategy := dr_Strategy opts\<rparr> else q);
          q = (if isFakeIP \<or> dr_DisableCache opts then q\<lparr>q_DisableCache := True\<rparr> else q);
          q = (if dr_RewriteTTL opts \<noteq> None then q\<lparr>q_RewriteTTL := dr_RewriteTTL opts\<rparr> else q);
          q = (if dr_Timeout opts > 0 then q\<lparr>q_Timeout := dr_Timeout opts\<rparr> else q);
          q = (if dr_ClientSubnet opts \<noteq> None
               then q\<lparr>q_ClientSubnet := dr_ClientSubnet opts, q_RemoveClientSubnet := False\<rparr> else q)
      in if dr_RemoveClientSubnet opts then q\<lparr>q_ClientSubnet := None, q_RemoveClientSubnet := True\<rparr> else q)"

datatype dns_choice = ServerChoice string nat | RuleChoice nat | DefaultChoice

fun matchDNS ::
  "rule_env \<Rightarrow> (string \<Rightarrow> bool option) \<Rightarrow> bool \<Rightarrow> bool \<Rightarrow> nat \<Rightarrow> (rule \<times> dns_action) list \<Rightarrow> inbound_context
   \<Rightarrow> dns_query_options \<Rightarrow> dns_choice \<times> dns_query_options" where
  "matchDNS E transport allowFakeIP isAddressQuery i [] m q = (DefaultChoice, q)"
| "matchDNS E transport allowFakeIP isAddressQuery i ((r, a) # rules) m q =
     (if WithAddressLimit r \<and> \<not> isAddressQuery
      then matchDNS E transport allowFakeIP isAddressQuery (i + 1) rules m q
      else
        (let (b, m1) = LegacyPreMatch E r ((ResetRuleCache m)\<lparr>DestinationAddressMatchFromResponse := False\<rparr>) in
         if \<not> b then matchDNS E transport allowFakeIP isAddressQuery (i + 1) rules m1 q
         else case a of
                DNSRouteAction server opts speculative \<Rightarrow>
                  (case transport server of
                     None \<Rightarrow> matchDNS E transport allowFakeIP isAddressQuery (i + 1) rules m1 q
                   | Some isFakeIP \<Rightarrow>
                       if isFakeIP \<and> \<not> allowFakeIP
                       then matchDNS E transport allowFakeIP isAddressQuery (i + 1) rules m1 q
                       else (ServerChoice server i, apply_dns_options opts isFakeIP q))
              | DNSRouteOptionsAction opts \<Rightarrow>
                  matchDNS E transport allowFakeIP isAddressQuery (i + 1) rules m1 (apply_dns_options opts False q)
              | DNSRejectAction reject_method \<Rightarrow> (RuleChoice i, q)
              | DNSPredefinedAction \<Rightarrow> (RuleChoice i, q)
              | _ \<Rightarrow> matchDNS E transport allowFakeIP isAddressQuery (i + 1) rules m1 q))"

subsection \<open>What the evaluation says about the engine\<close>

text \<open>The rule-sets of a rule are filled in when it is started.\<close>

fun fill_default :: "(string list \<Rightarrow> rule_set list) \<Rightarrow> default_rule \<Rightarrow> default_rule" where
  "fill_default F (AbstractDefaultRule its sa sp da dip dp al rsi neg) =
     AbstractDefaultRule its sa sp da dip dp al
       (map_option (\<lambda>rs. case rs of RuleSetItem tags sets src ae \<Rightarrow> RuleSetItem tags (F tags) src ae) rsi) neg"

fun fill_sets :: "(string list \<Rightarrow> rule_set list) \<Rightarrow> rule \<Rightarrow> rule" where
  "fill_sets F (DefaultRule r) = DefaultRule (fill_default F r)"
| "fill_sets F (DefaultHeadlessRule r) = DefaultHeadlessRule (fill_default F r)"
| "fill_sets F (DefaultDNSRule r matchResponse tag) = DefaultDNSRule (fill_default F r) matchResponse tag"
| "fill_sets F (LogicalRule k mode rules neg) = LogicalRule k mode (map (fill_sets F) rules) neg"

lemma fill_default_sel [simp]:
  "items (fill_default F r) = items r" "allItems (fill_default F r) = allItems r" "invert (fill_default F r) = invert r"
  by (cases r; simp)+

definition static_ok :: "rule_env \<Rightarrow> rule \<Rightarrow> staticMatch \<Rightarrow> bool" where
  "static_ok E r s \<longleftrightarrow> (\<forall>m. DeferredIPCIDRMatchGroups m = 0 \<longrightarrow>
     (case s of
        staticMatchUnknown \<Rightarrow> True
      | staticMatchNever \<Rightarrow> \<not> fst (rule_Match E r m)
      | staticMatchAlways \<Rightarrow> fst (rule_Match E r m) \<and> DeferredIPCIDRMatchGroups (snd (rule_Match E r m)) = 0))"

lemma reset_deferred [simp]: "DeferredIPCIDRMatchGroups (ResetRuleCache m) = 0"
  by (simp add: ResetRuleCache_def ResetRuleMatchCache_def)

lemma static_okD:
  "static_ok E r staticMatchNever \<Longrightarrow> \<not> fst (rule_Match E r (ResetRuleCache m))"
  "static_ok E r staticMatchAlways \<Longrightarrow> fst (rule_Match E r (ResetRuleCache m))"
  "static_ok E r staticMatchAlways \<Longrightarrow> DeferredIPCIDRMatchGroups (snd (rule_Match E r (ResetRuleCache m))) = 0"
  by (simp_all add: static_ok_def)

lemma logical_scan_and: "logical_scan ''and'' ss s0 =
    (if staticMatchNever \<in> set ss then staticMatchNever
     else if staticMatchUnknown \<in> set ss then staticMatchUnknown else s0)"
  by (induction ss arbitrary: s0) auto

lemma logical_scan_or: "logical_scan ''or'' ss s0 =
    (if staticMatchAlways \<in> set ss then staticMatchAlways
     else if staticMatchUnknown \<in> set ss then staticMatchUnknown else s0)"
  by (induction ss arbitrary: s0) auto

lemma and_loop_never: "r \<in> set rules \<Longrightarrow> static_ok E r staticMatchNever \<Longrightarrow> \<not> fst (and_loop E rules d m)"
  by (induction rules arbitrary: d m) (auto simp: static_okD case_prod_beta Let_def)

lemma and_loop_always:
  "\<forall>r\<in>set rules. static_ok E r staticMatchAlways \<Longrightarrow> fst (and_loop E rules 0 m) \<and> fst (snd (and_loop E rules 0 m)) = 0"
  by (induction rules arbitrary: m) (auto simp: static_okD case_prod_beta Let_def)

lemma or_loop_never:
  "\<forall>r\<in>set rules. static_ok E r staticMatchNever \<Longrightarrow> \<not> fst (or_loop E rules False d m)"
  by (induction rules arbitrary: m) (auto simp: static_okD case_prod_beta Let_def)

lemma or_loop_always:
  "r \<in> set rules \<Longrightarrow> static_ok E r staticMatchAlways \<Longrightarrow>
    fst (or_loop E rules b d m) \<and> fst (snd (or_loop E rules b d m)) = 0"
  by (induction rules arbitrary: b d m) (auto simp: static_okD case_prod_beta Let_def)

lemma logical_Match:
  assumes "DeferredIPCIDRMatchGroups m = 0"
    and "(if mode = ''and'' then and_loop E rules 0 m else or_loop E rules False 0 m) = (matched, deferred, m1)"
  shows "fst (rule_Match E (LogicalRule k mode rules neg) m) = (if neg \<and> matched then deferred \<noteq> 0 else matched \<noteq> neg)"
    "DeferredIPCIDRMatchGroups (snd (rule_Match E (LogicalRule k mode rules neg) m)) = (if matched then deferred else 0)"
  using assms unfolding rule_Match.simps by (simp_all add: Let_def restore_def snapshotRuleMatch_def set_deferred_def)

lemma evaluated_loop:
  assumes "list_all2 (static_ok E) rules ss" and "mode = ''and'' \<or> mode = ''or''"
  defines "run m \<equiv> (if mode = ''and'' then and_loop E rules 0 m else or_loop E rules False 0 m)"
  shows "evaluateLogical ss mode False = staticMatchAlways \<Longrightarrow> fst (run m) \<and> fst (snd (run m)) = 0"
    "evaluateLogical ss mode False = staticMatchNever \<Longrightarrow> \<not> fst (run m)"
proof -
  have all: "\<forall>r\<in>set rules. static_ok E r x" if "\<forall>s\<in>set ss. s = x" for x
    using assms(1) that by (fastforce simp: list_all2_conv_all_nth in_set_conv_nth)
  have ex: "\<exists>r\<in>set rules. static_ok E r x" if "x \<in> set ss" for x
    using assms(1) that by (fastforce simp: list_all2_conv_all_nth in_set_conv_nth)
  have two: "s = z \<or> s = x \<or> s = y" if "x \<noteq> y" "y \<noteq> z" "x \<noteq> z" for s x y z :: staticMatch
    using that by (cases s; cases x; cases y; cases z) simp_all
  have only: "\<forall>s\<in>set ss. s = staticMatchAlways" if "staticMatchNever \<notin> set ss" "staticMatchUnknown \<notin> set ss"
    using two [of staticMatchNever staticMatchUnknown staticMatchAlways] that by (metis staticMatch.distinct)
  have only': "\<forall>s\<in>set ss. s = staticMatchNever" if "staticMatchAlways \<notin> set ss" "staticMatchUnknown \<notin> set ss"
    using two [of staticMatchAlways staticMatchUnknown staticMatchNever] that by (metis staticMatch.distinct)
  show "fst (run m) \<and> fst (snd (run m)) = 0" if "evaluateLogical ss mode False = staticMatchAlways"
    using assms(2) that and_loop_always [OF all [OF only], of m] or_loop_always [of _ rules E False 0 m] ex [of staticMatchAlways]
    by (auto simp: run_def evaluateLogical_def logical_scan_and logical_scan_or split: if_splits)
  show "\<not> fst (run m)" if "evaluateLogical ss mode False = staticMatchNever"
    using assms(2) that or_loop_never [OF all [OF only'], of 0 m] and_loop_never [of _ rules E 0 m] ex [of staticMatchNever]
    by (auto simp: run_def evaluateLogical_def logical_scan_and logical_scan_or split: if_splits)
qed

lemma logical_static:
  assumes "list_all2 (static_ok E) rules ss" and "mode = ''and'' \<or> mode = ''or''"
  shows "static_ok E (LogicalRule k mode rules neg) (evaluateLogical ss mode neg)"
proof -
  show ?thesis
    unfolding static_ok_def
  proof (intro allI impI)
    fix m :: inbound_context
    assume m: "DeferredIPCIDRMatchGroups m = 0"
    obtain matched deferred m1 where
      run: "(if mode = ''and'' then and_loop E rules 0 m else or_loop E rules False 0 m) = (matched, deferred, m1)"
      by (metis surj_pair)
    note L = logical_Match [OF m run, of k neg]
    define s where "s = evaluateLogical ss mode False"
    have "(s = staticMatchAlways \<longrightarrow> matched \<and> deferred = 0) \<and> (s = staticMatchNever \<longrightarrow> \<not> matched)"
      using evaluated_loop [OF assms, of m] run by (auto simp: s_def split: if_splits)
    then show "case evaluateLogical ss mode neg of staticMatchUnknown \<Rightarrow> True
        | staticMatchNever \<Rightarrow> \<not> fst (rule_Match E (LogicalRule k mode rules neg) m)
        | staticMatchAlways \<Rightarrow> fst (rule_Match E (LogicalRule k mode rules neg) m) \<and>
            DeferredIPCIDRMatchGroups (snd (rule_Match E (LogicalRule k mode rules neg) m)) = 0"
      unfolding L by (cases neg; cases s) (auto simp: s_def evaluateLogical_def)
  qed
qed

definition has_item :: "rule_item \<Rightarrow> default_rule \<Rightarrow> bool" where
  "has_item it r \<longleftrightarrow> it \<in> set (items r) \<and> PlainItem it \<in> set (allItems r)"

lemma has_item_append: "has_item it r \<Longrightarrow> has_item it (append_items ls x r)"
proof (induction ls arbitrary: r)
  case (Cons l ls)
  then have "has_item it (append_item l x r)" by (cases r; cases l) (simp_all add: has_item_def)
  with Cons show ?case by simp
qed simp

lemma has_item_appended: "has_item it (append_items [Items, AllItems] it r)"
  by (cases r) (simp add: has_item_def)

lemma run_steps_keep:
  assumes "run_steps steps r = Inr r'"
  shows "invert r' = invert r" "has_item it r \<Longrightarrow> has_item it r'"
proof -
  have "list_all (\<lambda>(c, ls, i). c \<longrightarrow> (\<forall>x. i = Inr x \<longrightarrow> True)) steps"
    by (simp add: list_all_iff case_prod_unfold)
  then show "invert r' = invert r" "has_item it r \<Longrightarrow> has_item it r'"
    using run_steps_inv [OF _ assms, of "\<lambda>x. invert x = invert r" "\<lambda>_ _. True"]
      run_steps_inv [OF _ assms, of "has_item it" "\<lambda>_ _. True"] by (simp_all add: has_item_append)
qed

lemma run_steps_has:
  "run_steps steps r = Inr r' \<Longrightarrow> (True, [Items, AllItems], Inr it) \<in> set steps \<Longrightarrow> has_item it r'"
proof (induction steps arbitrary: r)
  case (Cons st steps)
  obtain c ls i where st: "st = (c, ls, i)" by (cases st)
  show ?case
  proof (cases "(c, ls, i) = (True, [Items, AllItems], Inr it)")
    case True
    then show ?thesis using run_steps_keep(2) [of steps "append_items [Items, AllItems] it r" r' it] Cons.prems st has_item_appended by simp
  next
    case False
    then show ?thesis using Cons st by (cases c; cases i) auto
  qed
qed simp

lemma rule_set_step_keep:
  assumes "rule_set_step o' ae r = Inr r'"
  shows "invert r' = invert r" "has_item it r \<Longrightarrow> has_item it r'"
  using assms by (cases r; auto simp: rule_set_step_def has_item_def split: if_splits)+

text \<open>A default rule under a Clash mode that is not the current one.\<close>

lemma other_mode_Match:
  assumes "has_item (ClashModeItem c) r" "\<not> ClashModeItem_Match E c"
  shows "fst (default_Match E (fill_default F r) m) = invert r"
    "invert r \<Longrightarrow> DeferredIPCIDRMatchGroups (snd (default_Match E (fill_default F r) m)) = 0"
proof -
  have items: "\<not> list_all (\<lambda>it. item_match E it m') (items r)" for m'
    using assms by (force simp: has_item_def list_all_iff)
  have "\<not> fst (matchInner E (fill_default F r) m)"
    using items by (cases r) (simp add: Let_def case_prod_beta)
  moreover have "allItems r \<noteq> []"
    using assms(1) by (auto simp: has_item_def)
  ultimately show "fst (default_Match E (fill_default F r) m) = invert r"
    "invert r \<Longrightarrow> DeferredIPCIDRMatchGroups (snd (default_Match E (fill_default F r) m)) = 0"
    by (simp_all add: default_Match.simps Let_def case_prod_beta set_deferred_def)
qed

definition current_mode :: "rule_env \<Rightarrow> string" where
  "current_mode E = (case ClashMode E of None \<Rightarrow> '''' | Some mode \<Rightarrow> mode)"

lemma current_mode_item: "c \<noteq> '''' \<Longrightarrow> ClashModeItem_Match E c = EqualFold c (current_mode E)"
  by (auto simp: ClashModeItem_Match_def current_mode_def EqualFold_def ToLower_def split: option.splits)

text \<open>A default rule without other conditions.\<close>

definition mode_rule :: "string \<Rightarrow> bool \<Rightarrow> default_rule" where
  "mode_rule c neg = (if c = '''' then empty_rule neg else append_items [Items, AllItems] (ClashModeItem c) (empty_rule neg))"

lemma mode_rule_Match:
  assumes "c = '''' \<and> \<not> neg \<or> c \<noteq> '''' \<and> ClashModeItem_Match E c" "DeferredIPCIDRMatchGroups m = 0"
  shows "default_Match E (fill_default F (mode_rule c neg)) m = (\<not> neg, m)"
  using assms by (auto simp: mode_rule_def empty_rule_def default_Match.simps evaluateGroups_def require_def
    destinationIPCIDRMatchesSource_def destinationIPCIDRMatchesDestination_def group_done_def set_deferred_def)

lemma NewDefaultRule_mode:
  "NewDefaultRule L (empty_route_options\<lparr>o_ClashMode := c, o_Invert := neg\<rparr>) = Inr (DefaultRule (mode_rule c neg))"
  by (simp add: NewDefaultRule_def route_steps_1_def route_steps_2_def process_steps_def network_steps_def geo_steps_def
    fail_if_def ip_version_step_def empty_route_options_def rule_set_step_def mode_rule_def NewClashModeItem_def)

lemma NewDefaultDNSRule_mode:
  "NewDefaultDNSRule L legacy (empty_dns_options\<lparr>o_ClashMode := c, o_Invert := neg\<rparr>) = Inr (DefaultDNSRule (mode_rule c neg) False '''')"
  by (simp add: NewDefaultDNSRule_def dns_steps_1_def dns_steps_2_def response_steps_def process_steps_def network_steps_def geo_steps_def
    fail_if_def ip_version_step_def empty_dns_options_def empty_route_options_def rule_set_step_def mode_rule_def NewClashModeItem_def
    connection_options.defs dns_options.defs IsEnabled_def ResponseTag_def)

lemma NewDefaultRule_clash:
  assumes "NewDefaultRule L d = Inr rl" "o_ClashMode d \<noteq> ''''"
  obtains r where "rl = DefaultRule r" "has_item (ClashModeItem (o_ClashMode d)) r" "invert r = o_Invert d"
proof -
  obtain r0 r where r: "run_steps (route_steps_1 L d @ route_steps_2 L d) (empty_rule (o_Invert d)) = Inr r0"
    "rule_set_step d False r0 = Inr r" "rl = DefaultRule r"
    using assms(1) by (auto simp: NewDefaultRule_def)
  have "(True, [Items, AllItems], Inr (ClashModeItem (o_ClashMode d))) \<in> set (route_steps_1 L d @ route_steps_2 L d)"
    using assms(2) by (simp add: route_steps_2_def network_steps_def NewClashModeItem_def)
  then have "has_item (ClashModeItem (o_ClashMode d)) r"
    using run_steps_has [OF r(1)] rule_set_step_keep(2) [OF r(2)] by blast
  then show ?thesis
    using that r(3) run_steps_keep(1) [OF r(1)] rule_set_step_keep(1) [OF r(2)] by (simp add: empty_rule_def)
qed

lemma NewDefaultDNSRule_clash:
  assumes "NewDefaultDNSRule L legacy d = Inr rl" "o_ClashMode d \<noteq> ''''"
  obtains r where "rl = DefaultDNSRule r (IsEnabled (d_MatchResponse d)) (ResponseTag (d_MatchResponse d))"
    "has_item (ClashModeItem (o_ClashMode d)) r" "invert r = o_Invert d"
proof -
  obtain r0 r where r: "run_steps (dns_steps_1 L d @ response_steps d @ dns_steps_2 L d) (empty_rule (o_Invert d)) = Inr r0"
    "rule_set_step d (d_RuleSetIPCIDRAcceptEmpty d) r0 = Inr r"
    "rl = DefaultDNSRule r (IsEnabled (d_MatchResponse d)) (ResponseTag (d_MatchResponse d))"
    using assms(1) by (auto simp: NewDefaultDNSRule_def split: if_splits)
  have "(True, [Items, AllItems], Inr (ClashModeItem (o_ClashMode d))) \<in> set (dns_steps_1 L d @ response_steps d @ dns_steps_2 L d)"
    using assms(2) by (simp add: dns_steps_2_def network_steps_def NewClashModeItem_def)
  then have "has_item (ClashModeItem (o_ClashMode d)) r"
    using run_steps_has [OF r(1)] rule_set_step_keep(2) [OF r(2)] by blast
  then show ?thesis
    using that r(3) run_steps_keep(1) [OF r(1)] rule_set_step_keep(1) [OF r(2)] by (simp add: empty_rule_def)
qed

lemma evaluateClashMode_static:
  assumes "c \<noteq> '''' \<Longrightarrow> \<not> ClashModeItem_Match E c \<Longrightarrow> static_ok E rl (if neg then staticMatchAlways else staticMatchNever)"
    and "plain \<Longrightarrow> c = '''' \<and> \<not> neg \<or> c \<noteq> '''' \<and> ClashModeItem_Match E c \<Longrightarrow>
      static_ok E rl (if neg then staticMatchNever else staticMatchAlways)"
    and "plain \<Longrightarrow> c = '''' \<Longrightarrow> \<not> neg"
  shows "static_ok E rl (evaluateClashMode c (current_mode E) neg (\<not> plain))"
proof -
  have "static_ok E rl staticMatchUnknown" by (simp add: static_ok_def)
  then show ?thesis
    using assms by (cases neg; cases "c = ''''"; cases plain) (auto simp: evaluateClashMode_def Let_def current_mode_item)
qed

text \<open>Options that are not just \<^verbatim>\<open>invert\<close>.\<close>

definition proper_route :: "route_options \<Rightarrow> bool" where
  "proper_route d \<longleftrightarrow> d \<noteq> empty_route_options\<lparr>o_Invert := True\<rparr>"

definition proper_dns :: "dns_options \<Rightarrow> bool" where
  "proper_dns d \<longleftrightarrow> d \<noteq> empty_dns_options\<lparr>o_Invert := True\<rparr>"

lemma only_mode:
  assumes "plain \<longleftrightarrow> d\<lparr>o_ClashMode := '''', o_Invert := False\<rparr> = e" "o_ClashMode e = ''''" plain
  shows "d = e\<lparr>o_ClashMode := o_ClashMode d, o_Invert := o_Invert d\<rparr>"
  using assms by (cases d; cases e) auto

lemma route_static:
  assumes "NewDefaultRule L d = Inr rl" "proper_route d"
  shows "static_ok E (fill_sets F rl) (evaluate_route d (current_mode E))"
proof -
  define plain where "plain \<longleftrightarrow> d\<lparr>o_ClashMode := '''', o_Invert := False\<rparr> = empty_route_options"
  have d: "d = empty_route_options\<lparr>o_ClashMode := o_ClashMode d, o_Invert := o_Invert d\<rparr>" if plain
    using only_mode [OF plain_def] that by (simp add: empty_route_options_def)
  have "static_ok E (fill_sets F rl) (evaluateClashMode (o_ClashMode d) (current_mode E) (o_Invert d) (\<not> plain))"
  proof (rule evaluateClashMode_static)
    assume c: "o_ClashMode d \<noteq> ''''" "\<not> ClashModeItem_Match E (o_ClashMode d)"
    obtain r where r: "rl = DefaultRule r" "has_item (ClashModeItem (o_ClashMode d)) r" "invert r = o_Invert d"
      using NewDefaultRule_clash [OF assms(1) c(1)] .
    show "static_ok E (fill_sets F rl) (if o_Invert d then staticMatchAlways else staticMatchNever)"
      using other_mode_Match [OF r(2) c(2)] r(1,3) by (auto simp: static_ok_def rule_Match.simps)
  next
    assume p: plain and c: "o_ClashMode d = '''' \<and> \<not> o_Invert d \<or> o_ClashMode d \<noteq> '''' \<and> ClashModeItem_Match E (o_ClashMode d)"
    have "rl = DefaultRule (mode_rule (o_ClashMode d) (o_Invert d))"
      using assms(1) NewDefaultRule_mode [of L "o_Invert d" "o_ClashMode d"] unfolding d [OF p, symmetric] by simp
    then show "static_ok E (fill_sets F rl) (if o_Invert d then staticMatchNever else staticMatchAlways)"
      using mode_rule_Match [OF c] by (auto simp: static_ok_def rule_Match.simps)
  next
    assume p: plain and c: "o_ClashMode d = ''''"
    obtain c neg where "d = empty_route_options\<lparr>o_ClashMode := c, o_Invert := neg\<rparr>" using d [OF p] by blast
    with c assms(2) show "\<not> o_Invert d"
      by (cases neg) (auto simp: proper_route_def empty_route_options_def)
  qed
  then show ?thesis by (simp add: evaluate_route_def plain_def)
qed

lemma dns_static:
  assumes "NewDefaultDNSRule L legacy d = Inr rl" "proper_dns d"
  shows "static_ok E (fill_sets F rl) (evaluate_dns d (current_mode E))"
proof -
  define plain where "plain \<longleftrightarrow> d\<lparr>o_ClashMode := '''', o_Invert := False\<rparr> = empty_dns_options"
  have e: "o_ClashMode empty_dns_options = ''''"
    by (simp add: empty_dns_options_def empty_route_options_def connection_options.defs)
  have d: "d = empty_dns_options\<lparr>o_ClashMode := o_ClashMode d, o_Invert := o_Invert d\<rparr>" if plain
    using only_mode [OF plain_def e] that by simp
  have "static_ok E (fill_sets F rl) (evaluateClashMode (o_ClashMode d) (current_mode E) (o_Invert d) (\<not> plain))"
  proof (rule evaluateClashMode_static)
    assume c: "o_ClashMode d \<noteq> ''''" "\<not> ClashModeItem_Match E (o_ClashMode d)"
    obtain r where r: "rl = DefaultDNSRule r (IsEnabled (d_MatchResponse d)) (ResponseTag (d_MatchResponse d))"
      "has_item (ClashModeItem (o_ClashMode d)) r" "invert r = o_Invert d"
      using NewDefaultDNSRule_clash [OF assms(1) c(1)] .
    show "static_ok E (fill_sets F rl) (if o_Invert d then staticMatchAlways else staticMatchNever)"
      using other_mode_Match [OF r(2) c(2)] r(1,3) by (auto simp: static_ok_def rule_Match.simps Let_def)
  next
    assume p: plain and c: "o_ClashMode d = '''' \<and> \<not> o_Invert d \<or> o_ClashMode d \<noteq> '''' \<and> ClashModeItem_Match E (o_ClashMode d)"
    have "rl = DefaultDNSRule (mode_rule (o_ClashMode d) (o_Invert d)) False ''''"
      using assms(1) NewDefaultDNSRule_mode [of L legacy "o_Invert d" "o_ClashMode d"] unfolding d [OF p, symmetric] by simp
    then show "static_ok E (fill_sets F rl) (if o_Invert d then staticMatchNever else staticMatchAlways)"
      using mode_rule_Match [OF c] by (auto simp: static_ok_def rule_Match.simps)
  next
    assume p: plain and c: "o_ClashMode d = ''''"
    obtain c neg where "d = empty_dns_options\<lparr>o_ClashMode := c, o_Invert := neg\<rparr>" using d [OF p] by blast
    with c assms(2) show "\<not> o_Invert d"
      by (cases neg) (auto simp: proper_dns_def empty_dns_options_def empty_route_options_def connection_options.defs)
  qed
  then show ?thesis by (simp add: evaluate_dns_def plain_def)
qed

subsection \<open>From default rules to all rules\<close>

text \<open>
  Options as decoding leaves them, the type filled in; \<open>proper\<close> is asked of the options of the
  default rules.
\<close>

fun decoded :: "('o \<Rightarrow> bool) \<Rightarrow> ('o, 'a) rule_options \<Rightarrow> bool" where
  "decoded proper (RuleOptions t d lm rules neg a) \<longleftrightarrow>
     t \<noteq> '''' \<and> (t = ''default'' \<longrightarrow> proper d) \<and> list_all (decoded proper) rules"

text \<open>
  \<open>installed B F os rules\<close>: the rules of a router, each built from its options, with its rule-sets filled
  in and with its action.
\<close>

definition installed ::
  "('o, 'a) rule_builder \<Rightarrow> (string list \<Rightarrow> rule_set list) \<Rightarrow> ('o, 'a) rule_options list \<Rightarrow> (rule \<times> 'a) list \<Rightarrow> bool" where
  "installed B F = list_all2 (\<lambda>o' (rl, a).
     (\<exists>r. new_rule B True o' = Some (Inr r) \<and> rl = fill_sets F r) \<and> a = ro_Action o')"

locale static_rules =
  fixes B :: "('o, 'a) rule_builder"
    and ev :: "'o \<Rightarrow> string \<Rightarrow> staticMatch"
    and proper :: "'o \<Rightarrow> bool"
  assumes leaf: "rb_build B d a = Inr rl \<Longrightarrow> proper d \<Longrightarrow> static_ok E (fill_sets F rl) (ev d (current_mode E))"
begin

lemma new_rule_static:
  "B' = B \<Longrightarrow> new_rule B' outer o' = Some (Inr rl) \<Longrightarrow> decoded proper o' \<Longrightarrow>
     static_ok E (fill_sets F rl) (evaluate_options ev o' (current_mode E))"
  "B' = B \<Longrightarrow> new_rules B' os = Some (Inr rls) \<Longrightarrow> list_all (decoded proper) os \<Longrightarrow>
     list_all2 (static_ok E) (map (fill_sets F) rls) (map (\<lambda>o'. evaluate_options ev o' (current_mode E)) os)"
proof (induction B' outer o' and B' os arbitrary: rl and rls rule: new_rule_new_rules.induct)
  case (1 B' outer t d lm rules neg a)
  consider "t = ''default''" | "t = ''logical''"
    using 1(3,4) by (fastforce split: if_splits)
  then show ?case
  proof cases
    case 1
    then have "rb_build B d a = Inr rl" "proper d"
      using "1.prems" by (auto split: if_splits option.splits)
    then show ?thesis using 1 by (simp add: leaf)
  next
    case 2
    then obtain rs where rs: "new_rules B rules = Some (Inr rs)" "lm = ''and'' \<or> lm = ''or''"
      "rl = LogicalRule (rb_kind B) lm rs neg"
      using "1.prems" by (auto split: if_splits option.splits bool.splits)
    have "list_all2 (static_ok E) (map (fill_sets F) rs) (map (\<lambda>o'. evaluate_options ev o' (current_mode E)) rules)"
      by (rule "1.IH"(1)) (use 2 rs "1.prems" in \<open>auto split: if_splits option.splits bool.splits\<close>)
    then show ?thesis
      using logical_static [OF _ rs(2)] 2 rs(3) by simp
  qed
next
  case (2 B)
  then show ?case by simp
next
  case (3 B' r rules)
  then show ?case
    by (auto split: if_splits option.splits sum.splits)
qed

end

interpretation rr: static_rules "route_builder L" evaluate_route proper_route
  by unfold_locales (simp add: route_builder_def route_static)

interpretation dr: static_rules "dns_builder L legacy" evaluate_dns proper_dns
  by unfold_locales (simp add: dns_builder_def dns_static)

subsection \<open>The collection and the routers\<close>

lemma installed_Cons [simp]:
  "installed B F (o' # os) rules \<longleftrightarrow> (\<exists>r rest. new_rule B True o' = Some (Inr r) \<and>
     rules = (fill_sets F r, ro_Action o') # rest \<and> installed B F os rest)"
  "installed B F [] rules \<longleftrightarrow> rules = []"
  by (auto simp: installed_def list_all2_Cons1)

lemma new_rule_type: "new_rule B outer o' = Some (Inr r) \<Longrightarrow> decoded proper o' \<Longrightarrow> ro_Type o' = ''default'' \<or> ro_Type o' = ''logical''"
  by (cases o') (auto split: if_splits)

lemma collect_mono:
  "collectRuleReferences os mode outs ts = (sh, outs', ts') \<Longrightarrow> set outs \<subseteq> set outs' \<and> set ts \<subseteq> set ts'"
  by (induction os arbitrary: outs ts) (auto simp: Let_def split: if_splits prod.splits, fastforce+)

lemma collect_dns_mono: "collectDNSRuleReferences os mode ts = (sh, ts') \<Longrightarrow> set ts \<subseteq> set ts'"
  by (induction os arbitrary: ts) (auto simp: Let_def split: if_splits prod.splits, fastforce+)

lemma action_targets_final: "snd (snd (action_targets a)) = final_action a"
  by (cases a) auto

fun uses_transport :: "string set \<Rightarrow> route_action \<Rightarrow> bool" where
  "uses_transport S (ResolveAction server) \<longleftrightarrow> server \<in> S"
| "uses_transport S _ = True"

lemma collect_route_step:
  assumes "collectRuleReferences (o' # os) mode outs ts = (sh, outs', ts')"
    "ro_Type o' = ''default'' \<or> ro_Type o' = ''logical''"
  shows "evaluateRule o' mode = staticMatchNever \<and> collectRuleReferences os mode outs ts = (sh, outs', ts') \<or>
    evaluateRule o' mode \<noteq> staticMatchNever \<and> set (fst (action_targets (ro_Action o'))) \<subseteq> set outs' \<and>
      uses_transport (set ts') (ro_Action o') \<and>
      (evaluateRule o' mode = staticMatchAlways \<and> final_action (ro_Action o') \<and> sh \<or>
       (\<exists>outs1 ts1. collectRuleReferences os mode outs1 ts1 = (sh, outs', ts')))"
proof (cases "evaluateRule o' mode = staticMatchNever")
  case True
  then show ?thesis using assms by simp
next
  case False
  obtain xs ys final where t: "action_targets (ro_Action o') = (xs, ys, final)" by (cases "action_targets (ro_Action o')")
  have final: "final = final_action (ro_Action o')" using action_targets_final [of "ro_Action o'"] t by simp
  have ys: "uses_transport S (ro_Action o')" if "set ys \<subseteq> S" for S
    using t that by (cases "ro_Action o'") auto
  show ?thesis
  proof (cases "final \<and> evaluateRule o' mode = staticMatchAlways")
    case True
    then show ?thesis using assms False t final ys by auto
  next
    case stay: False
    then have "collectRuleReferences os mode (outs @ xs) (ts @ ys) = (sh, outs', ts')"
      using assms False t by (auto simp: Let_def)
    then show ?thesis using collect_mono [of os mode "outs @ xs" "ts @ ys"] False t ys by auto
  qed
qed

lemma route_head:
  assumes "installed (route_builder L) F (o' # os) rules" "decoded proper_route o'"
    "collectRuleReferences (o' # os) (current_mode E) outs ts = (sh, outs', ts')"
  obtains rl a rest outs1 ts1 where "rules = (rl, a) # rest" "installed (route_builder L) F os rest"
    "\<forall>m. \<not> fst (rule_Match E rl (ResetRuleCache m))"
    "collectRuleReferences os (current_mode E) outs1 ts1 = (sh, outs', ts')"
  | rl a rest where "rules = (rl, a) # rest" "set (fst (action_targets a)) \<subseteq> set outs'" "uses_transport (set ts') a"
    "\<forall>m. fst (rule_Match E rl (ResetRuleCache m))" "final_action a" sh
  | rl a rest outs1 ts1 where "rules = (rl, a) # rest" "set (fst (action_targets a)) \<subseteq> set outs'" "uses_transport (set ts') a"
    "installed (route_builder L) F os rest" "collectRuleReferences os (current_mode E) outs1 ts1 = (sh, outs', ts')"
proof -
  obtain r rest where r: "new_rule (route_builder L) True o' = Some (Inr r)"
    "rules = (fill_sets F r, ro_Action o') # rest" "installed (route_builder L) F os rest"
    using assms(1) by auto
  have "static_ok E (fill_sets F r) (evaluateRule o' (current_mode E))"
    using rr.new_rule_static(1) [OF refl r(1) assms(2)] by (simp add: evaluateRule_def)
  then show thesis
    using collect_route_step [OF assms(3) new_rule_type [OF r(1) assms(2)]] that r(2,3) static_okD by metis
qed

lemma matchRule_collected:
  assumes "installed (route_builder L) F os rules" "list_all (decoded proper_route) os"
    "collectRuleReferences os (current_mode E) outs ts = (sh, outs', ts')"
  shows "matchRule E act rules m = Some res \<Longrightarrow>
      (case res of None \<Rightarrow> \<not> sh | Some a \<Rightarrow> set (fst (action_targets a)) \<subseteq> set outs')"
    "(\<forall>a m. uses_transport (set ts') a \<longrightarrow> act a m = act' a m) \<Longrightarrow> matchRule E act rules m = matchRule E act' rules m"
  using assms
proof (induction os arbitrary: rules outs ts m)
  case Nil
  { case 1 then show ?case by auto
  next case 2 then show ?case by simp }
next
  case (Cons o' os)
  { case 1
    have dec: "decoded proper_route o'" "list_all (decoded proper_route) os" using 1 by auto
    show ?case
      by (rule route_head [OF 1(2) dec(1) 1(4)])
        (use Cons.IH(1) dec(2) 1(1) in \<open>auto simp: Let_def case_prod_beta split: if_splits option.splits\<close>, blast+)
  next
    case 2
    have dec: "decoded proper_route o'" "list_all (decoded proper_route) os" using 2 by auto
    show ?case
      by (rule route_head [OF 2(2) dec(1) 2(4)])
        (use Cons.IH(2) dec(2) 2(1) in \<open>auto simp: Let_def case_prod_beta split: option.splits\<close>) }
qed

text \<open>
  C6: The references of the route rules. Take route rules built from decoded options none of which is just
  \<^verbatim>\<open>invert\<close>, and the references collected from the same options for the current Clash mode. For every connection,
  if the rules select an action, the outbound the action names was collected; if they select none, so that
  the default outbound is used, the rules were not reported as shadowing it; and servers of resolve
  actions that were not collected have no influence on the selection.
\<close>

theorem route_references_sound:
  assumes "installed (route_builder L) F os rules" "list_all (decoded proper_route) os"
    "collectRuleReferences os (current_mode E) [] [] = (shadowed, outs, transports)"
    "\<forall>a m. uses_transport (set transports) a \<longrightarrow> act a m = act' a m"
    "matchRule E act rules m = Some res"
  shows "(case res of None \<Rightarrow> \<not> shadowed | Some a \<Rightarrow> set (fst (action_targets a)) \<subseteq> set outs) \<and>
    matchRule E act' rules m = Some res"
  using matchRule_collected [OF assms(1,2,3)] assms(4,5) by metis

lemma matches_response_default: "matches_response (DefaultDNSRule r matchResponse tag) \<longleftrightarrow> matchResponse \<or> tag \<noteq> ''''"
  by (auto simp: matches_response_def)

lemma LegacyPreMatch_static:
  assumes "static_ok E rl s" "\<not> matches_response rl" "DeferredIPCIDRMatchGroups m = 0"
  shows "s = staticMatchNever \<Longrightarrow> \<not> fst (LegacyPreMatch E rl m)"
    "s = staticMatchAlways \<Longrightarrow> fst (LegacyPreMatch E rl m)"
  using assms unfolding static_ok_def LegacyPreMatch_def
  by (cases rl; force simp: Let_def case_prod_beta rule_Match.simps(3) matches_response_default)+

lemma dns_head:
  assumes "installed (dns_builder L legacy) F (o' # os) rules" "decoded proper_dns o'"
    "collectDNSRuleReferences (o' # os) (current_mode E) ts = (sh, ts')"
  obtains rl a rest ts1 where "rules = (rl, a) # rest" "installed (dns_builder L legacy) F os rest"
    "static_ok E rl staticMatchNever" "collectDNSRuleReferences os (current_mode E) ts1 = (sh, ts')"
  | rl a rest where "rules = (rl, a) # rest" "set (fst (dns_action_targets (da_Action a))) \<subseteq> set ts'"
    "static_ok E rl staticMatchAlways" "snd (dns_action_targets (da_Action a))" sh
  | rl a rest ts1 where "rules = (rl, a) # rest" "set (fst (dns_action_targets (da_Action a))) \<subseteq> set ts'"
    "installed (dns_builder L legacy) F os rest" "collectDNSRuleReferences os (current_mode E) ts1 = (sh, ts')"
proof -
  obtain r rest where r: "new_rule (dns_builder L legacy) True o' = Some (Inr r)"
    "rules = (fill_sets F r, ro_Action o') # rest" "installed (dns_builder L legacy) F os rest"
    using assms(1) by auto
  have ok: "static_ok E (fill_sets F r) (evaluateDNSRule o' (current_mode E))"
    using dr.new_rule_static(1) [OF refl r(1) assms(2)] by (simp add: evaluateDNSRule_def)
  have t: "ro_Type o' = ''default'' \<or> ro_Type o' = ''logical''" using new_rule_type [OF r(1) assms(2)] .
  obtain xs final where x: "dns_action_targets (da_Action (ro_Action o')) = (xs, final)" by fastforce
  show thesis
  proof (cases "evaluateDNSRule o' (current_mode E) = staticMatchNever")
    case True
    then show ?thesis using that(1) ok assms(3) r(2,3) by simp
  next
    case False
    show ?thesis
    proof (cases "final \<and> evaluateDNSRule o' (current_mode E) = staticMatchAlways")
      case True
      then show ?thesis using that(2) ok assms(3) r(2,3) t x by auto
    next
      case go: False
      then have "collectDNSRuleReferences os (current_mode E) (ts @ xs) = (sh, ts')"
        using assms(3) False t x by (auto simp: Let_def)
      then show ?thesis using that(3) collect_dns_mono [of os _ "ts @ xs"] r(2,3) x by auto
    qed
  qed
qed

text \<open>
  What the collection relies on in legacy mode: rules do not refer to responses, and a rule the router skips for
  a query is none of those it takes for final.
\<close>

definition legacy_query :: "(string \<Rightarrow> bool option) \<Rightarrow> bool \<Rightarrow> bool \<Rightarrow> string list \<Rightarrow> rule \<times> dns_rule_action \<Rightarrow> bool" where
  "legacy_query transport allowFakeIP isAddressQuery ts = (\<lambda>(r, a).
     \<not> matches_response r \<and> da_Action a \<noteq> DNSRespondAction \<and> (WithAddressLimit r \<longrightarrow> isAddressQuery) \<and>
     list_all (\<lambda>server. server \<in> set ts \<longrightarrow> transport server = Some False \<or> transport server = Some True \<and> allowFakeIP)
       (fst (dns_action_targets (da_Action a))))"

abbreviation router_rules :: "(rule \<times> dns_rule_action) list \<Rightarrow> (rule \<times> dns_action) list" where
  "router_rules \<equiv> map (\<lambda>(r, a). (r, da_Action a))"

lemma matchDNS_collected:
  assumes "installed (dns_builder L legacy) F os rules" "list_all (decoded proper_dns) os"
    "collectDNSRuleReferences os (current_mode E) ts0 = (shadowed, transports)"
    "list_all (legacy_query transport allowFakeIP isAddressQuery transports) rules"
  shows "case fst (matchDNS E transport allowFakeIP isAddressQuery i (router_rules rules) m q) of
      ServerChoice server j \<Rightarrow> server \<in> set transports | RuleChoice j \<Rightarrow> True | DefaultChoice \<Rightarrow> \<not> shadowed"
  using assms
proof (induction os arbitrary: rules ts0 i m q)
  case Nil
  then show ?case by simp
next
  case (Cons o' os)
  have dec: "decoded proper_dns o'" "list_all (decoded proper_dns) os" using Cons.prems(2) by auto
  let ?m = "(ResetRuleCache m)\<lparr>DestinationAddressMatchFromResponse := False\<rparr>"
  have m: "DeferredIPCIDRMatchGroups ?m = 0" by simp
  note pre = LegacyPreMatch_static [OF _ _ m]
  from dns_head [OF Cons.prems(1) dec(1) Cons.prems(3)] show ?case
  proof cases
    case (1 rl a rest ts1)
    then show ?thesis
      using Cons.IH [OF 1(2) dec(2) 1(4)] Cons.prems(4) pre(1) [of E rl]
      by (auto simp: legacy_query_def Let_def case_prod_beta)
  next
    case (2 rl a rest)
    then show ?thesis
      using Cons.prems(4) pre(2) [of E rl]
      by (cases "da_Action a") (auto simp: legacy_query_def Let_def case_prod_beta split: option.splits)
  next
    case (3 rl a rest ts1)
    then show ?thesis
      using Cons.IH [OF 3(3) dec(2) 3(4)] Cons.prems(4)
      by (auto simp: Let_def case_prod_beta split: option.splits dns_action.splits)
  qed
qed

subsection \<open>Where the collection loses references\<close>

abbreviation default_options :: "'o \<Rightarrow> 'a \<Rightarrow> ('o, 'a) rule_options" where
  "default_options d a \<equiv> RuleOptions ''default'' d '''' [] False a"

lemma new_plain_rule:
  "a \<noteq> NoAction \<Longrightarrow> a \<noteq> RouteAction '''' \<Longrightarrow>
     new_rule (route_builder L) True (default_options (empty_route_options\<lparr>o_ClashMode := c, o_Invert := neg\<rparr>) a) =
       Some (Inr (DefaultRule (mode_rule c neg)))"
  by (simp add: route_builder_def DefaultRule_IsValid_def check_route_def NewDefaultRule_mode)

lemma mode_rule_no_items: "allItems (mode_rule '''' neg) = []"
  by (simp add: mode_rule_def empty_rule_def)

text \<open>
  C35: A route rule with no condition but \<^verbatim>\<open>invert\<close> is accepted with its outbound and matches every connection, yet
  whatever the Clash mode is its outbound is not among the collected references.
\<close>

theorem invert_only_unreferenced:
  assumes "tag \<noteq> ''''"
  defines "opts \<equiv> default_options (empty_route_options\<lparr>o_Invert := True\<rparr>) (RouteAction tag)"
  shows "\<exists>r. NewRule L True opts = Some (Inr r) \<and> (\<forall>E F m. rule_Match E (fill_sets F r) m = (True, m)) \<and>
    collectRuleReferences [opts] mode [] [] = (False, [], [])"
proof -
  have e: "empty_route_options\<lparr>o_Invert := True\<rparr> = empty_route_options\<lparr>o_ClashMode := '''', o_Invert := True\<rparr>"
    by (simp add: empty_route_options_def)
  have "NewRule L True opts = Some (Inr (DefaultRule (mode_rule '''' True)))"
    unfolding opts_def NewRule_def e by (rule new_plain_rule) (use assms(1) in simp_all)
  moreover have "rule_Match E (fill_sets F (DefaultRule (mode_rule '''' True))) m = (True, m)" for E F m
    by (simp add: rule_Match.simps default_Match.simps mode_rule_no_items)
  moreover have "collectRuleReferences [opts] mode [] [] = (False, [], [])"
    by (simp add: opts_def evaluateRule_def evaluate_route_def evaluateClashMode_def empty_route_options_def)
  ultimately show ?thesis by blast
qed

text \<open>
  C36: A DNS rule with no condition that routes to a fakeip server shadows the default server for the collection,
  but a lookup, for which fakeip servers are not allowed, skips the rule and uses the default server.
\<close>

theorem fakeip_rule_shadows:
  fixes speculative :: bool
  assumes "server \<noteq> ''''" "transport server = Some True" "\<not> subnet_conflict dro"
  defines "opts \<equiv> default_options empty_dns_options \<lparr>da_Action = DNSRouteAction server dro speculative, da_Race = False\<rparr>"
  shows "\<exists>r. NewDNSRule L True legacy opts = Some (Inr r) \<and>
    fst (matchDNS E transport False isAddressQuery 0 [(fill_sets F r, da_Action (ro_Action opts))] m q) = DefaultChoice \<and>
    collectDNSRuleReferences [opts] mode [] = (True, [server])"
proof -
  have e: "empty_dns_options = empty_dns_options\<lparr>o_ClashMode := '''', o_Invert := False\<rparr>"
    by (simp add: empty_dns_options_def empty_route_options_def connection_options.defs)
  have "NewDefaultDNSRule L legacy empty_dns_options = Inr (DefaultDNSRule (mode_rule '''' False) False '''')"
    by (subst e) (rule NewDefaultDNSRule_mode)
  then have "NewDNSRule L True legacy opts = Some (Inr (DefaultDNSRule (mode_rule '''' False) False ''''))"
    using assms by (simp add: opts_def NewDNSRule_def dns_builder_def DefaultDNSRule_IsValid_def zero_dns_action_def check_dns_def
      validateDNSRuleAction_def)
  moreover have "fst (matchDNS E transport False isAddressQuery 0
      [(fill_sets F (DefaultDNSRule (mode_rule '''' False) False ''''), da_Action (ro_Action opts))] m q) = DefaultChoice"
    using assms(2) by (simp add: opts_def Let_def case_prod_beta)
  moreover have "collectDNSRuleReferences [opts] mode [] = (True, [server])"
    by (simp add: opts_def evaluateDNSRule_def evaluate_dns_def evaluateClashMode_def empty_dns_options_def
      empty_route_options_def connection_options.defs)
  ultimately show ?thesis by blast
qed


subsection \<open>A small configuration\<close>

definition mode_env :: rule_env where
  "mode_env = sample_env\<lparr>ClashMode := Some ''Rule''\<rparr>"

definition mode_options :: "string \<Rightarrow> string \<Rightarrow> (route_options, route_action) rule_options" where
  "mode_options mode outbound = default_options (empty_route_options\<lparr>o_ClashMode := mode\<rparr>) (RouteAction outbound)"

definition udp_options :: "(route_options, route_action) rule_options" where
  "udp_options = default_options (empty_route_options\<lparr>o_Network := [''udp'']\<rparr>) (RouteAction ''games'')"

definition sample_rules :: "(rule \<times> route_action) list" where
  "sample_rules =
     [(DefaultRule (mode_rule ''direct'' False), RouteAction ''direct''),
      (DefaultRule (AbstractDefaultRule [NetworkItem [''udp'']] [] [] [] [] [] [PlainItem (NetworkItem [''udp''])] None False),
       RouteAction ''games''),
      (DefaultRule (mode_rule ''rule'' False), RouteAction ''proxy''),
      (DefaultRule (mode_rule '''' False), RouteAction ''unused'')]"

definition sample_route_options :: "(route_options, route_action) rule_options list" where
  "sample_route_options = [mode_options ''direct'' ''direct'', udp_options, mode_options ''rule'' ''proxy'', mode_options '''' ''unused'']"

lemma sample_installed: "installed (route_builder sample_lib) (\<lambda>_. []) sample_route_options sample_rules"
proof -
  have m: "empty_route_options\<lparr>o_ClashMode := c\<rparr> = empty_route_options\<lparr>o_ClashMode := c, o_Invert := False\<rparr>" for c
    by (simp add: empty_route_options_def)
  have "new_rule (route_builder sample_lib) True (mode_options c (x # xs)) = Some (Inr (DefaultRule (mode_rule c False)))" for c x xs
    unfolding mode_options_def by (subst m, rule new_plain_rule) simp_all
  moreover have "new_rule (route_builder sample_lib) True udp_options = Some (Inr (DefaultRule
      (AbstractDefaultRule [NetworkItem [''udp'']] [] [] [] [] [] [PlainItem (NetworkItem [''udp''])] None False)))"
    by (simp add: udp_options_def route_builder_def DefaultRule_IsValid_def check_route_def NewDefaultRule_def route_steps_1_def
      route_steps_2_def process_steps_def network_steps_def geo_steps_def fail_if_def ip_version_step_def
      empty_route_options_def rule_set_step_def empty_rule_def NewNetworkItem_def)
  ultimately show ?thesis
    by (simp add: sample_route_options_def sample_rules_def) (simp add: mode_options_def udp_options_def mode_rule_def empty_rule_def)
qed

theorem route_references_sound_witness:
  "collectRuleReferences sample_route_options ''Rule'' [] [] = (True, [''games'', ''proxy''], []) \<and>
   matchRule mode_env (\<lambda>a m. Some m) sample_rules sample_context = Some (Some (RouteAction ''proxy''))"
proof -
  have c: "collectRuleReferences sample_route_options (current_mode mode_env) [] [] = (True, [''games'', ''proxy''], [])"
    by code_simp
  have mt: "matchRule mode_env (\<lambda>a m. Some m) sample_rules sample_context = Some (Some (RouteAction ''proxy''))"
    by code_simp
  have "list_all (decoded proper_route) sample_route_options" by code_simp
  from route_references_sound [OF sample_installed this c, of "\<lambda>a m. Some m" "\<lambda>a m. Some m", OF _ mt] c show ?thesis
    by (simp add: current_mode_def mode_env_def)
qed

definition plain_dns_route :: dns_route_options where
  "plain_dns_route = \<lparr>dr_Strategy = 0, dr_Timeout = 0, dr_DisableCache = False, dr_DisableOptimisticCache = False,
     dr_RewriteTTL = None, dr_ClientSubnet = None, dr_RemoveClientSubnet = False\<rparr>"

definition plain_query :: dns_query_options where
  "plain_query = \<lparr>q_Strategy = 0, q_DisableCache = False, q_DisableOptimisticCache = False, q_RewriteTTL = None, q_Timeout = 0, q_ClientSubnet = None,
     q_RemoveClientSubnet = False\<rparr>"

definition mode_dns_options :: "string \<Rightarrow> string \<Rightarrow> (dns_options, dns_rule_action) rule_options" where
  "mode_dns_options mode server = default_options (empty_dns_options\<lparr>o_ClashMode := mode, o_Invert := False\<rparr>)
     \<lparr>da_Action = DNSRouteAction server plain_dns_route False, da_Race = False\<rparr>"

definition sample_dns_options :: "(dns_options, dns_rule_action) rule_options list" where
  "sample_dns_options = [mode_dns_options ''direct'' ''local'', mode_dns_options ''rule'' ''remote'', mode_dns_options '''' ''unused'']"

definition sample_dns_rules :: "(rule \<times> dns_rule_action) list" where
  "sample_dns_rules = map (\<lambda>(mode, server). (DefaultDNSRule (mode_rule mode False) False '''',
     \<lparr>da_Action = DNSRouteAction server plain_dns_route False, da_Race = False\<rparr>))
     [(''direct'', ''local''), (''rule'', ''remote''), ('''', ''unused'')]"

lemma sample_dns_installed: "installed (dns_builder sample_lib True) (\<lambda>_. []) sample_dns_options sample_dns_rules"
proof -
  have "new_rule (dns_builder sample_lib True) True (mode_dns_options c (x # xs)) =
      Some (Inr (DefaultDNSRule (mode_rule c False) False ''''))" for c x xs
    by (simp add: mode_dns_options_def dns_builder_def DefaultDNSRule_IsValid_def zero_dns_action_def check_dns_def
      validateDNSRuleAction_def subnet_conflict_def plain_dns_route_def NewDefaultDNSRule_mode)
  then show ?thesis
    by (simp add: sample_dns_options_def sample_dns_rules_def) (simp add: mode_dns_options_def mode_rule_def empty_rule_def)
qed

theorem invert_only_unreferenced_witness:
  "\<exists>r. NewRule sample_lib True (default_options (empty_route_options\<lparr>o_Invert := True\<rparr>) (RouteAction ''proxy'')) = Some (Inr r) \<and>
     fst (rule_Match sample_env (fill_sets (\<lambda>_. []) r) sample_context)"
  using invert_only_unreferenced [of "''proxy''" sample_lib "''''"] by auto

theorem fakeip_rule_shadows_witness:
  "\<exists>r. NewDNSRule sample_lib True True (mode_dns_options '''' ''fake'') = Some (Inr r) \<and>
     fst (matchDNS sample_env (\<lambda>s. Some True) False True 0
       [(fill_sets (\<lambda>_. []) r, da_Action (ro_Action (mode_dns_options '''' ''fake'')))] sample_context plain_query) = DefaultChoice \<and>
     collectDNSRuleReferences [mode_dns_options '''' ''fake''] '''' [] = (True, [''fake''])"
proof -
  have "mode_dns_options '''' ''fake'' = default_options empty_dns_options
      \<lparr>da_Action = DNSRouteAction ''fake'' plain_dns_route False, da_Race = False\<rparr>"
    by (simp add: mode_dns_options_def empty_dns_options_def empty_route_options_def connection_options.defs)
  then show ?thesis
    by (simp only:) (rule fakeip_rule_shadows, simp_all add: plain_dns_route_def subnet_conflict_def)
qed

end
