(* ===== verification/StartOrder.thy ===== *)
theory StartOrder
  imports Prelude
begin

text \<open>
  Starting components in the order of their dependencies: the loop that
  \<^verbatim>\<open>adapter/outbound/manager.go\<close> (\<^verbatim>\<open>startOutbounds\<close>) and
  \<^verbatim>\<open>dns/transport_manager.go\<close> (\<^verbatim>\<open>startTransports\<close>) share.

  \<open>start_pass\<close> is the inner loop over the components, \<open>start_rounds\<close> the outer loop and
  \<open>lint\<close> the recursive search for the reason why no component can be started.
  \<^verbatim>\<open>started\<close> is the list of the keys of the Go map, in the order of insertion.  \<open>run\<close>
  starts one component on the state of the caller.
\<close>

subsection \<open>Components\<close>

text \<open>The struct \<^verbatim>\<open>Adapter\<close> that outbounds, endpoints and DNS servers embed.\<close>

record adapter =
  adapterType :: string
  adapterTag :: string
  adapterNetwork :: "string list"
  adapterDependencies :: "string list"

datatype 'e start_failure =
    StartFailed 'e
  | CircularDependency "string list" string
  | DependencyNotFound string string
  | NilComponent

subsection \<open>The loops\<close>

fun start_pass ::
    "('x adapter_scheme \<Rightarrow> 's \<Rightarrow> 'e option \<times> 's) \<Rightarrow> 'x adapter_scheme list \<Rightarrow> string list \<Rightarrow> bool
      \<Rightarrow> 's \<Rightarrow> ('e + string list \<times> bool) \<times> 's" where
  "start_pass run [] started canContinue s = (Inr (started, canContinue), s)"
| "start_pass run (x # xs) started canContinue s =
     (if adapterTag x \<in> set started then start_pass run xs started canContinue s
      else if list_ex (\<lambda>d. d \<notin> set started) (adapterDependencies x)
      then start_pass run xs started canContinue s
      else
        (case run x s of
           (Some e, s') \<Rightarrow> (Inl e, s')
         | (None, s') \<Rightarrow> start_pass run xs (started @ [adapterTag x]) True s'))"

text \<open>
  \<^verbatim>\<open>lintOutbound\<close>.  \<open>byTag\<close> is where a dependency is looked up; \<^verbatim>\<open>common.Find\<close> returns
  the empty string when every dependency has been started.
\<close>

function lint ::
    "(string \<times> 'x adapter_scheme) list \<Rightarrow> string list \<Rightarrow> string list \<Rightarrow> 'x adapter_scheme
      \<Rightarrow> 'e start_failure" where
  "lint byTag started oTree oCurrent =
     (let problem = (case find (\<lambda>d. d \<notin> set started) (adapterDependencies oCurrent) of
                       None \<Rightarrow> [] | Some d \<Rightarrow> d)
      in if problem \<in> set oTree then CircularDependency oTree problem
         else
           (case map_of byTag problem of
              None \<Rightarrow> DependencyNotFound problem (adapterTag oCurrent)
            | Some x \<Rightarrow> lint byTag started (oTree @ [problem]) x))"
  by pat_completeness auto

lemma lint_measure:
  assumes "map_of byTag problem = Some x" and "problem \<notin> set oTree"
  shows "card (fst ` set byTag - insert problem (set oTree)) < card (fst ` set byTag - set oTree)"
proof (rule psubset_card_mono)
  have "problem \<in> fst ` set byTag" using assms(1) by (force dest: map_of_SomeD)
  then show "fst ` set byTag - insert problem (set oTree) \<subset> fst ` set byTag - set oTree"
    using assms(2) by blast
qed simp

termination lint
  by (relation "measure (\<lambda>(byTag, started, oTree, x). card (fst ` set byTag - set oTree))")
    (auto intro: lint_measure)

declare lint.simps [simp del]

text \<open>
  The components that a pass starts: each after its dependencies, each with a tag not started
  before, all successfully.
\<close>

fun starts_in_order :: "string list \<Rightarrow> 'x adapter_scheme list \<Rightarrow> bool" where
  "starts_in_order started [] \<longleftrightarrow> True"
| "starts_in_order started (x # xs) \<longleftrightarrow>
     adapterTag x \<notin> set started \<and> set (adapterDependencies x) \<subseteq> set started
     \<and> starts_in_order (started @ [adapterTag x]) xs"

fun run_seq ::
    "('n \<Rightarrow> 's \<Rightarrow> 'e option \<times> 's) \<Rightarrow> 'n list \<Rightarrow> 's \<Rightarrow> 's option" where
  "run_seq run [] s = Some s"
| "run_seq run (x # xs) s =
     (case run x s of (None, s') \<Rightarrow> run_seq run xs s' | (Some e, s') \<Rightarrow> None)"

lemma start_pass_cases:
  assumes "start_pass run (x # xs) started p s = (Inr r, s')"
  obtains (skip) "adapterTag x \<in> set started \<or> \<not> set (adapterDependencies x) \<subseteq> set started"
      "start_pass run xs started p s = (Inr r, s')"
    | (start) s1 where "run x s = (None, s1)" "adapterTag x \<notin> set started"
        "set (adapterDependencies x) \<subseteq> set started"
        "start_pass run xs (started @ [adapterTag x]) True s1 = (Inr r, s')"
  using assms by (auto simp: list_ex_iff subset_iff split: if_splits prod.splits option.splits)

lemma start_pass_outcome:
  "start_pass run xs started p s = (Inr (started', p'), s') \<Longrightarrow>
    \<exists>ns. started' = started @ map adapterTag ns \<and> set ns \<subseteq> set xs \<and> starts_in_order started ns
      \<and> run_seq run ns s = Some s' \<and> (p' \<longleftrightarrow> p \<or> ns \<noteq> [])"
proof (induction xs arbitrary: started p s)
  case (Cons x xs)
  from Cons.prems show ?case
  proof (cases rule: start_pass_cases)
    case skip
    from Cons.IH [OF skip(2)] show ?thesis by auto
  next
    case (start s1)
    from Cons.IH [OF start(4)] obtain ns where
      "started' = (started @ [adapterTag x]) @ map adapterTag ns" "set ns \<subseteq> set xs"
      "starts_in_order (started @ [adapterTag x]) ns" "run_seq run ns s1 = Some s'" "p'"
      by auto
    with start show ?thesis by (intro exI [of _ "x # ns"]) auto
  qed
qed auto

lemma starts_in_order_distinct:
  "starts_in_order started ns \<Longrightarrow> distinct (map adapterTag ns) \<and> set started \<inter> adapterTag ` set ns = {}"
  by (induction started ns rule: starts_in_order.induct) auto

lemma starts_in_order_append:
  "starts_in_order started (ns @ ms) \<longleftrightarrow>
    starts_in_order started ns \<and> starts_in_order (started @ map adapterTag ns) ms"
  by (induction started ns rule: starts_in_order.induct) auto

lemma run_seq_append:
  "run_seq run (ns @ ms) s = Option.bind (run_seq run ns s) (run_seq run ms)"
  by (induction run ns s rule: run_seq.induct) (auto split: prod.splits option.splits)

function start_rounds ::
    "('x adapter_scheme \<Rightarrow> 's \<Rightarrow> 'e option \<times> 's) \<Rightarrow> (string \<times> 'x adapter_scheme) list
      \<Rightarrow> 'x adapter_scheme list \<Rightarrow> string list \<Rightarrow> 's \<Rightarrow> ('e start_failure + string list) \<times> 's" where
  "start_rounds run byTag xs started s =
     (case start_pass run xs started False s of
        (Inl e, s') \<Rightarrow> (Inl (StartFailed e), s')
      | (Inr (started', canContinue), s') \<Rightarrow>
          (if length started' = length xs then (Inr started', s')
           else if canContinue then start_rounds run byTag xs started' s'
           else
             (case find (\<lambda>x. adapterTag x \<notin> set started') xs of
                None \<Rightarrow> (Inl NilComponent, s')
              | Some x \<Rightarrow> (Inl (lint byTag started' [adapterTag x] x), s'))))"
  by pat_completeness auto

lemma start_rounds_measure:
  assumes "(Inr (started', True), s') = start_pass run xs started False s"
  shows "card (adapterTag ` set xs - set started') < card (adapterTag ` set xs - set started)"
proof (rule psubset_card_mono)
  obtain ns where ns: "started' = started @ map adapterTag ns" "set ns \<subseteq> set xs"
      "starts_in_order started ns" "ns \<noteq> []"
    using start_pass_outcome [OF assms [symmetric]] by auto
  then show "adapterTag ` set xs - set started' \<subset> adapterTag ` set xs - set started"
    using starts_in_order_distinct [OF ns(3)] by (cases ns) auto
qed simp

termination start_rounds
  by (relation "measure (\<lambda>(run, byTag, xs, started, s). card (adapterTag ` set xs - set started))")
    (auto dest: start_rounds_measure)

declare start_rounds.simps [simp del]

subsection \<open>What can be started\<close>

text \<open>
  A tag can be started when a component has it whose dependencies can all be started: the least
  such set of tags.  A tag depends on another when its component names it.
\<close>

inductive startable :: "'x adapter_scheme list \<Rightarrow> string \<Rightarrow> bool" for xs where
  "x \<in> set xs \<Longrightarrow> (\<And>d. d \<in> set (adapterDependencies x) \<Longrightarrow> startable xs d)
    \<Longrightarrow> startable xs (adapterTag x)"

definition depends :: "'x adapter_scheme list \<Rightarrow> string \<Rightarrow> string \<Rightarrow> bool" where
  "depends xs t d \<longleftrightarrow> (\<exists>x \<in> set xs. adapterTag x = t \<and> d \<in> set (adapterDependencies x))"

definition by_tag :: "'x adapter_scheme list \<Rightarrow> (string \<times> 'x adapter_scheme) list" where
  "by_tag xs = map (\<lambda>x. (adapterTag x, x)) xs"

lemma map_of_by_tag: "map_of (by_tag xs) t = Some x \<Longrightarrow> x \<in> set xs \<and> adapterTag x = t"
  by (auto simp: by_tag_def dest: map_of_SomeD)

lemma map_of_by_tag_None: "map_of (by_tag xs) t = None \<longleftrightarrow> t \<notin> adapterTag ` set xs"
  by (auto simp: by_tag_def map_of_eq_None_iff image_iff)

lemma starts_in_order_startable:
  "starts_in_order started ns \<Longrightarrow> set ns \<subseteq> set xs \<Longrightarrow> \<forall>t \<in> set started. startable xs t \<Longrightarrow>
    \<forall>x \<in> set ns. startable xs (adapterTag x)"
proof (induction started ns rule: starts_in_order.induct)
  case (2 started x ns)
  then have "startable xs (adapterTag x)" by (intro startable.intros) auto
  with 2 show ?case by auto
qed auto

text \<open>A round without progress: whatever is left waits for something that has not been started.\<close>

definition stuck :: "'x adapter_scheme list \<Rightarrow> string list \<Rightarrow> bool" where
  "stuck xs started \<longleftrightarrow>
     (\<forall>x \<in> set xs. adapterTag x \<in> set started \<or> \<not> set (adapterDependencies x) \<subseteq> set started)"

lemma start_pass_stuck:
  "start_pass run xs started False s = (Inr (started', False), s') \<Longrightarrow>
    started' = started \<and> s' = s \<and> stuck xs started"
proof (induction xs arbitrary: s)
  case (Cons x xs)
  from Cons.prems show ?case
  proof (cases rule: start_pass_cases)
    case skip
    with Cons.IH [OF skip(2)] show ?thesis by (auto simp: stuck_def)
  next
    case (start s1)
    with start_pass_outcome [OF start(4)] show ?thesis by simp
  qed
qed (auto simp: stuck_def)

lemma stuck_startable: "startable xs t \<Longrightarrow> stuck xs started \<Longrightarrow> t \<in> set started"
  by (induction rule: startable.induct) (auto simp: stuck_def)

lemma start_pass_fails:
  "start_pass run xs started p s = (Inl e, s') \<Longrightarrow>
    \<exists>ns x s1. set (ns @ [x]) \<subseteq> set xs \<and> starts_in_order started (ns @ [x])
      \<and> run_seq run ns s = Some s1 \<and> run x s1 = (Some e, s')"
proof (induction xs arbitrary: started p s)
  case (Cons x xs)
  consider (skip) "start_pass run xs started p s = (Inl e, s')"
    | (fail) "run x s = (Some e, s')" "starts_in_order started [x]"
    | (later) s1 where "run x s = (None, s1)" "starts_in_order started [x]"
        "start_pass run xs (started @ [adapterTag x]) True s1 = (Inl e, s')"
    using Cons.prems by (auto simp: list_ex_iff subset_iff split: if_splits prod.splits option.splits)
  then show ?case
  proof cases
    case skip
    from Cons.IH [OF this] show ?thesis by auto
  next
    case fail
    then show ?thesis by (intro exI [of _ "[]"]) auto
  next
    case (later s1)
    from Cons.IH [OF later(3)] obtain ns y s2 where
      "set (ns @ [y]) \<subseteq> set xs" "starts_in_order (started @ [adapterTag x]) (ns @ [y])"
      "run_seq run ns s1 = Some s2" "run y s2 = (Some e, s')" by blast
    with later show ?thesis
      by (intro exI [of _ "x # ns"] exI [of _ y] exI [of _ s2]) auto
  qed
qed auto

text \<open>What \<^verbatim>\<open>lintOutbound\<close> reports is true of the dependencies.\<close>

definition explains :: "'x adapter_scheme list \<Rightarrow> 'e start_failure \<Rightarrow> bool" where
  "explains xs f \<longleftrightarrow>
     (case f of
        CircularDependency path t \<Rightarrow> t \<in> set path \<and> successively (depends xs) (path @ [t])
      | DependencyNotFound d t \<Rightarrow> depends xs t d \<and> d \<notin> adapterTag ` set xs
      | _ \<Rightarrow> False)"

lemma lint_explains:
  assumes "stuck xs started" and "x \<in> set xs" and "adapterTag x \<notin> set started"
    and "oTree \<noteq> []" and "last oTree = adapterTag x" and "successively (depends xs) oTree"
  shows "explains xs (lint (by_tag xs) started oTree x :: 'e start_failure)"
  using assms
proof (induction "by_tag xs" started oTree x rule: lint.induct)
  case (1 started oTree x)
  obtain d where d: "find (\<lambda>d. d \<notin> set started) (adapterDependencies x) = Some d"
    using "1.prems"(1-3) by (cases "find (\<lambda>d. d \<notin> set started) (adapterDependencies x)")
      (auto simp: stuck_def find_None_iff subset_iff)
  then have "d \<in> set (adapterDependencies x)" "d \<notin> set started"
    by (auto simp: find_Some_iff in_set_conv_nth)
  then have edge: "depends xs (adapterTag x) d" using "1.prems"(2) by (auto simp: depends_def)
  then have path: "successively (depends xs) (oTree @ [d])"
    using "1.prems" by (simp add: successively_append_iff)
  show ?case
  proof (cases "d \<in> set oTree")
    case True
    with d path show ?thesis by (subst lint.simps) (simp add: explains_def)
  next
    case False
    show ?thesis
    proof (cases "map_of (by_tag xs) d")
      case None
      with False d edge show ?thesis
        by (subst lint.simps) (simp add: explains_def map_of_by_tag_None [symmetric])
    next
      case (Some y)
      then have "y \<in> set xs" "adapterTag y = d" using map_of_by_tag by blast+
      then have "explains xs (lint (by_tag xs) started (oTree @ [d]) y :: 'e start_failure)"
        using "1.prems"(1) False Some d path \<open>d \<notin> set started\<close> by (intro "1.hyps") auto
      with False d Some show ?thesis by (subst lint.simps) simp
    qed
  qed
qed

text \<open>Every way in which the outer loop ends.\<close>

inductive rounds_end ::
    "('x adapter_scheme \<Rightarrow> 's \<Rightarrow> 'e option \<times> 's) \<Rightarrow> 'x adapter_scheme list \<Rightarrow> 's
      \<Rightarrow> 'e start_failure + string list \<Rightarrow> 's \<Rightarrow> bool" for run xs s0 where
  all_started: "set ns \<subseteq> set xs \<Longrightarrow> starts_in_order [] ns \<Longrightarrow> run_seq run ns s0 = Some s1 \<Longrightarrow>
    length ns = length xs \<Longrightarrow> rounds_end run xs s0 (Inr (map adapterTag ns)) s1"
| start_failed: "set (ns @ [x]) \<subseteq> set xs \<Longrightarrow> starts_in_order [] (ns @ [x]) \<Longrightarrow>
    run_seq run ns s0 = Some s1 \<Longrightarrow> run x s1 = (Some e, s') \<Longrightarrow>
    rounds_end run xs s0 (Inl (StartFailed e)) s'"
| nothing_left: "set ns \<subseteq> set xs \<Longrightarrow> starts_in_order [] ns \<Longrightarrow> run_seq run ns s0 = Some s1 \<Longrightarrow>
    length ns \<noteq> length xs \<Longrightarrow> adapterTag ` set xs \<subseteq> adapterTag ` set ns \<Longrightarrow>
    rounds_end run xs s0 (Inl NilComponent) s1"
| blocked: "set ns \<subseteq> set xs \<Longrightarrow> starts_in_order [] ns \<Longrightarrow> run_seq run ns s0 = Some s1 \<Longrightarrow>
    stuck xs (map adapterTag ns) \<Longrightarrow> y \<in> set xs \<Longrightarrow> adapterTag y \<notin> adapterTag ` set ns \<Longrightarrow>
    explains xs f \<Longrightarrow> rounds_end run xs s0 (Inl f) s1"

lemma stuck_end:
  fixes run :: "'x adapter_scheme \<Rightarrow> 's \<Rightarrow> 'e option \<times> 's"
  assumes "set ns \<subseteq> set xs" and "starts_in_order [] ns" and "run_seq run ns s0 = Some s"
    and "length ns \<noteq> length xs" and "stuck xs (map adapterTag ns)"
  shows "rounds_end run xs s0
    (Inl (case find (\<lambda>x. adapterTag x \<notin> set (map adapterTag ns)) xs of
       None \<Rightarrow> NilComponent
     | Some x \<Rightarrow> lint (by_tag xs) (map adapterTag ns) [adapterTag x] x)) s"
proof (cases "find (\<lambda>x. adapterTag x \<notin> set (map adapterTag ns)) xs")
  case None
  then have "adapterTag ` set xs \<subseteq> adapterTag ` set ns" by (auto simp: find_None_iff)
  with assms None show ?thesis by (auto intro: nothing_left)
next
  case (Some x)
  then have x: "x \<in> set xs" "adapterTag x \<notin> set (map adapterTag ns)"
    by (auto simp: find_Some_iff in_set_conv_nth)
  have "explains xs (lint (by_tag xs) (map adapterTag ns) [adapterTag x] x :: 'e start_failure)"
    using assms(5) x by (intro lint_explains) auto
  with assms Some x show ?thesis by (auto intro: blocked)
qed

lemma start_rounds_end:
  fixes run :: "'x adapter_scheme \<Rightarrow> 's \<Rightarrow> 'e option \<times> 's"
  assumes "start_rounds run (by_tag xs) xs (map adapterTag ns0) s = (r, s')"
    and "set ns0 \<subseteq> set xs" and "starts_in_order [] ns0" and "run_seq run ns0 s0 = Some s"
  shows "rounds_end run xs s0 r s'"
  using assms
proof (induction run "by_tag xs" xs "map adapterTag ns0" s arbitrary: ns0 rule: start_rounds.induct)
  case (1 run xs s)
  obtain res s1 where pass: "start_pass run xs (map adapterTag ns0) False s = (res, s1)"
    by (cases "start_pass run xs (map adapterTag ns0) False s")
  show ?case
  proof (cases res)
    case (Inl e)
    with pass "1.prems"(1) have r: "r = Inl (StartFailed e)" "s' = s1"
      by (auto simp: start_rounds.simps [of run "by_tag xs" xs "map adapterTag ns0" s])
    from start_pass_fails [OF pass [unfolded Inl]] obtain ns x s2 where
      "set (ns @ [x]) \<subseteq> set xs" "starts_in_order (map adapterTag ns0) (ns @ [x])"
      "run_seq run ns s = Some s2" "run x s2 = (Some e, s1)" by blast
    then have "rounds_end run xs s0 (Inl (StartFailed e)) s1"
      using "1.prems"(2-)
      by (intro start_failed [where ns = "ns0 @ ns" and x = x and ?s1.0 = s2]) (auto simp: starts_in_order_append run_seq_append)
    with r show ?thesis by simp
  next
    case (Inr p)
    obtain st c where p: "p = (st, c)" by (cases p)
    from start_pass_outcome [OF pass [unfolded Inr p]] obtain ns where
      ns: "st = map adapterTag (ns0 @ ns)" "set ns \<subseteq> set xs"
        "starts_in_order (map adapterTag ns0) ns" "run_seq run ns s = Some s1" by auto
    with "1.prems"(2-) have all: "set (ns0 @ ns) \<subseteq> set xs" "starts_in_order [] (ns0 @ ns)"
        "run_seq run (ns0 @ ns) s0 = Some s1"
      by (simp_all add: starts_in_order_append run_seq_append)
    note step = "1.prems"(1) [unfolded start_rounds.simps [of run "by_tag xs" xs "map adapterTag ns0" s]
        pass Inr p ns(1), simplified]
    show ?thesis
    proof (cases "length (ns0 @ ns) = length xs")
      case True
      with step show ?thesis
        using all_started [OF all True] by simp
    next
      case False
      show ?thesis
      proof (cases c)
        case True
        with False step have "start_rounds run (by_tag xs) xs (map adapterTag (ns0 @ ns)) s1 = (r, s')"
          by simp
        from "1.hyps" [OF pass [symmetric] Inr _ _ True this all] show ?thesis
          using p ns(1) False by simp
      next
        case c: False
        then have quiet: "ns = []" "s1 = s" "stuck xs (map adapterTag ns0)"
          using start_pass_stuck [of run xs "map adapterTag ns0" s st s1] pass Inr p ns(1) by auto
        have "r = Inl (case find (\<lambda>x. adapterTag x \<notin> set (map adapterTag ns0)) xs of
            None \<Rightarrow> NilComponent
          | Some x \<Rightarrow> lint (by_tag xs) (map adapterTag ns0) [adapterTag x] x)" "s' = s"
          using step False c quiet by (auto split: option.splits)
        with stuck_end [of ns0 xs run s0 s] "1.prems"(2-) False quiet show ?thesis by simp
      qed
    qed
  qed
qed


lemma starts_in_order_all:
  assumes "starts_in_order [] ns" and "set ns \<subseteq> set xs" and "length ns = length xs"
    and "distinct (map adapterTag xs)"
  shows "set ns = set xs \<and> distinct ns"
proof -
  have "distinct ns" using starts_in_order_distinct [OF assms(1)] by (simp add: distinct_map)
  moreover have "distinct xs" using assms(4) by (simp add: distinct_map)
  ultimately show ?thesis
    using assms(2,3) by (simp add: card_subset_eq distinct_card)
qed

lemma unstarted_remains:
  assumes "starts_in_order [] ns" and "set ns \<subseteq> set xs" and "length ns \<noteq> length xs"
    and "distinct (map adapterTag xs)"
  obtains x where "x \<in> set xs" "adapterTag x \<notin> adapterTag ` set ns"
proof -
  have "distinct (map adapterTag ns)" using starts_in_order_distinct [OF assms(1)] by simp
  then have "card (adapterTag ` set ns) = length ns" and "card (adapterTag ` set xs) = length xs"
    using assms(4) distinct_card [of "map adapterTag ns"] distinct_card [of "map adapterTag xs"] by simp_all
  then have "adapterTag ` set ns \<noteq> adapterTag ` set xs" using assms(3) by auto
  with assms(2) that show thesis by blast
qed

text \<open>The lookup table only matters as a map.\<close>

lemma lint_cong:
  "map_of byTag = map_of byTag' \<Longrightarrow> lint byTag started oTree x = lint byTag' started oTree x"
proof (induction byTag started oTree x rule: lint.induct)
  case (1 byTag started oTree x)
  show ?case
    by (subst (1 2) lint.simps)
      (use 1 in \<open>auto simp: Let_def split: option.splits\<close>)
qed

lemma start_rounds_cong:
  "map_of byTag = map_of byTag' \<Longrightarrow> start_rounds run byTag xs started s = start_rounds run byTag' xs started s"
proof (induction run byTag xs started s rule: start_rounds.induct)
  case (1 run byTag xs started s)
  show ?case
    by (subst (1 2) start_rounds.simps)
      (use 1 in \<open>auto simp: lint_cong [OF "1.prems"] split: prod.splits sum.splits option.splits\<close>)
qed

text \<open>
  The contract of the loop on components with distinct tags: success means that all of them ran,
  once each and in the order of the dependencies; a failure other than that of a component is
  explained by the dependencies; and a component that cannot be started is what stops the loop.
\<close>

definition start_contract ::
    "('x adapter_scheme \<Rightarrow> 's \<Rightarrow> 'e option \<times> 's) \<Rightarrow> 'x adapter_scheme list \<Rightarrow> 's
      \<Rightarrow> 'e start_failure + string list \<Rightarrow> 's \<Rightarrow> bool" where
  "start_contract run xs s r s' \<longleftrightarrow>
     (case r of
        Inr st \<Rightarrow> (\<exists>ns. st = map adapterTag ns \<and> set ns = set xs \<and> distinct ns
          \<and> starts_in_order [] ns \<and> run_seq run ns s = Some s')
      | Inl (StartFailed e) \<Rightarrow> (\<exists>ns x s1. set (ns @ [x]) \<subseteq> set xs \<and> starts_in_order [] (ns @ [x])
          \<and> run_seq run ns s = Some s1 \<and> run x s1 = (Some e, s'))
      | Inl f \<Rightarrow> explains xs f \<and> (\<exists>x \<in> set xs. \<not> startable xs (adapterTag x)))
     \<and> ((\<exists>st. r = Inr st) \<longrightarrow> (\<forall>x \<in> set xs. startable xs (adapterTag x)))"

lemma start_rounds_contract:
  assumes "distinct (map adapterTag xs)" and "start_rounds run (by_tag xs) xs [] s = (r, s')"
  shows "start_contract run xs s r s'"
proof -
  have "rounds_end run xs s r s'"
    using start_rounds_end [of run xs "[]" s r s' s] assms(2) by simp
  then show ?thesis
  proof cases
    case (all_started ns)
    then have all: "set ns = set xs" "distinct ns"
      using starts_in_order_all [OF all_started(3,2,5) assms(1)] by simp_all
    have "\<forall>x \<in> set xs. startable xs (adapterTag x)"
      using starts_in_order_startable [OF all_started(3,2)] all(1) by simp
    then show ?thesis
      unfolding start_contract_def all_started(1)
      using all all_started(3,4) by (simp, intro exI [of _ ns]) simp
  next
    case (start_failed ns x s1 e)
    have "\<exists>ns x s1. set (ns @ [x]) \<subseteq> set xs \<and> starts_in_order [] (ns @ [x])
        \<and> run_seq run ns s = Some s1 \<and> run x s1 = (Some e, s')"
      by (intro exI conjI) (fact start_failed)+
    then show ?thesis unfolding start_contract_def start_failed(1) by simp
  next
    case (nothing_left ns)
    obtain x where "x \<in> set xs" "adapterTag x \<notin> adapterTag ` set ns"
      using unstarted_remains [OF nothing_left(3,2,5) assms(1)] .
    with nothing_left(6) show ?thesis by blast
  next
    case (blocked ns y f)
    then have "\<not> startable xs (adapterTag y)"
      using stuck_startable [of xs "adapterTag y" "map adapterTag ns"] by auto
    with blocked(6) have "\<exists>x \<in> set xs. \<not> startable xs (adapterTag x)" by blast
    with blocked(8) show ?thesis
      unfolding start_contract_def blocked(1) by (cases f) (simp_all add: explains_def)
  qed
qed

lemma run_seq_inv:
  assumes "\<And>x s. I s \<Longrightarrow> fst (run x s) = None \<and> I (snd (run x s))"
  shows "I s \<Longrightarrow> run_seq run ns s = Some s' \<Longrightarrow> I s'"
proof (induction ns arbitrary: s)
  case (Cons x ns)
  with assms [of s x] show ?case by (cases "run x s") (auto split: option.splits)
qed simp

text \<open>When no component fails, the loop succeeds exactly if everything can be started.\<close>

lemma start_rounds_complete:
  assumes "distinct (map adapterTag xs)" and "I s"
    and "\<And>x s. I s \<Longrightarrow> fst (run x s) = None \<and> I (snd (run x s))"
    and "start_rounds run (by_tag xs) xs [] s = (r, s')"
  shows "(\<exists>st. r = Inr st) \<longleftrightarrow> (\<forall>x \<in> set xs. startable xs (adapterTag x))"
proof -
  have contract: "start_contract run xs s r s'" by (rule start_rounds_contract [OF assms(1,4)])
  have "r \<noteq> Inl (StartFailed e)" for e
  proof
    assume "r = Inl (StartFailed e)"
    then obtain ns x s1 where "run_seq run ns s = Some s1" "run x s1 = (Some e, s')"
      using contract by (auto simp: start_contract_def)
    with run_seq_inv [of I run s ns s1] assms(2) assms(3) [of s1 x] assms(3) show False by auto
  qed
  with contract show ?thesis
    by (cases r) (auto simp: start_contract_def split: start_failure.splits)
qed

text \<open>Two components of one tag: the map of the started tags never gets as long as the list.\<close>

lemma start_rounds_duplicate:
  assumes "\<not> distinct (map adapterTag xs)" and "\<forall>x \<in> set xs. startable xs (adapterTag x)"
    and "I s" and "\<And>x s. I s \<Longrightarrow> fst (run x s) = None \<and> I (snd (run x s))"
    and "start_rounds run (by_tag xs) xs [] s = (r, s')"
  shows "r = Inl NilComponent"
proof -
  have "rounds_end run xs s r s'"
    using start_rounds_end [of run xs "[]" s r s' s] assms(5) by simp
  then show ?thesis
  proof cases
    case (all_started ns)
    then have "card (adapterTag ` set ns) = length xs"
      using starts_in_order_distinct [of "[]" ns] distinct_card [of "map adapterTag ns"] by simp
    moreover have "card (adapterTag ` set xs) < length xs"
      using assms(1) card_distinct [of "map adapterTag xs"] card_length [of "map adapterTag xs"] by fastforce
    ultimately show ?thesis
      using all_started(2) card_mono [of "adapterTag ` set xs" "adapterTag ` set ns"] by auto
  next
    case (start_failed ns x s1 e)
    with run_seq_inv [of I run s ns s1] assms(3,4) assms(4) [of s1 x] show ?thesis by auto
  next
    case (blocked ns y f)
    with assms(2) stuck_startable [of xs "adapterTag y"] show ?thesis by fastforce
  qed
qed

end
