(* ===== verification/Lifecycle.thy ===== *)
theory Lifecycle
  imports Prelude
begin

text \<open>
  The lifecycle of components: \<^verbatim>\<open>adapter/lifecycle.go\<close>.

  A \<^verbatim>\<open>Scope\<close> is kept as a tree.  The closure that \<^verbatim>\<open>Scope.Start\<close> registers for a
  component closes that component's child scope, and \<^verbatim>\<open>children\<close> points to the same child;
  both are the one entry \<open>CloseChild\<close> of the list of cleanups.  Cleanups of other kinds are
  opaque values that the caller's \<open>exec\<close> runs on the caller's state.  The error functions of
  the \<^verbatim>\<open>sing\<close> library are the fields of \<open>err_lib\<close>.  Logging and the task monitors are
  left out.
\<close>

subsection \<open>Stages\<close>

datatype StartStage =
    StartStateInitialize | StartStateStart | StartStatePostStart | StartStateStarted

definition ListStartStages :: "StartStage list" where
  "ListStartStages =
     [StartStateInitialize, StartStateStart, StartStatePostStart, StartStateStarted]"

fun stage_String :: "StartStage \<Rightarrow> string" where
  "stage_String StartStateInitialize = ''initialize''"
| "stage_String StartStateStart = ''start''"
| "stage_String StartStatePostStart = ''post-start''"
| "stage_String StartStateStarted = ''finish-start''"

subsection \<open>Scopes\<close>

record 'e err_lib =
  err_Expand :: "'e option \<Rightarrow> 'e list"
  err_Errors :: "'e list \<Rightarrow> 'e option"
  err_Cause :: "'e \<Rightarrow> string list \<Rightarrow> 'e"
  err_IsClosed :: "'e \<Rightarrow> bool"
  err_IsCanceled :: "'e \<Rightarrow> bool"
  ctx_Canceled :: 'e

datatype ('c, 'f) scope = Scope (cancelled: bool) (cleanups: "('c, 'f) cleanup list")
and ('c, 'f) cleanup = Cleanup 'f | CloseChild string 'c "('c, 'f) scope"

definition NewScope :: "bool \<Rightarrow> ('c, 'f) scope" where
  "NewScope parent_cancelled = Scope parent_cancelled []"

fun scope_Add :: "'f \<Rightarrow> ('c, 'f) scope \<Rightarrow> ('c, 'f) scope" where
  "scope_Add f (Scope x cl) = Scope x (cl @ [Cleanup f])"

fun find_child :: "'c \<Rightarrow> ('c, 'f) cleanup list \<Rightarrow> ('c, 'f) scope option" where
  "find_child c [] = None"
| "find_child c (Cleanup f # cl) = find_child c cl"
| "find_child c (CloseChild name d s # cl) = (if d = c then Some s else find_child c cl)"

fun set_child :: "'c \<Rightarrow> ('c, 'f) scope \<Rightarrow> ('c, 'f) cleanup list \<Rightarrow> ('c, 'f) cleanup list" where
  "set_child c s' [] = []"
| "set_child c s' (Cleanup f # cl) = Cleanup f # set_child c s' cl"
| "set_child c s' (CloseChild name d s # cl) =
     (if d = c then CloseChild name d s' # cl else CloseChild name d s # set_child c s' cl)"

type_synonym ('c, 'f, 'e, 'w) start_method =
  "'c \<Rightarrow> StartStage \<Rightarrow> ('c, 'f) scope \<Rightarrow> 'w \<Rightarrow> 'e option \<times> ('c, 'f) scope \<times> 'w"

text \<open>\<open>start\<close> is the \<^verbatim>\<open>Start\<close> method of the components; it works on the child scope.\<close>

fun scope_Start ::
    "'e err_lib \<Rightarrow> ('c, 'f, 'e, 'w) start_method \<Rightarrow> string \<Rightarrow> 'c \<Rightarrow> StartStage
      \<Rightarrow> ('c, 'f) scope \<Rightarrow> 'w \<Rightarrow> 'e option \<times> ('c, 'f) scope \<times> 'w" where
  "scope_Start L start name component stage (Scope x cl) w =
     (if x then (Some (ctx_Canceled L), Scope x cl, w)
      else
        (let (child, cl1) =
               (case find_child component cl of
                  Some child \<Rightarrow> (child, cl)
                | None \<Rightarrow> (NewScope x, cl @ [CloseChild name component (NewScope x)]));
             (err, child', w') = start component stage child w
         in (map_option (\<lambda>e. err_Cause L e [stage_String stage, '' '', name]) err,
             Scope x (set_child component child' cl1), w')))"

text \<open>
  \<^verbatim>\<open>Close\<close> cancels the context, takes the cleanups and runs them from the last to the first;
  the errors are collected in that order.
\<close>

fun scope_Close ::
    "'e err_lib \<Rightarrow> ('f \<Rightarrow> 'w \<Rightarrow> 'e option \<times> 'w) \<Rightarrow> ('c, 'f) scope \<Rightarrow> 'w
      \<Rightarrow> 'e option \<times> ('c, 'f) scope \<times> 'w"
and run_cleanups ::
    "'e err_lib \<Rightarrow> ('f \<Rightarrow> 'w \<Rightarrow> 'e option \<times> 'w) \<Rightarrow> ('c, 'f) cleanup list \<Rightarrow> 'w
      \<Rightarrow> 'e list \<times> 'w"
and run_cleanup ::
    "'e err_lib \<Rightarrow> ('f \<Rightarrow> 'w \<Rightarrow> 'e option \<times> 'w) \<Rightarrow> ('c, 'f) cleanup \<Rightarrow> 'w
      \<Rightarrow> 'e option \<times> 'w" where
  "scope_Close L exec (Scope x cl) w =
     (let (errs, w') = run_cleanups L exec cl w
      in (err_Errors L (filter (\<lambda>e. \<not> err_IsClosed L e \<and> \<not> err_IsCanceled L e) errs),
          Scope True [], w'))"
| "run_cleanups L exec [] w = ([], w)"
| "run_cleanups L exec (c # cl) w =
     (let (errs, w1) = run_cleanups L exec cl w;
          (err, w2) = run_cleanup L exec c w1
      in (errs @ err_Expand L err, w2))"
| "run_cleanup L exec (Cleanup f) w = exec f w"
| "run_cleanup L exec (CloseChild name c s) w =
     (let (err, s', w') = scope_Close L exec s w
      in (map_option (\<lambda>e. err_Cause L e [''close '', name]) err, w'))"

subsection \<open>Lemmas\<close>

text \<open>The cleanups of a scope in the order of their registration, those of a child at its place.\<close>

fun scope_order :: "('c, 'f) scope \<Rightarrow> 'f list"
and cleanup_order :: "('c, 'f) cleanup \<Rightarrow> 'f list" where
  "scope_order (Scope x cl) = concat (map cleanup_order cl)"
| "cleanup_order (Cleanup f) = [f]"
| "cleanup_order (CloseChild name c s) = scope_order s"

fun child_names :: "('c, 'f) cleanup list \<Rightarrow> 'c list" where
  "child_names [] = []"
| "child_names (Cleanup f # cl) = child_names cl"
| "child_names (CloseChild name c s # cl) = c # child_names cl"

definition run_all :: "('f \<Rightarrow> 'w \<Rightarrow> 'e option \<times> 'w) \<Rightarrow> 'f list \<Rightarrow> 'w \<Rightarrow> 'w" where
  "run_all exec fs w = fold (\<lambda>f w. snd (exec f w)) fs w"

lemma run_all_append: "run_all exec (fs @ gs) w = run_all exec gs (run_all exec fs w)"
  by (simp add: run_all_def)

lemma close_effect:
  fixes s :: "('c, 'f) scope" and cl :: "('c, 'f) cleanup list" and c :: "('c, 'f) cleanup"
    and L :: "'e err_lib" and exec :: "'f \<Rightarrow> 'w \<Rightarrow> 'e option \<times> 'w"
  shows "snd (snd (scope_Close L exec s w)) = run_all exec (rev (scope_order s)) w"
  "snd (run_cleanups L exec cl w) = run_all exec (rev (concat (map cleanup_order cl))) w"
  "snd (run_cleanup L exec c w) = run_all exec (rev (cleanup_order c)) w"
proof (induction L exec s w and L exec cl w and L exec c w
    rule: scope_Close_run_cleanups_run_cleanup.induct)
  case (3 L exec c cl w)
  obtain errs w1 where cl: "run_cleanups L exec cl w = (errs, w1)"
    by (cases "run_cleanups L exec cl w")
  obtain err w2 where c: "run_cleanup L exec c w1 = (err, w2)"
    by (cases "run_cleanup L exec c w1")
  show ?case
    using "3.IH"(1) "3.IH"(2) [of "(errs, w1)" errs w1] cl c by (simp add: run_all_append)
qed (auto simp: Let_def run_all_def split: prod.splits)

lemma child_names_append [simp]: "child_names (xs @ ys) = child_names xs @ child_names ys"
  by (induction xs rule: child_names.induct) auto

lemma child_names_set_child [simp]: "child_names (set_child c s cl) = child_names cl"
  by (induction c s cl rule: set_child.induct) auto

lemma find_child_None: "find_child c cl = None \<longleftrightarrow> c \<notin> set (child_names cl)"
  by (induction c cl rule: find_child.induct) auto

lemma set_child_append_new:
  "find_child c cl = None \<Longrightarrow> set_child c s' (cl @ [CloseChild name c s]) = cl @ [CloseChild name c s']"
  by (induction c s' cl rule: set_child.induct) (auto split: if_splits)

lemma find_set_child: "find_child c cl \<noteq> None \<Longrightarrow> find_child c (set_child c s cl) = Some s"
  by (induction c s cl rule: set_child.induct) auto

lemma find_child_append_new:
  "find_child c cl = None \<Longrightarrow> find_child c (cl @ [CloseChild name c s]) = Some s"
  by (induction c cl rule: find_child.induct) (auto split: if_splits)

text \<open>What one call of \<^verbatim>\<open>Scope.Start\<close> leaves behind.\<close>

lemma scope_Start_children:
  assumes "\<not> cancelled s"
  shows "\<not> cancelled (fst (snd (scope_Start L start name c stage s w)))
    \<and> child_names (cleanups (fst (snd (scope_Start L start name c stage s w)))) =
      (if c \<in> set (child_names (cleanups s)) then child_names (cleanups s)
       else child_names (cleanups s) @ [c])"
  using assms
  by (cases s) (auto simp: find_child_None [symmetric] set_child_append_new Let_def
      split: option.splits prod.splits)

text \<open>A run of start calls, whatever each of them returns.\<close>

fun start_all ::
    "'e err_lib \<Rightarrow> ('c, 'f, 'e, 'w) start_method \<Rightarrow> (string \<times> 'c \<times> StartStage) list
      \<Rightarrow> ('c, 'f) scope \<Rightarrow> 'w \<Rightarrow> ('c, 'f) scope \<times> 'w" where
  "start_all L start [] s w = (s, w)"
| "start_all L start ((name, c, stage) # cs) s w =
     (let (err, s', w') = scope_Start L start name c stage s w in start_all L start cs s' w')"

fun first_seen :: "'c list \<Rightarrow> 'c list \<Rightarrow> 'c list" where
  "first_seen seen [] = seen"
| "first_seen seen (c # cs) = first_seen (if c \<in> set seen then seen else seen @ [c]) cs"

lemma first_seen_distinct: "distinct seen \<Longrightarrow> distinct (first_seen seen cs) \<and> set (first_seen seen cs) = set seen \<union> set cs"
  by (induction seen cs rule: first_seen.induct) (auto simp: insert_absorb)

lemma start_all_children:
  "\<not> cancelled s \<Longrightarrow> \<not> cancelled (fst (start_all L start cs s w))
    \<and> child_names (cleanups (fst (start_all L start cs s w))) =
      first_seen (child_names (cleanups s)) (map (fst \<circ> snd) cs)"
proof (induction cs arbitrary: s w)
  case (Cons x cs)
  obtain name c stage where x: "x = (name, c, stage)" by (cases x)
  obtain err s' w' where run: "scope_Start L start name c stage s w = (err, s', w')"
    by (cases "scope_Start L start name c stage s w")
  from scope_Start_children [OF Cons.prems, of L start name c stage w] Cons.IH [of s' w'] show ?case
    by (simp add: x run)
qed simp

subsection \<open>Properties\<close>

text \<open>
  C33: \<^verbatim>\<open>Scope.Close\<close> runs every registered cleanup once, in the reverse order of registration,
  the cleanups of a child scope at the place where its component was first started, and goes on
  when one of them fails.  A closed scope has nothing left to run, and starting a component in it
  returns the context's error without calling the component.
\<close>

theorem scope_close_reverse:
  "case scope_Close L exec s w of (err, s', w') \<Rightarrow>
     w' = run_all exec (rev (scope_order s)) w
     \<and> scope_Close L exec s' v = (err_Errors L [], s', v)
     \<and> scope_Start L start name c stage s' v = (Some (ctx_Canceled L), s', v)"
  using close_effect(1) [of L exec s w] by (cases s) (auto simp: Let_def split: prod.splits)

text \<open>
  \<^verbatim>\<open>Scope.Start\<close> over any sequence of components and stages, failures included, gives every
  component exactly one child scope, in the order of the first starts.
\<close>

theorem scope_children_once:
  "case start_all L start cs (NewScope False) w of (s, w') \<Rightarrow>
     child_names (cleanups s) = first_seen [] (map (fst \<circ> snd) cs)
     \<and> distinct (child_names (cleanups s))
     \<and> set (child_names (cleanups s)) = set (map (fst \<circ> snd) cs)"
  using start_all_children [of "NewScope False" L start cs w]
    first_seen_distinct [of "[]" "map (fst \<circ> snd) cs"]
  by (cases "start_all L start cs (NewScope False) w") (simp add: NewScope_def)

end
