(* ===== verification/OutboundManager.thy ===== *)
theory OutboundManager
  imports StartOrder Lifecycle "HOL-Library.AList"
begin

text \<open>
  The managers of outbounds and endpoints: \<^verbatim>\<open>adapter/outbound/manager.go\<close>,
  \<^verbatim>\<open>manager_chain_lx.go\<close>, \<^verbatim>\<open>adapter.go\<close> of the same package,
  \<^verbatim>\<open>adapter/endpoint/manager.go\<close> with \<^verbatim>\<open>manager_close_lx.go\<close>, and the check of the
  configured tags in \<^verbatim>\<open>option/options.go\<close>.

  The Go maps by tag are association lists.  A registry is a function that creates a component
  from its tag, type and options; \<open>start\<close> is the \<^verbatim>\<open>Start\<close> method of the components.
\<close>

subsection \<open>Outbounds\<close>

datatype outbound_kind = EndpointKind | LifecycleKind | PlainKind

record outbound = adapter +
  outboundKind :: outbound_kind

definition NewAdapter :: "string \<Rightarrow> string \<Rightarrow> string list \<Rightarrow> string list \<Rightarrow> adapter" where
  "NewAdapter outboundType outboundTag network dependencies =
     \<lparr>adapterType = outboundType, adapterTag = outboundTag, adapterNetwork = network,
      adapterDependencies = dependencies\<rparr>"

definition NewAdapterWithDialerOptions ::
    "string \<Rightarrow> string \<Rightarrow> string list \<Rightarrow> string \<Rightarrow> adapter" where
  "NewAdapterWithDialerOptions outboundType outboundTag network detour =
     NewAdapter outboundType outboundTag network (if detour \<noteq> [] then [detour] else [])"

subsection \<open>The endpoint manager\<close>

text \<open>
  \<open>em_cancelled\<close> is the state of the context of the scope that \<^verbatim>\<open>Start\<close> stores at the first
  stage.  \<open>endpointScopes\<close> stands for the map of that name and for \<^verbatim>\<open>endpointClosers\<close>, which
  has the same scopes in the order of their creation.
\<close>

record ('ob, 'f) endpoint_manager =
  endpoints :: "outbound list"
  endpointByTag :: "(string \<times> outbound) list"
  em_optionsByTag :: "(string \<times> string \<times> 'ob) list"
  em_cancelled :: bool
  endpointScopes :: "(outbound \<times> (outbound, 'f) scope) list"

datatype 'e manager_error =
    ErrInvalid
  | RegistryError 'e
  | DuplicateTag string
  | DefaultNotFound string
  | FallbackError 'e
  | CollidesWithOutbound string
  | AlreadyRegistered string
  | CollidesWithEndpoint string
  | ComponentError 'e
  | DependencyError "'e start_failure"

definition NewEndpointManager :: "('ob, 'f) endpoint_manager" where
  "NewEndpointManager =
     \<lparr>endpoints = [], endpointByTag = [], em_optionsByTag = [], em_cancelled = False,
      endpointScopes = []\<rparr>"

definition endpoint_Get :: "('ob, 'f) endpoint_manager \<Rightarrow> string \<Rightarrow> outbound option" where
  "endpoint_Get em tag = map_of (endpointByTag em) tag"

definition endpoint_OptionsOf :: "('ob, 'f) endpoint_manager \<Rightarrow> string \<Rightarrow> (string \<times> 'ob) option" where
  "endpoint_OptionsOf em tag = map_of (em_optionsByTag em) tag"

definition endpoint_Create ::
    "(string \<Rightarrow> string \<Rightarrow> 'ob \<Rightarrow> 'e + outbound) \<Rightarrow> string \<Rightarrow> string \<Rightarrow> 'ob
      \<Rightarrow> ('ob, 'f) endpoint_manager \<Rightarrow> 'e manager_error option \<times> ('ob, 'f) endpoint_manager" where
  "endpoint_Create registry tag outboundType options em =
     (case registry tag outboundType options of
        Inl e \<Rightarrow> (Some (RegistryError e), em)
      | Inr endpoint \<Rightarrow>
          (if map_of (endpointByTag em) tag \<noteq> None then (Some (DuplicateTag tag), em)
           else
             (None,
              em\<lparr>endpoints := endpoints em @ [endpoint],
                 endpointByTag := AList.update tag endpoint (endpointByTag em),
                 em_optionsByTag := AList.update tag (outboundType, options) (em_optionsByTag em)\<rparr>)))"

definition endpoint_name :: "outbound \<Rightarrow> string" where
  "endpoint_name x = ''endpoint/'' @ adapterType x @ ''['' @ adapterTag x @ '']''"

definition endpointScope ::
    "outbound \<Rightarrow> ('ob, 'f) endpoint_manager \<Rightarrow> (outbound, 'f) scope \<times> ('ob, 'f) endpoint_manager" where
  "endpointScope x em =
     (case map_of (endpointScopes em) x of
        Some s \<Rightarrow> (s, em)
      | None \<Rightarrow>
          (let s = NewScope (em_cancelled em)
           in (s, em\<lparr>endpointScopes := endpointScopes em @ [(x, s)]\<rparr>)))"

text \<open>Starting an endpoint in its own scope, at a stage.\<close>

definition start_endpoint_at ::
    "'e err_lib \<Rightarrow> (outbound, 'f, 'e, 'w) start_method \<Rightarrow> StartStage \<Rightarrow> outbound
      \<Rightarrow> ('ob, 'f) endpoint_manager \<Rightarrow> 'w \<Rightarrow> 'e option \<times> ('ob, 'f) endpoint_manager \<times> 'w" where
  "start_endpoint_at L start stage x em w =
     (let (s, em1) = endpointScope x em;
          (err, s', w') = scope_Start L start (endpoint_name x) x stage s w
      in (err, em1\<lparr>endpointScopes := AList.update x s' (endpointScopes em1)\<rparr>, w'))"

definition StartEndpoint ::
    "'e err_lib \<Rightarrow> (outbound, 'f, 'e, 'w) start_method \<Rightarrow> outbound
      \<Rightarrow> ('ob, 'f) endpoint_manager \<Rightarrow> 'w \<Rightarrow> 'e option \<times> ('ob, 'f) endpoint_manager \<times> 'w" where
  "StartEndpoint L start x em w = start_endpoint_at L start StartStateStart x em w"

fun start_endpoints ::
    "'e err_lib \<Rightarrow> (outbound, 'f, 'e, 'w) start_method \<Rightarrow> StartStage \<Rightarrow> outbound list
      \<Rightarrow> ('ob, 'f) endpoint_manager \<Rightarrow> 'w \<Rightarrow> 'e option \<times> ('ob, 'f) endpoint_manager \<times> 'w" where
  "start_endpoints L start stage [] em w = (None, em, w)"
| "start_endpoints L start stage (x # xs) em w =
     (case start_endpoint_at L start stage x em w of
        (Some e, em', w') \<Rightarrow> (Some e, em', w')
      | (None, em', w') \<Rightarrow> start_endpoints L start stage xs em' w')"

text \<open>
  \<open>closeEndpoints\<close> is the cleanup the manager registers in its scope at the first stage; the
  endpoints themselves are started at the second stage by the outbound manager.
\<close>

definition endpoint_Start ::
    "'e err_lib \<Rightarrow> (outbound, 'f, 'e, 'w) start_method \<Rightarrow> 'f \<Rightarrow> StartStage
      \<Rightarrow> (outbound, 'f) scope \<Rightarrow> ('ob, 'f) endpoint_manager \<Rightarrow> 'w
      \<Rightarrow> 'e option \<times> (outbound, 'f) scope \<times> ('ob, 'f) endpoint_manager \<times> 'w" where
  "endpoint_Start L start closeEndpoints stage sc em w =
     (let (sc1, em1) =
            (if stage = StartStateInitialize
             then (scope_Add closeEndpoints sc, em\<lparr>em_cancelled := cancelled sc\<rparr>)
             else (sc, em))
      in if stage = StartStateStart then (None, sc1, em1, w)
         else
           (let (err, em2, w') = start_endpoints L start stage (endpoints em1) em1 w
            in (err, sc1, em2, w')))"

subsection \<open>The outbound manager\<close>

record 'ob manager =
  defaultTag :: string
  outbounds :: "outbound list"
  outboundByTag :: "(string \<times> outbound) list"
  defaultOutbound :: "outbound option"
  optionsByTag :: "(string \<times> string \<times> 'ob) list"
  internalByTag :: "(string \<times> outbound) list"

definition NewManager :: "string \<Rightarrow> 'ob manager" where
  "NewManager tag =
     \<lparr>defaultTag = tag, outbounds = [], outboundByTag = [], defaultOutbound = None,
      optionsByTag = [], internalByTag = []\<rparr>"

definition manager_Outbound ::
    "('ob, 'f) endpoint_manager \<Rightarrow> 'ob manager \<Rightarrow> string \<Rightarrow> outbound option" where
  "manager_Outbound em mg tag =
     (case map_of (outboundByTag mg) tag of
        Some x \<Rightarrow> Some x
      | None \<Rightarrow>
          (case map_of (internalByTag mg) tag of
             Some x \<Rightarrow> Some x
           | None \<Rightarrow> endpoint_Get em tag))"

definition manager_Create ::
    "(string \<Rightarrow> string \<Rightarrow> 'ob \<Rightarrow> 'e + outbound) \<Rightarrow> string \<Rightarrow> string \<Rightarrow> 'ob
      \<Rightarrow> 'ob manager \<Rightarrow> 'e manager_error option \<times> 'ob manager" where
  "manager_Create registry tag inboundType options mg =
     (if tag = [] then (Some ErrInvalid, mg)
      else
        (case registry tag inboundType options of
           Inl e \<Rightarrow> (Some (RegistryError e), mg)
         | Inr x \<Rightarrow>
             (if map_of (outboundByTag mg) tag \<noteq> None then (Some (DuplicateTag tag), mg)
              else
                (let mg1 = mg\<lparr>outbounds := outbounds mg @ [x],
                              outboundByTag := AList.update tag x (outboundByTag mg),
                              optionsByTag := AList.update tag (inboundType, options) (optionsByTag mg)\<rparr>
                 in (None,
                     if tag = defaultTag mg \<or> defaultTag mg = [] \<and> defaultOutbound mg = None
                     then mg1\<lparr>defaultOutbound := Some x\<rparr> else mg1)))))"

definition manager_OptionsOf :: "'ob manager \<Rightarrow> string \<Rightarrow> (string \<times> 'ob) option" where
  "manager_OptionsOf mg tag = map_of (optionsByTag mg) tag"

definition AddInternal ::
    "('ob, 'f) endpoint_manager \<Rightarrow> outbound \<Rightarrow> 'ob manager \<Rightarrow> 'e manager_error option \<times> 'ob manager" where
  "AddInternal em x mg =
     (let tag = adapterTag x in
      if tag = [] then (Some ErrInvalid, mg)
      else if map_of (outboundByTag mg) tag \<noteq> None then (Some (CollidesWithOutbound tag), mg)
      else if map_of (internalByTag mg) tag \<noteq> None then (Some (AlreadyRegistered tag), mg)
      else if endpoint_Get em tag \<noteq> None then (Some (CollidesWithEndpoint tag), mg)
      else (None, mg\<lparr>internalByTag := AList.update tag x (internalByTag mg)\<rparr>))"

definition RemoveInternal :: "string \<Rightarrow> 'ob manager \<Rightarrow> 'ob manager" where
  "RemoveInternal tag mg = mg\<lparr>internalByTag := AList.delete tag (internalByTag mg)\<rparr>"

subsection \<open>Starting outbounds and endpoints\<close>

type_synonym ('ob, 'f, 'w) start_state =
  "(outbound, 'f) scope \<times> ('ob, 'f) endpoint_manager \<times> 'w"

definition outbound_name :: "outbound \<Rightarrow> string" where
  "outbound_name x = ''outbound/'' @ adapterType x @ ''['' @ adapterTag x @ '']''"

fun start_outbound ::
    "'e err_lib \<Rightarrow> (outbound, 'f, 'e, 'w) start_method \<Rightarrow> outbound
      \<Rightarrow> ('ob, 'f, 'w) start_state \<Rightarrow> 'e option \<times> ('ob, 'f, 'w) start_state" where
  "start_outbound L start x (sc, em, w) =
     (if outboundKind x = EndpointKind then
        (let (err, em', w') = StartEndpoint L start x em w in (err, (sc, em', w')))
      else if outboundKind x \<noteq> LifecycleKind then (None, (sc, em, w))
      else
        (let (err, sc', w') = scope_Start L start (outbound_name x) x StartStateStart sc w
         in (err, (sc', em, w'))))"

definition startOutbounds ::
    "'e err_lib \<Rightarrow> (outbound, 'f, 'e, 'w) start_method \<Rightarrow> outbound list
      \<Rightarrow> ('ob, 'f, 'w) start_state \<Rightarrow> ('e start_failure + string list) \<times> ('ob, 'f, 'w) start_state" where
  "startOutbounds L start xs st = start_rounds (start_outbound L start) (by_tag xs) xs [] st"

fun start_each ::
    "'e err_lib \<Rightarrow> (outbound, 'f, 'e, 'w) start_method \<Rightarrow> StartStage \<Rightarrow> outbound list
      \<Rightarrow> (outbound, 'f) scope \<Rightarrow> 'w \<Rightarrow> 'e option \<times> (outbound, 'f) scope \<times> 'w" where
  "start_each L start stage [] sc w = (None, sc, w)"
| "start_each L start stage (x # xs) sc w =
     (if outboundKind x = PlainKind then start_each L start stage xs sc w
      else
        (case scope_Start L start (outbound_name x) x stage sc w of
           (Some e, sc', w') \<Rightarrow> (Some e, sc', w')
         | (None, sc', w') \<Rightarrow> start_each L start stage xs sc' w'))"

definition initialize_default ::
    "('e + outbound) \<Rightarrow> ('ob, 'f) endpoint_manager \<Rightarrow> 'ob manager \<Rightarrow> 'e manager_error + 'ob manager" where
  "initialize_default fallback em mg =
     bind_res
       (if defaultTag mg \<noteq> [] \<and> defaultOutbound mg = None
        then (case endpoint_Get em (defaultTag mg) of
                None \<Rightarrow> Inl (DefaultNotFound (defaultTag mg))
              | Some x \<Rightarrow> Inr (mg\<lparr>defaultOutbound := Some x\<rparr>))
        else Inr mg)
       (\<lambda>mg1.
         if defaultOutbound mg1 = None
         then (case fallback of
                 Inl e \<Rightarrow> Inl (FallbackError e)
               | Inr x \<Rightarrow>
                   Inr (mg1\<lparr>outbounds := outbounds mg1 @ [x],
                            outboundByTag := AList.update (adapterTag x) x (outboundByTag mg1),
                            defaultOutbound := Some x\<rparr>))
         else Inr mg1)"

fun manager_Start ::
    "'e err_lib \<Rightarrow> (outbound, 'f, 'e, 'w) start_method \<Rightarrow> ('e + outbound) \<Rightarrow> StartStage
      \<Rightarrow> 'ob manager \<Rightarrow> ('ob, 'f, 'w) start_state
      \<Rightarrow> 'e manager_error option \<times> 'ob manager \<times> ('ob, 'f, 'w) start_state" where
  "manager_Start L start fallback stage mg (sc, em, w) =
     (case (if stage = StartStateInitialize then initialize_default fallback em mg else Inr mg) of
        Inl e \<Rightarrow> (Some e, mg, (sc, em, w))
      | Inr mg1 \<Rightarrow>
          (if stage = StartStateStart then
             (case startOutbounds L start (outbounds mg1 @ endpoints em) (sc, em, w) of
                (Inl f, st) \<Rightarrow> (Some (DependencyError f), mg1, st)
              | (Inr started, st) \<Rightarrow> (None, mg1, st))
           else
             (case start_each L start stage (outbounds mg1) sc w of
                (err, sc', w') \<Rightarrow> (map_option ComponentError err, mg1, (sc', em, w')))))"

subsection \<open>The check of the configured tags\<close>

definition configured_tag :: "nat \<Rightarrow> string \<Rightarrow> string" where
  "configured_tag i tag = (if tag = [] then itoa i else tag)"

fun check_tags :: "nat \<Rightarrow> string list \<Rightarrow> string list \<Rightarrow> string + string list" where
  "check_tags i seen [] = Inr seen"
| "check_tags i seen (t # ts) =
     (let tag = configured_tag i t in
      if tag \<in> set seen then Inl tag else check_tags (Suc i) (seen @ [tag]) ts)"

text \<open>The error is the tag that occurs twice.\<close>

definition checkOutbounds :: "string list \<Rightarrow> string list \<Rightarrow> string + unit" where
  "checkOutbounds outboundTags endpointTags =
     bind_res (check_tags 0 [] outboundTags)
       (\<lambda>seen. bind_res (check_tags 0 seen endpointTags) (\<lambda>_. Inr ()))"

subsection \<open>Lemmas\<close>

definition tags_from :: "nat \<Rightarrow> string list \<Rightarrow> string list" where
  "tags_from i ts = map2 configured_tag [i..<i + length ts] ts"

lemma tags_from_simps [simp]:
  "tags_from i [] = []"
  "tags_from i (t # ts) = configured_tag i t # tags_from (Suc i) ts"
  by (simp_all add: tags_from_def upt_conv_Cons del: upt_Suc)

lemma check_tags_Inr:
  "distinct seen \<Longrightarrow> check_tags i seen ts = Inr r \<longleftrightarrow>
    distinct (seen @ tags_from i ts) \<and> r = seen @ tags_from i ts"
  by (induction i seen ts rule: check_tags.induct) (auto simp: Let_def)

fun create_all ::
    "(string \<Rightarrow> string \<Rightarrow> 'ob \<Rightarrow> 'e + outbound) \<Rightarrow> (string \<times> string \<times> 'ob) list
      \<Rightarrow> 'ob manager \<Rightarrow> 'ob manager" where
  "create_all registry [] mg = mg"
| "create_all registry ((tag, ty, ob) # cs) mg =
     create_all registry cs (snd (manager_Create registry tag ty ob mg))"

text \<open>A registry creates components with the tag it is given.\<close>

definition keeps_tag :: "(string \<Rightarrow> string \<Rightarrow> 'ob \<Rightarrow> 'e + 'x adapter_scheme) \<Rightarrow> bool" where
  "keeps_tag registry \<longleftrightarrow> (\<forall>tag ty ob x. registry tag ty ob = Inr x \<longrightarrow> adapterTag x = tag)"

text \<open>The state of a manager that has not been started: the indexes agree with the list.\<close>

definition manager_ok :: "'ob manager \<Rightarrow> bool" where
  "manager_ok mg \<longleftrightarrow>
     map_of (outboundByTag mg) = map_of (by_tag (outbounds mg))
     \<and> distinct (map adapterTag (outbounds mg))
     \<and> (\<forall>t. (map_of (optionsByTag mg) t = None) = (map_of (outboundByTag mg) t = None))
     \<and> defaultOutbound mg =
         (if defaultTag mg = []
          then (if outbounds mg = [] then None else Some (hd (outbounds mg)))
          else map_of (outboundByTag mg) (defaultTag mg))"

lemma by_tag_simps [simp]: "by_tag [] = []" "by_tag (x # xs) = (adapterTag x, x) # by_tag xs"
  by (simp_all add: by_tag_def)

lemma map_of_by_tag_snoc:
  "adapterTag x \<notin> adapterTag ` set xs \<Longrightarrow>
    map_of (by_tag (xs @ [x])) = (map_of (by_tag xs))(adapterTag x \<mapsto> x)"
  using map_of_by_tag_None [of xs "adapterTag x"]
  by (auto simp: by_tag_def map_add_def fun_eq_iff split: option.splits)

lemma manager_Create_new:
  assumes "registry tag ty ob = Inr x" and "tag \<noteq> []" and "map_of (outboundByTag mg) tag = None"
  shows "manager_Create registry tag ty ob mg =
    (None, mg\<lparr>outbounds := outbounds mg @ [x],
       outboundByTag := AList.update tag x (outboundByTag mg),
       optionsByTag := AList.update tag (ty, ob) (optionsByTag mg),
       defaultOutbound := (if tag = defaultTag mg \<or> defaultTag mg = [] \<and> defaultOutbound mg = None
                           then Some x else defaultOutbound mg)\<rparr>)"
  using assms by (simp add: manager_Create_def Let_def)

lemma manager_Create_old:
  "(\<And>x. registry tag ty ob = Inr x \<Longrightarrow> tag = [] \<or> map_of (outboundByTag mg) tag \<noteq> None) \<Longrightarrow>
    snd (manager_Create registry tag ty ob mg) = mg"
  by (cases "registry tag ty ob") (auto simp: manager_Create_def)

lemma manager_Create_ok:
  assumes "manager_ok mg" and "\<And>x. registry tag ty ob = Inr x \<Longrightarrow> adapterTag x = tag"
  shows "manager_ok (snd (manager_Create registry tag ty ob mg))
    \<and> defaultTag (snd (manager_Create registry tag ty ob mg)) = defaultTag mg"
proof (cases "\<exists>x. registry tag ty ob = Inr x \<and> tag \<noteq> [] \<and> map_of (outboundByTag mg) tag = None")
  case True
  then obtain x where x: "registry tag ty ob = Inr x" "tag \<noteq> []" "map_of (outboundByTag mg) tag = None"
    by blast
  have tag: "adapterTag x = tag" using assms(2) x(1) by simp
  have new: "adapterTag x \<notin> adapterTag ` set (outbounds mg)"
    using assms(1) x(3) tag by (simp add: manager_ok_def map_of_by_tag_None)
  have default: "defaultOutbound mg = None \<longleftrightarrow> outbounds mg = []" if "defaultTag mg = []"
    using assms(1) that by (simp add: manager_ok_def)
  show ?thesis
    unfolding manager_Create_new [of registry tag ty ob x, OF x]
    using assms(1) x(2) tag new default by (auto simp: manager_ok_def map_of_by_tag_snoc [OF new] update_conv')
next
  case False
  with manager_Create_old [of registry tag ty ob mg] assms(1) show ?thesis by fastforce
qed

lemma create_all_ok:
  "keeps_tag registry \<Longrightarrow> manager_ok mg \<Longrightarrow> manager_ok (create_all registry cs mg)
    \<and> defaultTag (create_all registry cs mg) = defaultTag mg"
  by (induction registry cs mg rule: create_all.induct) (simp_all add: manager_Create_ok keeps_tag_def)

lemma NewManager_ok: "manager_ok (NewManager tag)"
  by (simp add: manager_ok_def NewManager_def by_tag_def)

text \<open>A start state whose contexts are live, and components whose start never fails.\<close>

fun live :: "('ob, 'f, 'w) start_state \<Rightarrow> bool" where
  "live (sc, em, w) \<longleftrightarrow>
     \<not> cancelled sc \<and> \<not> em_cancelled em \<and> (\<forall>(x, s) \<in> set (endpointScopes em). \<not> cancelled s)"

definition never_fails :: "('c, 'f, 'e, 'w) start_method \<Rightarrow> bool" where
  "never_fails start \<longleftrightarrow> (\<forall>c stage s w. fst (start c stage s w) = None)"

lemma scope_Start_live:
  assumes "never_fails start" and "\<not> cancelled s"
  shows "fst (scope_Start L start name c stage s w) = None
    \<and> \<not> cancelled (fst (snd (scope_Start L start name c stage s w)))"
proof (cases s)
  case (Scope x cl)
  with assms show ?thesis
    by (auto simp: never_fails_def Let_def split: prod.splits option.splits) (metis fst_conv option.distinct(1))+
qed

lemma set_AList_update: "set (AList.update k v al) \<subseteq> insert (k, v) (set al)"
  by (induction al) auto

lemma start_outbound_live:
  assumes "never_fails start" and "live st"
  shows "fst (start_outbound L start x st) = None \<and> live (snd (start_outbound L start x st))"
proof -
  obtain sc em w where st: "st = (sc, em, w)" by (cases st)
  obtain s em1 where es: "endpointScope x em = (s, em1)" by (cases "endpointScope x em")
  have s: "\<not> cancelled s" "live (sc, em1, w)"
    using assms(2) es unfolding st endpointScope_def
    by (auto simp: NewScope_def Let_def dest!: map_of_SomeD split: option.splits)
  obtain err s' w' where run: "scope_Start L start (endpoint_name x) x StartStateStart s w = (err, s', w')"
    by (cases "scope_Start L start (endpoint_name x) x StartStateStart s w")
  have "err = None" "\<not> cancelled s'"
    using scope_Start_live [OF assms(1) s(1), of L "endpoint_name x" x StartStateStart w] run by simp_all
  moreover have "live (sc, em1\<lparr>endpointScopes := AList.update x s' (endpointScopes em1)\<rparr>, w')"
    if "\<not> cancelled s'"
    using s(2) that set_AList_update [of x s' "endpointScopes em1"] by auto
  moreover have "\<not> cancelled sc" using assms(2) st by simp
  note scope_Start_live [OF assms(1) this, of L "outbound_name x" x StartStateStart w]
  ultimately show ?thesis
    using assms(2) unfolding st
    by (auto simp: StartEndpoint_def start_endpoint_at_def es run Let_def split: prod.splits)
qed

lemma start_each_live:
  assumes "never_fails start"
  shows "\<not> cancelled sc \<Longrightarrow> fst (start_each L start stage xs sc w) = None
    \<and> \<not> cancelled (fst (snd (start_each L start stage xs sc w)))"
proof (induction xs arbitrary: sc w)
  case (Cons x xs)
  obtain err sc' w' where run: "scope_Start L start (outbound_name x) x stage sc w = (err, sc', w')"
    by (cases "scope_Start L start (outbound_name x) x stage sc w")
  from scope_Start_live [OF assms Cons.prems, of L "outbound_name x" x stage w] run Cons show ?case
    by auto
qed simp


subsection \<open>Properties\<close>

text \<open>
  C4: \<^verbatim>\<open>startOutbounds\<close> on outbounds and endpoints with distinct tags.  Success means that all
  of them were started, each once and after its dependencies.  The first failing start ends the
  loop after a prefix of such an order.  A reported circular dependency is a cycle of the
  dependencies, a reported missing dependency is named by an outbound and absent; in both cases
  some outbound cannot be started in any order.
\<close>

theorem outbound_start_order:
  assumes "distinct (map adapterTag xs)" and "startOutbounds L start xs st = (r, st')"
  shows "start_contract (start_outbound L start) xs st r st'"
  using start_rounds_contract [OF assms(1) assms(2) [unfolded startOutbounds_def]] .

definition sample_lib :: "string err_lib" where
  "sample_lib =
     \<lparr>err_Expand = (\<lambda>e. case e of None \<Rightarrow> [] | Some x \<Rightarrow> [x]),
      err_Errors = (\<lambda>es. case es of [] \<Rightarrow> None | e # _ \<Rightarrow> Some e),
      err_Cause = (\<lambda>e m. e), err_IsClosed = (\<lambda>e. False), err_IsCanceled = (\<lambda>e. False),
      ctx_Canceled = ''context canceled''\<rparr>"

definition sample_start :: "(outbound, unit, string, string list) start_method" where
  "sample_start c stage s w = (None, s, w @ [adapterTag c])"

definition sample_outbound :: "string \<Rightarrow> string list \<Rightarrow> outbound" where
  "sample_outbound tag deps =
     \<lparr>adapterType = ''direct'', adapterTag = tag, adapterNetwork = [], adapterDependencies = deps,
      outboundKind = LifecycleKind\<rparr>"

definition sample_state :: "(unit, unit, string list) start_state" where
  "sample_state = (NewScope False, NewEndpointManager, [])"

lemma sample_start_never_fails: "never_fails sample_start"
  by (simp add: never_fails_def sample_start_def)

theorem outbound_start_order_witness:
  "start_contract (start_outbound sample_lib sample_start)
     [sample_outbound ''a'' [''b''], sample_outbound ''b'' []] sample_state (Inr [''b'', ''a''])
     (snd (startOutbounds sample_lib sample_start
       [sample_outbound ''a'' [''b''], sample_outbound ''b'' []] sample_state))"
proof -
  let ?xs = "[sample_outbound ''a'' [''b''], sample_outbound ''b'' []]"
  have "fst (startOutbounds sample_lib sample_start ?xs sample_state) = Inr [''b'', ''a'']"
    by code_simp
  moreover have "distinct (map adapterTag ?xs)" by code_simp
  ultimately show ?thesis
    using outbound_start_order [of ?xs sample_lib sample_start sample_state]
    by (metis prod.collapse)
qed

text \<open>
  C14: on outbounds and endpoints with distinct tags and a live context, when no component fails to start,
  \<^verbatim>\<open>startOutbounds\<close> succeeds exactly if every outbound can
  be started, that is if the dependencies are present and without cycle.
\<close>

theorem outbound_start_complete:
  assumes "distinct (map adapterTag xs)" and "never_fails start" and "live st"
  shows "(\<exists>t. fst (startOutbounds L start xs st) = Inr t) \<longleftrightarrow>
    (\<forall>x \<in> set xs. startable xs (adapterTag x))"
proof -
  obtain r st' where run: "startOutbounds L start xs st = (r, st')"
    by (cases "startOutbounds L start xs st")
  have "start_rounds (start_outbound L start) (by_tag xs) xs [] st = (r, st')"
    using run by (simp add: startOutbounds_def)
  from start_rounds_complete [of xs live, OF assms(1,3) start_outbound_live [OF assms(2)] this]
  show ?thesis by (simp add: run)
qed

theorem outbound_start_complete_witness:
  "startable [sample_outbound ''a'' [''b''], sample_outbound ''b'' []] ''a''
   \<and> \<not> (\<forall>x \<in> set [sample_outbound ''a'' [''b''], sample_outbound ''b'' [''a'']].
       startable [sample_outbound ''a'' [''b''], sample_outbound ''b'' [''a'']] (adapterTag x))"
proof
  let ?xs = "[sample_outbound ''a'' [''b''], sample_outbound ''b'' []]"
  have live: "live sample_state"
    by (simp add: sample_state_def NewScope_def NewEndpointManager_def)
  have "fst (startOutbounds sample_lib sample_start ?xs sample_state) = Inr [''b'', ''a'']"
    by code_simp
  moreover have "distinct (map adapterTag ?xs)" by code_simp
  ultimately have "\<forall>x \<in> set ?xs. startable ?xs (adapterTag x)"
    using outbound_start_complete [OF _ sample_start_never_fails live, of ?xs sample_lib] by blast
  then show "startable ?xs ''a''" by (simp add: sample_outbound_def)
  let ?ys = "[sample_outbound ''a'' [''b''], sample_outbound ''b'' [''a'']]"
  have "fst (startOutbounds sample_lib sample_start ?ys sample_state) =
      Inl (CircularDependency [''a'', ''b''] ''a'')"
    by code_simp
  moreover have "distinct (map adapterTag ?ys)" by code_simp
  ultimately show "\<not> (\<forall>x \<in> set ?ys. startable ?ys (adapterTag x))"
    using outbound_start_complete [OF _ sample_start_never_fails live, of ?ys sample_lib] by fastforce
qed

text \<open>
  a configuration without outbounds gets the fallback outbound at the first stage.  If an
  endpoint already has the tag of the fallback, the second stage counts one started tag for two
  components, finds nothing left to start and calls a method of a nil outbound.
\<close>

theorem fallback_tag_collision:
  fixes L :: "'e err_lib" and em :: "('ob, 'f) endpoint_manager"
  assumes "adapterTag x \<in> adapterTag ` set (endpoints em)"
    and "\<forall>y \<in> set (x # endpoints em). adapterDependencies y = []"
    and "never_fails start" and "live (sc, em, w)"
  shows "case manager_Start L start (Inr x) StartStateInitialize (NewManager []) (sc, em, w) of
      (err, mg, st) \<Rightarrow> err = None
        \<and> fst (manager_Start L start (Inr x) StartStateStart mg st) = Some (DependencyError NilComponent)"
proof -
  let ?mg = "(NewManager [])\<lparr>outbounds := [x], outboundByTag := [(adapterTag x, x)], defaultOutbound := Some x\<rparr>"
  have init: "initialize_default (Inr x :: 'e + outbound) em (NewManager []) = Inr ?mg"
    by (simp add: initialize_default_def NewManager_def)
  obtain err sc' w' where run: "start_each L start StartStateInitialize [x] sc w = (err, sc', w')"
    by (cases "start_each L start StartStateInitialize [x] sc w")
  have "err = None" "\<not> cancelled sc'"
    using start_each_live [OF assms(3), of sc L StartStateInitialize "[x]" w] assms(4) run by simp_all
  then have live': "live (sc', em, w')" using assms(4) by simp
  let ?xs = "x # endpoints em"
  have "startable ?xs (adapterTag y)" if "y \<in> set ?xs" for y
    using that assms(2) by (intro startable.intros) auto
  then have all: "\<forall>y \<in> set ?xs. startable ?xs (adapterTag y)" by blast
  have dup: "\<not> distinct (map adapterTag ?xs)" using assms(1) by simp
  obtain r st where out: "startOutbounds L start ?xs (sc', em, w') = (r, st)"
    by (cases "startOutbounds L start ?xs (sc', em, w')")
  have "r = Inl NilComponent"
    using start_rounds_duplicate [OF dup all, of live, OF live' start_outbound_live [OF assms(3)]]
      out by (simp add: startOutbounds_def)
  with out run init \<open>err = None\<close> show ?thesis by (simp del: start_each.simps)
qed

theorem fallback_tag_collision_witness:
  "case manager_Start sample_lib sample_start (Inr (sample_outbound ''direct'' []))
      StartStateInitialize (NewManager [])
      (NewScope False, NewEndpointManager\<lparr>endpoints := [sample_outbound ''direct'' []]\<rparr>, []) of
    (err, mg, st) \<Rightarrow> err = None
      \<and> fst (manager_Start sample_lib sample_start (Inr (sample_outbound ''direct'' []))
          StartStateStart mg st) = Some (DependencyError NilComponent)"
  by (rule fallback_tag_collision [OF _ _ sample_start_never_fails])
    (simp_all add: NewScope_def NewEndpointManager_def sample_outbound_def)

text \<open>
  after any sequence of \<^verbatim>\<open>Create\<close> calls, failing ones included, the tags of the outbounds are
  distinct, the lookup by tag finds exactly the outbounds in the list, options are remembered for
  exactly the created tags, and the default outbound is the first one created, or the one with the
  configured default tag.
\<close>

theorem outbound_manager_created:
  assumes "keeps_tag registry"
  shows "let mg = create_all registry cs (NewManager dt) in
    distinct (map adapterTag (outbounds mg))
    \<and> (\<forall>t x. map_of (outboundByTag mg) t = Some x \<longleftrightarrow> x \<in> set (outbounds mg) \<and> adapterTag x = t)
    \<and> (\<forall>t. (manager_OptionsOf mg t = None) = (map_of (outboundByTag mg) t = None))
    \<and> defaultOutbound mg =
        (if dt = [] then (if outbounds mg = [] then None else Some (hd (outbounds mg)))
         else map_of (outboundByTag mg) dt)"
proof -
  let ?mg = "create_all registry cs (NewManager dt)"
  have ok: "manager_ok ?mg" "defaultTag ?mg = dt"
    using create_all_ok [OF assms NewManager_ok, of cs dt]
    by (simp_all add: NewManager_def)
  then have "distinct (map fst (by_tag (outbounds ?mg)))"
    by (simp add: manager_ok_def by_tag_def comp_def)
  then have "map_of (by_tag (outbounds ?mg)) t = Some x \<longleftrightarrow> x \<in> set (outbounds ?mg) \<and> adapterTag x = t" for t x
    by (auto simp: by_tag_def)
  with ok show ?thesis
    by (simp add: Let_def manager_ok_def manager_OptionsOf_def)
qed

theorem outbound_manager_created_witness:
  "distinct (map adapterTag (outbounds (create_all (\<lambda>tag ty ob. Inr (sample_outbound tag []) :: string + outbound)
     [(''a'', ''direct'', ()), (''b'', ''direct'', ()), (''a'', ''direct'', ())] (NewManager ''b''))))
   \<and> defaultOutbound (create_all (\<lambda>tag ty ob. Inr (sample_outbound tag []) :: string + outbound)
     [(''a'', ''direct'', ()), (''b'', ''direct'', ()), (''a'', ''direct'', ())] (NewManager ''b''))
     = Some (sample_outbound ''b'' [])"
proof -
  let ?r = "\<lambda>tag ty ob. Inr (sample_outbound tag []) :: string + outbound"
  let ?cs = "[(''a'', ''direct'', ()), (''b'', ''direct'', ()), (''a'', ''direct'', ())]"
  have "map_of (outboundByTag (create_all ?r ?cs (NewManager ''b''))) ''b'' = Some (sample_outbound ''b'' [])"
    by code_simp
  then show ?thesis
    using outbound_manager_created [of ?r ?cs "''b''"]
    by (simp add: Let_def sample_outbound_def keeps_tag_def)
qed

text \<open>
  an internal outbound is found by its tag and changes nothing else.  \<^verbatim>\<open>AddInternal\<close> refuses
  empty tags and tags of outbounds, endpoints and other internal outbounds; otherwise the lookup
  of that tag, which found nothing before, finds the new outbound, every other lookup and the list
  of outbounds are as before, and \<^verbatim>\<open>RemoveInternal\<close> undoes it.
\<close>

theorem internal_outbound_lookup:
  "case AddInternal em x mg of (err, mg1) \<Rightarrow>
     if adapterTag x \<noteq> [] \<and> manager_Outbound em mg (adapterTag x) = None
     then err = None \<and> outbounds mg1 = outbounds mg
       \<and> (\<forall>t. manager_Outbound em mg1 t = (if t = adapterTag x then Some x else manager_Outbound em mg t))
       \<and> (\<forall>t. manager_Outbound em (RemoveInternal (adapterTag x) mg1) t = manager_Outbound em mg t)
     else err \<noteq> None \<and> mg1 = mg"
  by (auto simp: AddInternal_def RemoveInternal_def manager_Outbound_def Let_def update_conv'
      delete_conv' split: option.splits)

text \<open>
  \<^verbatim>\<open>checkOutbounds\<close> accepts a configuration exactly when the tags of its outbounds and
  endpoints, an index standing for a missing one, are pairwise distinct.
\<close>

theorem check_outbounds_distinct:
  "checkOutbounds outboundTags endpointTags = Inr () \<longleftrightarrow>
     distinct (tags_from 0 outboundTags @ tags_from 0 endpointTags)"
  by (auto simp: checkOutbounds_def check_tags_Inr)

end
