(* ===== verification/PoolPlan.thy ===== *)
theory PoolPlan
  imports Prelude "HOL-Library.Char_ord" "HOL-Library.List_Lexorder" "HOL-Library.Multiset"
begin

text \<open>
  Planning of the rotation pool of a \<^verbatim>\<open>round_robin\<close> group
  (\<^verbatim>\<open>protocol/group/urltest_balance_lx.go\<close>), the part of the balancer without
  input or output: a pool is the list of the tags in its slots, the empty string a hole.

  \<^item> \<open>sortCandidatesByDelay\<close> is the insertion sort of the source; \<open>sort_candidates_unique\<close>
    says that its result depends only on what is sorted, so that the random iteration order of a Go
    map does not show.
  \<^item> \<open>planFirstLivePool\<close> (\<^verbatim>\<open>pool_tolerance == 0\<close>) and \<open>planTolerantPool\<close> compute the new
    occupancy from the old one and fresh test results. \<open>plan_first_live_contract\<close> and
    \<open>plan_tolerant_contract\<close> state the invariants the source lists above them: the slot count is
    fixed, nodes are replaced in their slot and never moved, the pool never shrinks, and
    a dead node keeps its slot only until a live one can take it.
\<close>

subsection \<open>Candidates\<close>

record candidate =
  cTag :: string
  cDelay :: "16 word"
  cAlive :: bool

definition cand_before :: "candidate \<Rightarrow> candidate \<Rightarrow> bool" where
  "cand_before a b \<longleftrightarrow>
     cDelay a < cDelay b \<or> (cDelay a = cDelay b \<and> cTag a \<le> cTag b)"

text \<open>
  The inner loop moves an element down the sorted prefix. The prefix is kept with its
  last element first.
\<close>

fun sift_down :: "candidate \<Rightarrow> candidate list \<Rightarrow> candidate list" where
  "sift_down b [] = [b]"
| "sift_down b (a # as) = (if cand_before a b then b # a # as else a # sift_down b as)"

definition sortCandidatesByDelay :: "candidate list \<Rightarrow> candidate list" where
  "sortCandidatesByDelay cs = rev (fold sift_down cs [])"

definition slotDelay :: "string \<Rightarrow> (string \<times> candidate) list \<Rightarrow> 16 word \<times> bool" where
  "slotDelay tag results =
     (if tag = '''' then (0, False)
      else case map_of results tag of
             Some c \<Rightarrow> (cDelay c, cAlive c)
           | None \<Rightarrow> (0, False))"

subsection \<open>First-live planning\<close>

abbreviation occupied :: "string list \<Rightarrow> string list" where
  "occupied \<equiv> filter (\<lambda>t. t \<noteq> '''')"

text \<open>
  The search of the source for the next usable tag of \<^verbatim>\<open>fillOrder\<close>: what it skips it
  never looks at again.
\<close>

fun next_fill :: "(string \<Rightarrow> bool) \<Rightarrow> string list \<Rightarrow> string list \<Rightarrow> (string \<times> string list) option" where
  "next_fill live placed [] = None"
| "next_fill live placed (t # ts) =
     (if t \<noteq> '''' \<and> live t \<and> t \<notin> set placed then Some (t, ts) else next_fill live placed ts)"

fun refill_holes ::
  "(string \<Rightarrow> bool) \<Rightarrow> string list \<Rightarrow> string list \<Rightarrow> string list \<Rightarrow> string list \<times> string list" where
  "refill_holes live [] fillOrder placed = ([], placed)"
| "refill_holes live (s # ss) fillOrder placed =
     (if s \<noteq> '''' then
        (let (ss', placed') = refill_holes live ss fillOrder placed in (s # ss', placed'))
      else case next_fill live placed fillOrder of
             None \<Rightarrow> (let (ss', placed') = refill_holes live ss [] placed in (s # ss', placed'))
           | Some (t, rest) \<Rightarrow>
               (let (ss', placed') = refill_holes live ss rest (t # placed) in (t # ss', placed')))"

fun restore_dead ::
  "(string \<Rightarrow> bool) \<Rightarrow> string list \<Rightarrow> string list \<Rightarrow> string list \<Rightarrow> string list \<times> string list" where
  "restore_dead live (t # ts) (s # ss) placed =
     (if s = '''' \<and> t \<noteq> '''' \<and> \<not> live t \<and> t \<notin> set placed then
        (let (ss', placed') = restore_dead live ts ss (t # placed) in (t # ss', placed'))
      else
        (let (ss', placed') = restore_dead live ts ss placed in (s # ss', placed')))"
| "restore_dead live current ss placed = (ss, placed)"

fun surplus_dead :: "(string \<Rightarrow> bool) \<Rightarrow> string list \<Rightarrow> string list \<Rightarrow> string list \<Rightarrow> string list" where
  "surplus_dead live current [] placed = []"
| "surplus_dead live current (s # ss) placed =
     (if s \<noteq> '''' then s # surplus_dead live current ss placed
      else case find (\<lambda>t. t \<noteq> '''' \<and> \<not> live t \<and> t \<notin> set placed) current of
             None \<Rightarrow> s # surplus_dead live current ss placed
           | Some t \<Rightarrow> t # surplus_dead live current ss (t # placed))"

definition keep_live :: "(string \<Rightarrow> bool) \<Rightarrow> string list \<Rightarrow> nat \<Rightarrow> string list" where
  "keep_live live current sz =
     map (\<lambda>t. if t \<noteq> '''' \<and> live t then t else '''') current @
     replicate (sz - length current) ''''"

definition planFirstLivePool ::
  "string list \<Rightarrow> (string \<Rightarrow> bool) \<Rightarrow> string list \<Rightarrow> nat \<Rightarrow> string list" where
  "planFirstLivePool current live fillOrder sz =
     (let nxt = keep_live live current sz;
          (nxt, placed) = refill_holes live nxt fillOrder (occupied nxt);
          (nxt, placed) = restore_dead live current nxt placed
      in surplus_dead live current nxt placed)"

subsection \<open>Planning with a tolerance\<close>

fun fill_empty ::
  "candidate list \<Rightarrow> string list \<Rightarrow> string list \<Rightarrow> string list \<times> string list" where
  "fill_empty alive [] inPool = ([], inPool)"
| "fill_empty alive (s # ss) inPool =
     (if s \<noteq> '''' then
        (let (ss', inPool') = fill_empty alive ss inPool in (s # ss', inPool'))
      else case find (\<lambda>c. cTag c \<notin> set inPool) alive of
             None \<Rightarrow> (let (ss', inPool') = fill_empty alive ss inPool in (s # ss', inPool'))
           | Some c \<Rightarrow>
               (let (ss', inPool') = fill_empty alive ss (cTag c # inPool) in (cTag c # ss', inPool')))"

text \<open>
  The condition of the eviction loop, compared in 32 bits like the source.
\<close>

definition displaces ::
  "(string \<times> candidate) list \<Rightarrow> 16 word \<Rightarrow> candidate \<Rightarrow> string \<Rightarrow> bool" where
  "displaces results tolerance c occupant =
     (let (occDelay, occAlive) = slotDelay occupant results
      in \<not> occAlive \<or> (occAlive \<and>
          (ucast (cDelay c) :: 32 word) + ucast tolerance < ucast occDelay))"

fun evict_slots ::
  "(string \<times> candidate) list \<Rightarrow> 16 word \<Rightarrow> candidate list \<Rightarrow> string list \<Rightarrow> string list \<Rightarrow> string list" where
  "evict_slots results tolerance alive [] inPool = []"
| "evict_slots results tolerance alive (s # ss) inPool =
     (case find (\<lambda>c. cTag c \<notin> set inPool \<and> displaces results tolerance c s) alive of
        None \<Rightarrow> s # evict_slots results tolerance alive ss inPool
      | Some c \<Rightarrow> cTag c # evict_slots results tolerance alive ss (cTag c # inPool))"

definition planTolerantPool ::
  "string list \<Rightarrow> (string \<times> candidate) list \<Rightarrow> nat \<Rightarrow> 16 word \<Rightarrow> string list" where
  "planTolerantPool current results sz tolerance =
     (let alive = sortCandidatesByDelay (filter cAlive (map snd results));
          nxt = current @ replicate (sz - length current) '''';
          (nxt, inPool) = fill_empty alive nxt (occupied current)
      in evict_slots results tolerance alive nxt inPool)"

subsection \<open>The sort\<close>

lemma cand_before_total: "\<not> cand_before a b \<Longrightarrow> cand_before b a"
  by (auto simp: cand_before_def)

lemma cand_before_trans: "cand_before a b \<Longrightarrow> cand_before b c \<Longrightarrow> cand_before a c"
  by (auto simp: cand_before_def)

lemma mset_sift_down [simp]: "mset (sift_down b as) = add_mset b (mset as)"
  by (induction as) auto

lemma set_sift_down [simp]: "set (sift_down b as) = insert b (set as)"
  by (induction as) auto

lemma sorted_sift_down:
  "sorted_wrt (\<lambda>x y. cand_before y x) as \<Longrightarrow> sorted_wrt (\<lambda>x y. cand_before y x) (sift_down b as)"
  by (induction as) (auto dest: cand_before_total intro: cand_before_trans)

lemma fold_sift_down:
  "sorted_wrt (\<lambda>x y. cand_before y x) as \<Longrightarrow>
   sorted_wrt (\<lambda>x y. cand_before y x) (fold sift_down cs as) \<and>
   mset (fold sift_down cs as) = mset cs + mset as"
  by (induction cs arbitrary: as) (auto simp: sorted_sift_down)

lemma mset_sortCandidates [simp]: "mset (sortCandidatesByDelay cs) = mset cs"
  using fold_sift_down [of "[]" cs] by (simp add: sortCandidatesByDelay_def)

lemma set_sortCandidates [simp]: "set (sortCandidatesByDelay cs) = set cs"
  by (metis mset_sortCandidates set_mset_mset)

lemma sorted_sortCandidates: "sorted_wrt cand_before (sortCandidatesByDelay cs)"
  using fold_sift_down [of "[]" cs] by (simp add: sortCandidatesByDelay_def sorted_wrt_rev)

lemma sorted_wrt_unique:
  assumes "sorted_wrt R xs" and "sorted_wrt R ys" and "mset xs = mset ys"
    and anti: "\<And>x y. x \<in> set xs \<Longrightarrow> y \<in> set xs \<Longrightarrow> R x y \<Longrightarrow> R y x \<Longrightarrow> x = y"
  shows "xs = ys"
  using assms
proof (induction xs arbitrary: ys)
  case (Cons x xs)
  then obtain y zs where ys: "ys = y # zs" by (cases ys) auto
  have "x = y"
  proof (rule ccontr)
    assume ne: "x \<noteq> y"
    have "set (x # xs) = set ys" using Cons.prems(3) by (metis set_mset_mset)
    with ne ys have "x \<in> set zs" "y \<in> set xs" by auto
    with Cons.prems ys have "R x y" "R y x" by auto
    with Cons.prems(4) \<open>y \<in> set xs\<close> ne show False by auto
  qed
  with Cons ys show ?case by auto
qed simp

lemma sort_candidates_unique:
  assumes "mset cs = mset ds" and "\<forall>c\<in>set cs. cAlive c"
  shows "sortCandidatesByDelay cs = sortCandidatesByDelay ds"
proof (rule sorted_wrt_unique [OF sorted_sortCandidates sorted_sortCandidates])
  show "mset (sortCandidatesByDelay cs) = mset (sortCandidatesByDelay ds)"
    using assms by simp
  fix x y assume "x \<in> set (sortCandidatesByDelay cs)" "y \<in> set (sortCandidatesByDelay cs)"
    "cand_before x y" "cand_before y x"
  with assms(2) show "x = y" by (auto simp: cand_before_def intro!: candidate.equality)
qed

lemma find_Some_split:
  assumes "find P xs = Some x"
  obtains as bs where "xs = as @ x # bs" and "P x" and "\<forall>a\<in>set as. \<not> P a"
  using assms
proof (induction xs arbitrary: thesis)
  case (Cons y ys)
  show ?case
  proof (cases "P y")
    case True
    with Cons.prems show ?thesis by (auto intro: Cons.prems(1) [of "[]"])
  next
    case False
    with Cons.prems(2) have "find P ys = Some x" by simp
    then obtain as bs where "ys = as @ x # bs" "P x" "\<forall>a\<in>set as. \<not> P a"
      using Cons.IH by blast
    with False show ?thesis by (intro Cons.prems(1) [of "y # as" bs]) auto
  qed
qed simp

text \<open>The first candidate that a search finds comes before every other that qualifies.\<close>

lemma find_first_before:
  assumes "sorted_wrt cand_before xs" and "find P xs = Some x" and "y \<in> set xs" and "P y"
  shows "y = x \<or> cand_before x y"
  using assms(2)
proof (rule find_Some_split)
  fix as bs assume "xs = as @ x # bs" "P x" "\<forall>a\<in>set as. \<not> P a"
  with assms show ?thesis by (auto simp: sorted_wrt_append)
qed

subsection \<open>The first-live plan keeps the pool's invariants\<close>

text \<open>
  What one pass over the slots may do: a hole receives a tag \<open>t\<close> with \<open>P t\<close>, an
  occupied slot stays.
\<close>

definition fills :: "(string \<Rightarrow> bool) \<Rightarrow> string list \<Rightarrow> string list \<Rightarrow> bool" where
  "fills P = list_all2 (\<lambda>s s'. s' = s \<or> (s = '''' \<and> s' \<noteq> '''' \<and> P s'))"

lemma fills_refl: "fills P ss ss"
  by (simp add: fills_def list.rel_refl)

lemma fills_Cons [simp]:
  "fills P (s # ss) (s' # ss') \<longleftrightarrow> (s' = s \<or> (s = '''' \<and> s' \<noteq> '''' \<and> P s')) \<and> fills P ss ss'"
  by (simp add: fills_def)

lemma fills_length: "fills P ss ss' \<Longrightarrow> length ss' = length ss"
  by (simp add: fills_def list_all2_lengthD)

lemma fills_nth:
  "fills P ss ss' \<Longrightarrow> i < length ss \<Longrightarrow> ss' ! i = ss ! i \<or> (ss ! i = '''' \<and> ss' ! i \<noteq> '''' \<and> P (ss' ! i))"
  by (simp add: fills_def list_all2_conv_all_nth)

lemma fills_mono: "fills P ss ss' \<Longrightarrow> (\<And>t. P t \<Longrightarrow> t \<noteq> '''' \<Longrightarrow> Q t) \<Longrightarrow> fills Q ss ss'"
  unfolding fills_def by (erule list_all2_mono) auto

lemma fills_subset: "fills P ss ss' \<Longrightarrow> set ss \<subseteq> insert '''' (set ss')"
  unfolding fills_def by (induction rule: list_all2_induct) auto

lemma fills_set: "fills P ss ss' \<Longrightarrow> t \<in> set ss' \<Longrightarrow> t \<in> set ss \<or> t \<noteq> '''' \<and> P t"
  unfolding fills_def by (induction rule: list_all2_induct) auto

lemma next_fill_Some:
  "next_fill live placed ts = Some (t, rest) \<Longrightarrow>
   t \<in> set ts \<and> t \<noteq> '''' \<and> live t \<and> t \<notin> set placed \<and> set rest \<subseteq> set ts \<and>
   (\<forall>u\<in>set ts. u \<noteq> '''' \<and> live u \<longrightarrow> u \<in> insert t (set placed) \<union> set rest)"
  by (induction ts) (auto split: if_splits)

lemma next_fill_None:
  "next_fill live placed ts = None \<Longrightarrow> \<forall>u\<in>set ts. u \<noteq> '''' \<and> live u \<longrightarrow> u \<in> set placed"
  by (induction ts) (auto split: if_splits)

lemma refill_holes_spec:
  assumes "refill_holes live ss fillOrder placed = (ss', placed')"
    and "distinct (occupied ss)" and "set (occupied ss) \<subseteq> set placed"
  shows "fills (\<lambda>t. t \<in> set fillOrder \<and> live t \<and> t \<notin> set placed) ss ss' \<and>
    distinct (occupied ss') \<and> set placed' = set placed \<union> set (occupied ss') \<and>
    ('''' \<in> set ss' \<longrightarrow> (\<forall>t\<in>set fillOrder. t \<noteq> '''' \<and> live t \<longrightarrow> t \<in> set placed'))"
  using assms
proof (induction live ss fillOrder placed arbitrary: ss' placed' rule: refill_holes.induct)
  case (2 live s ss fillOrder placed)
  show ?case
  proof (cases "s = ''''")
    case False
    then obtain ts where ts: "refill_holes live ss fillOrder placed = (ts, placed')" "ss' = s # ts"
      using "2.prems"(1) by (auto split: prod.splits)
    have "fills (\<lambda>t. t \<in> set fillOrder \<and> live t \<and> t \<notin> set placed) ss ts \<and>
      distinct (occupied ts) \<and> set placed' = set placed \<union> set (occupied ts) \<and>
      ('''' \<in> set ts \<longrightarrow> (\<forall>t\<in>set fillOrder. t \<noteq> '''' \<and> live t \<longrightarrow> t \<in> set placed'))"
      using False ts "2.prems" by (intro "2.IH"(1)) auto
    moreover from this have "s \<notin> set ts" if "s \<in> set placed" "s \<notin> set ss"
      using that False by (auto dest: fills_set)
    ultimately show ?thesis using False ts "2.prems" by auto
  next
    case True
    show ?thesis
    proof (cases "next_fill live placed fillOrder")
      case None
      obtain ts where ts: "refill_holes live ss [] placed = (ts, placed')" "ss' = s # ts"
        using "2.prems"(1) True None by (auto split: prod.splits)
      have "fills (\<lambda>t. t \<in> set [] \<and> live t \<and> t \<notin> set placed) ss ts \<and>
        distinct (occupied ts) \<and> set placed' = set placed \<union> set (occupied ts) \<and>
        ('''' \<in> set ts \<longrightarrow> (\<forall>t\<in>set []. t \<noteq> '''' \<and> live t \<longrightarrow> t \<in> set placed'))"
        using True None ts "2.prems" by (intro "2.IH"(2)) auto
      with True ts next_fill_None [OF None] show ?thesis by (auto elim: fills_mono)
    next
      case (Some p)
      then obtain t rest where nf: "next_fill live placed fillOrder = Some (t, rest)" by (cases p) auto
      obtain ts where ts: "refill_holes live ss rest (t # placed) = (ts, placed')" "ss' = t # ts"
        using "2.prems"(1) True nf by (auto split: prod.splits)
      note t = next_fill_Some [OF nf]
      have IH: "fills (\<lambda>u. u \<in> set rest \<and> live u \<and> u \<notin> set (t # placed)) ss ts \<and>
        distinct (occupied ts) \<and> set placed' = set (t # placed) \<union> set (occupied ts) \<and>
        ('''' \<in> set ts \<longrightarrow> (\<forall>u\<in>set rest. u \<noteq> '''' \<and> live u \<longrightarrow> u \<in> set placed'))"
        using True nf ts "2.prems" by (intro "2.IH"(3)) auto
      have "t \<notin> set ts"
        using fills_set [OF conjunct1 [OF IH], of t] t True "2.prems"(3) by auto
      moreover have "fills (\<lambda>t. t \<in> set fillOrder \<and> live t \<and> t \<notin> set placed) ss ts"
        using conjunct1 [OF IH] by (rule fills_mono) (use t in auto)
      ultimately show ?thesis using IH True ts t by auto
    qed
  qed
qed (auto simp: fills_refl)

lemma restore_dead_spec:
  assumes "restore_dead live current ss placed = (ss', placed')"
    and "distinct (occupied ss)" and "set (occupied ss) \<subseteq> set placed"
    and "distinct (occupied current)" and "length current \<le> length ss"
  shows "fills (\<lambda>t. t \<in> set current \<and> \<not> live t \<and> t \<notin> set placed) ss ss' \<and>
    distinct (occupied ss') \<and> set placed' = set placed \<union> set (occupied ss') \<and>
    (\<forall>i<length current. current ! i \<noteq> '''' \<and> \<not> live (current ! i) \<and> current ! i \<notin> set placed \<longrightarrow>
       ss' ! i = (if ss ! i = '''' then current ! i else ss ! i))"
  using assms
proof (induction live current ss placed arbitrary: ss' placed' rule: restore_dead.induct)
  case (1 live t ts s ss placed)
  let ?P = "\<lambda>current placed u. u \<in> set current \<and> \<not> live u \<and> u \<notin> set placed"
  show ?case
  proof (cases "s = '''' \<and> t \<noteq> '''' \<and> \<not> live t \<and> t \<notin> set placed")
    case True
    then obtain us where us: "restore_dead live ts ss (t # placed) = (us, placed')" "ss' = t # us"
      using "1.prems"(1) by (auto split: prod.splits)
    have IH: "fills (?P ts (t # placed)) ss us \<and>
      distinct (occupied us) \<and> set placed' = set (t # placed) \<union> set (occupied us) \<and>
      (\<forall>i<length ts. ts ! i \<noteq> '''' \<and> \<not> live (ts ! i) \<and> ts ! i \<notin> set (t # placed) \<longrightarrow>
         us ! i = (if ss ! i = '''' then ts ! i else ss ! i))"
      using True us "1.prems" by (intro "1.IH"(1)) auto
    have "t \<notin> set us" "t \<notin> set ts"
      using IH True "1.prems" by (auto dest: fills_set)
    moreover have "fills (?P (t # ts) placed) ss us"
      using conjunct1 [OF IH] by (rule fills_mono) auto
    moreover have "ts ! i \<noteq> t" if "i < length ts" for i
      using that \<open>t \<notin> set ts\<close> by (metis nth_mem)
    ultimately show ?thesis
      using IH True us by (simp add: All_less_Suc2)
  next
    case False
    then obtain us where us: "restore_dead live ts ss placed = (us, placed')" "ss' = s # us"
      using "1.prems"(1) by (auto split: prod.splits)
    have IH: "fills (?P ts placed) ss us \<and>
      distinct (occupied us) \<and> set placed' = set placed \<union> set (occupied us) \<and>
      (\<forall>i<length ts. ts ! i \<noteq> '''' \<and> \<not> live (ts ! i) \<and> ts ! i \<notin> set placed \<longrightarrow>
         us ! i = (if ss ! i = '''' then ts ! i else ss ! i))"
      using False us "1.prems" by (intro "1.IH"(2)) (auto split: if_splits)
    have "s \<notin> set us" if "s \<noteq> ''''"
      using IH that "1.prems" by (auto dest: fills_set)
    moreover have "fills (?P (t # ts) placed) ss us"
      using conjunct1 [OF IH] by (rule fills_mono) auto
    ultimately show ?thesis
      using IH False us "1.prems"(2-3) by (cases "s = ''''") (auto simp: All_less_Suc2)
  qed
qed (auto simp: fills_refl)

lemma surplus_dead_spec:
  assumes "distinct (occupied ss)" and "set (occupied ss) \<subseteq> set placed"
  shows "fills (\<lambda>t. t \<in> set current \<and> \<not> live t \<and> t \<notin> set placed) ss (surplus_dead live current ss placed) \<and>
    distinct (occupied (surplus_dead live current ss placed)) \<and>
    ('''' \<in> set (surplus_dead live current ss placed) \<longrightarrow>
       (\<forall>t\<in>set current. t \<noteq> '''' \<and> \<not> live t \<longrightarrow> t \<in> set placed \<union> set (surplus_dead live current ss placed)))"
  using assms
proof (induction live current ss placed rule: surplus_dead.induct)
  case (2 live current s ss placed)
  show ?case
  proof (cases "s = ''''")
    case False
    with "2.prems" "2.IH"(1) have IH: "fills (\<lambda>t. t \<in> set current \<and> \<not> live t \<and> t \<notin> set placed) ss
        (surplus_dead live current ss placed)" by auto
    have "s \<notin> set (surplus_dead live current ss placed)"
      using False "2.prems" fills_set [OF IH, of s] by auto
    with False "2.prems" "2.IH"(1) show ?thesis by auto
  next
    case True
    show ?thesis
    proof (cases "find (\<lambda>t. t \<noteq> '''' \<and> \<not> live t \<and> t \<notin> set placed) current")
      case None
      moreover from this have "\<forall>t\<in>set current. t \<noteq> '''' \<and> \<not> live t \<longrightarrow> t \<in> set placed"
        by (auto simp: find_None_iff)
      ultimately show ?thesis using True "2.prems" "2.IH"(2) by auto
    next
      case (Some t)
      then have t: "t \<in> set current" "t \<noteq> ''''" "\<not> live t" "t \<notin> set placed"
        by (auto simp: find_Some_iff)
      have IH: "fills (\<lambda>u. u \<in> set current \<and> \<not> live u \<and> u \<notin> set (t # placed)) ss
          (surplus_dead live current ss (t # placed))"
        using True Some "2.prems" "2.IH"(3) by auto
      have "t \<notin> set (surplus_dead live current ss (t # placed))"
        using t True "2.prems" fills_set [OF IH, of t] by auto
      moreover have "fills (\<lambda>u. u \<in> set current \<and> \<not> live u \<and> u \<notin> set placed) ss
          (surplus_dead live current ss (t # placed))"
        using IH by (rule fills_mono) auto
      ultimately show ?thesis using True Some t "2.prems" "2.IH"(3) by auto
    qed
  qed
qed (auto simp: fills_refl)

lemma keep_live_length [simp]: "length (keep_live live current sz) = max sz (length current)"
  by (auto simp: keep_live_def)

lemma keep_live_nth:
  "i < max sz (length current) \<Longrightarrow>
   keep_live live current sz ! i =
     (if i < length current \<and> live (current ! i) then current ! i else '''')"
  by (auto simp: keep_live_def nth_append)

lemma occupied_keep_live: "occupied (keep_live live current sz) = filter live (occupied current)"
  by (induction current) (auto simp: keep_live_def filter_map o_def)

lemma first_live_refill:
  assumes "distinct (occupied current)"
    and r: "refill_holes live (keep_live live current sz) fillOrder (occupied (keep_live live current sz)) = (r, pr)"
  shows "fills (\<lambda>t. t \<in> set fillOrder \<and> live t \<and> t \<notin> set current) (keep_live live current sz) r \<and>
    distinct (occupied r) \<and> set pr = set (occupied r) \<and> length r = max sz (length current) \<and>
    (\<forall>t\<in>set r. t \<noteq> '''' \<longrightarrow> live t) \<and>
    ('''' \<in> set r \<longrightarrow> (\<forall>t\<in>set fillOrder. t \<noteq> '''' \<and> live t \<longrightarrow> t \<in> set r))"
proof -
  let ?k = "keep_live live current sz"
  have "distinct (occupied ?k)"
    unfolding occupied_keep_live by (rule distinct_filter [OF assms(1)])
  note R = refill_holes_spec [OF r this subset_refl]
  have "fills (\<lambda>t. t \<in> set fillOrder \<and> live t \<and> t \<notin> set current) ?k r"
    by (rule fills_mono [OF conjunct1 [OF R]]) (auto simp: occupied_keep_live)
  moreover have "set pr = set (occupied r)"
    using R fills_subset [OF conjunct1 [OF R]] by auto
  moreover have "\<forall>t\<in>set r. t \<noteq> '''' \<longrightarrow> live t"
    by (auto dest!: fills_set [OF conjunct1 [OF R]] simp: keep_live_def)
  ultimately show ?thesis using R fills_length [OF conjunct1 [OF R]] by auto
qed

lemma first_live_restore:
  assumes cur: "distinct (occupied current)"
    and r: "refill_holes live (keep_live live current sz) fillOrder (occupied (keep_live live current sz)) = (r, pr)"
    and d: "restore_dead live current r pr = (d, pd)"
  shows "fills (\<lambda>t. t \<in> set current \<and> \<not> live t) r d \<and> distinct (occupied d) \<and>
    set pd = set (occupied d) \<and>
    (\<forall>i<length current. current ! i \<noteq> '''' \<and> \<not> live (current ! i) \<longrightarrow>
       d ! i = (if r ! i = '''' then current ! i else r ! i))"
proof -
  note R = first_live_refill [OF cur r]
  then have dead: "t \<notin> set pr" if "t \<in> set current" "t \<noteq> ''''" "\<not> live t" for t
    using that by auto
  have D: "fills (\<lambda>t. t \<in> set current \<and> \<not> live t \<and> t \<notin> set pr) r d \<and>
    distinct (occupied d) \<and> set pd = set pr \<union> set (occupied d) \<and>
    (\<forall>i<length current. current ! i \<noteq> '''' \<and> \<not> live (current ! i) \<and> current ! i \<notin> set pr \<longrightarrow>
       d ! i = (if r ! i = '''' then current ! i else r ! i))"
    using R by (intro restore_dead_spec [OF d _ _ cur]) auto
  have "fills (\<lambda>t. t \<in> set current \<and> \<not> live t) r d"
    by (rule fills_mono [OF conjunct1 [OF D]]) auto
  moreover have "set pd = set (occupied d)"
    using D R fills_subset [OF conjunct1 [OF D]] by auto
  ultimately show ?thesis using D dead by auto
qed

text \<open>
  The three passes of the plan: \<open>r\<close> after the refill, \<open>d\<close> after the dead occupants are
  back, \<open>p\<close> the result.
\<close>

lemma plan_first_live_passes:
  assumes "distinct (occupied current)"
  obtains r d where
    "fills (\<lambda>t. t \<in> set fillOrder \<and> live t \<and> t \<notin> set current) (keep_live live current sz) r"
    "fills (\<lambda>t. t \<in> set current \<and> \<not> live t) r d"
    "fills (\<lambda>t. t \<in> set current \<and> \<not> live t) d (planFirstLivePool current live fillOrder sz)"
    "\<forall>t\<in>set r. t \<noteq> '''' \<longrightarrow> live t"
    "'''' \<in> set r \<longrightarrow> (\<forall>t\<in>set fillOrder. t \<noteq> '''' \<and> live t \<longrightarrow> t \<in> set r)"
    "\<forall>i<length current. current ! i \<noteq> '''' \<and> \<not> live (current ! i) \<longrightarrow>
       d ! i = (if r ! i = '''' then current ! i else r ! i)"
    "'''' \<in> set (planFirstLivePool current live fillOrder sz) \<longrightarrow>
       (\<forall>t\<in>set current. t \<noteq> '''' \<and> \<not> live t \<longrightarrow> t \<in> set (planFirstLivePool current live fillOrder sz))"
    "distinct (occupied (planFirstLivePool current live fillOrder sz))"
proof -
  let ?k = "keep_live live current sz" and ?p = "planFirstLivePool current live fillOrder sz"
  obtain r pr where r: "refill_holes live ?k fillOrder (occupied ?k) = (r, pr)" by (meson surj_pair)
  obtain d pd where d: "restore_dead live current r pr = (d, pd)" by (meson surj_pair)
  have p: "?p = surplus_dead live current d pd" by (simp add: planFirstLivePool_def r d)
  note R = first_live_refill [OF assms r] and D = first_live_restore [OF assms r d]
  have S: "fills (\<lambda>t. t \<in> set current \<and> \<not> live t \<and> t \<notin> set pd) d ?p \<and> distinct (occupied ?p) \<and>
    ('''' \<in> set ?p \<longrightarrow> (\<forall>t\<in>set current. t \<noteq> '''' \<and> \<not> live t \<longrightarrow> t \<in> set pd \<union> set ?p))"
    unfolding p using D by (intro surplus_dead_spec) auto
  have "fills (\<lambda>t. t \<in> set current \<and> \<not> live t) d ?p"
    by (rule fills_mono [OF conjunct1 [OF S]]) auto
  moreover have "'''' \<in> set ?p \<longrightarrow> (\<forall>t\<in>set current. t \<noteq> '''' \<and> \<not> live t \<longrightarrow> t \<in> set ?p)"
    using S D fills_subset [OF conjunct1 [OF S]] by auto
  ultimately show ?thesis using R D S by (intro that [of r d]) simp_all
qed

text \<open>
  What a first-live plan promises: the slot count, one slot per node, live members in
  their slots, a dead member's slot only for a live node from outside, new members only
  from the live nodes offered, no dead or empty slot while one of them is left, and no
  hole while a member is dropped.
\<close>

definition first_live_contract ::
  "string list \<Rightarrow> (string \<Rightarrow> bool) \<Rightarrow> string list \<Rightarrow> nat \<Rightarrow> string list \<Rightarrow> bool" where
  "first_live_contract current live fillOrder sz nxt \<longleftrightarrow>
     length nxt = max sz (length current) \<and>
     distinct (occupied nxt) \<and>
     (\<forall>i<length current. current ! i \<noteq> '''' \<and> live (current ! i) \<longrightarrow> nxt ! i = current ! i) \<and>
     (\<forall>i<length current. current ! i \<noteq> '''' \<and> \<not> live (current ! i) \<longrightarrow>
        nxt ! i = current ! i \<or>
        (nxt ! i \<in> set fillOrder \<and> live (nxt ! i) \<and> nxt ! i \<notin> set current)) \<and>
     (\<forall>t\<in>set nxt. t \<noteq> '''' \<and> t \<notin> set current \<longrightarrow> t \<in> set fillOrder \<and> live t) \<and>
     ((\<exists>t\<in>set nxt. t = '''' \<or> \<not> live t) \<longrightarrow>
        (\<forall>t\<in>set fillOrder. t \<noteq> '''' \<and> live t \<longrightarrow> t \<in> set nxt)) \<and>
     ('''' \<in> set nxt \<longrightarrow> set (occupied current) \<subseteq> set nxt)"

lemma plan_first_live_contract:
  assumes "distinct (occupied current)"
  shows "first_live_contract current live fillOrder sz (planFirstLivePool current live fillOrder sz)"
proof -
  let ?k = "keep_live live current sz" and ?p = "planFirstLivePool current live fillOrder sz"
  obtain r d where
    kr: "fills (\<lambda>t. t \<in> set fillOrder \<and> live t \<and> t \<notin> set current) ?k r"
    and rd: "fills (\<lambda>t. t \<in> set current \<and> \<not> live t) r d"
    and dp: "fills (\<lambda>t. t \<in> set current \<and> \<not> live t) d ?p"
    and live_r: "\<forall>t\<in>set r. t \<noteq> '''' \<longrightarrow> live t"
    and full_r: "'''' \<in> set r \<longrightarrow> (\<forall>t\<in>set fillOrder. t \<noteq> '''' \<and> live t \<longrightarrow> t \<in> set r)"
    and restored: "\<forall>i<length current. current ! i \<noteq> '''' \<and> \<not> live (current ! i) \<longrightarrow>
       d ! i = (if r ! i = '''' then current ! i else r ! i)"
    and full_p: "'''' \<in> set ?p \<longrightarrow> (\<forall>t\<in>set current. t \<noteq> '''' \<and> \<not> live t \<longrightarrow> t \<in> set ?p)"
    and dist: "distinct (occupied ?p)"
    by (rule plan_first_live_passes [OF assms])
  have len: "length r = max sz (length current)" "length d = length r" "length ?p = length d"
    using kr rd dp by (simp_all add: fills_length)
  have keep: "?p ! i = d ! i" if "d ! i \<noteq> ''''" "i < length d" for i
    using fills_nth [OF dp that(2)] that(1) by auto
  have keep': "?p ! i = r ! i" if "r ! i \<noteq> ''''" "i < length d" for i
    using fills_nth [OF rd, of i] keep [OF _ that(2)] that len by auto
  have k: "?k ! i = (if i < length current \<and> live (current ! i) then current ! i else '''')"
    if "i < length d" for i using that len by (simp add: keep_live_nth)
  have alive: "?p ! i = current ! i" if i: "i < length current" "current ! i \<noteq> ''''" "live (current ! i)" for i
    using fills_nth [OF kr, of i] keep' [of i] k [of i] that len by (auto simp: less_max_iff_disj)
  have dead: "?p ! i = current ! i \<or> (?p ! i \<in> set fillOrder \<and> live (?p ! i) \<and> ?p ! i \<notin> set current)"
    if i: "i < length current" "current ! i \<noteq> ''''" "\<not> live (current ! i)" for i
    using fills_nth [OF kr, of i] keep [of i] keep' [of i] k [of i] restored i len by (auto simp: less_max_iff_disj)
  have sub: "t \<in> set ?p" if "t \<in> set r" "t \<noteq> ''''" for t
    using that fills_subset [OF dp] fills_subset [OF rd] by auto
  have new: "t \<in> set fillOrder \<and> live t" if "t \<in> set ?p" "t \<noteq> ''''" "t \<notin> set current" for t
    using that fills_set [OF dp, of t] fills_set [OF rd, of t] fills_set [OF kr, of t]
    by (auto simp: keep_live_def split: if_splits)
  have hole: "'''' \<in> set r" if "t \<in> set ?p" "t = '''' \<or> \<not> live t" for t
  proof -
    obtain i where i: "i < length ?p" "?p ! i = t" using \<open>t \<in> set ?p\<close> by (auto simp: in_set_conv_nth)
    with keep' [of i] that len live_r have "r ! i = ''''" by (metis nth_mem)
    with i len show ?thesis by (metis nth_mem)
  qed
  have all: "t \<in> set ?p" if t: "'''' \<in> set ?p" "t \<in> set current" "t \<noteq> ''''" for t
  proof (cases "live t")
    case True
    obtain i where "i < length current" "current ! i = t" using t by (auto simp: in_set_conv_nth)
    with alive True t len show ?thesis by (metis max.cobounded2 nth_mem order_less_le_trans)
  qed (use t full_p in auto)
  show ?thesis unfolding first_live_contract_def
  proof (intro conjI allI impI ballI subsetI)
    fix t assume "\<exists>t\<in>set ?p. t = '''' \<or> \<not> live t" "t \<in> set fillOrder" "t \<noteq> '''' \<and> live t"
    then show "t \<in> set ?p" using hole full_r sub by blast
  next
    fix t assume "'''' \<in> set ?p" "t \<in> set (occupied current)"
    then show "t \<in> set ?p" using all by simp
  qed (use len dist alive dead new in simp_all)
qed

subsection \<open>The tolerant plan keeps the pool's invariants\<close>

lemma displaces_unat:
  "displaces results tolerance c occupant \<longleftrightarrow>
     \<not> snd (slotDelay occupant results) \<or>
     unat (cDelay c) + unat tolerance < unat (fst (slotDelay occupant results))"
proof -
  have "(ucast x :: 32 word) + ucast y < ucast z \<longleftrightarrow> unat x + unat y < unat z" for x y z :: "16 word"
  proof -
    have b: "unat w < 2 ^ 16" for w :: "16 word" using unsigned_less [of w, where 'a = nat] by simp
    have "unat (ucast w :: 32 word) = unat w" for w :: "16 word"
      using b [of w] by (simp add: unsigned_ucast_eq take_bit_nat_eq_self)
    with b [of x] b [of y] show ?thesis by (simp add: word_less_nat_alt unat_word_ariths)
  qed
  then show ?thesis by (auto simp: displaces_def split: prod.splits)
qed

text \<open>
  The table of test results of \<^verbatim>\<open>balancePoolTolerant\<close> and \<^verbatim>\<open>rebuildPool\<close>: one candidate per
  tag, under its own tag.
\<close>

definition results_ok :: "(string \<times> candidate) list \<Rightarrow> bool" where
  "results_ok results \<longleftrightarrow>
     distinct (map fst results) \<and> (\<forall>(t, c)\<in>set results. cTag c = t \<and> t \<noteq> '''')"

lemma slotDelay_alive:
  assumes "results_ok results" and "(t, c) \<in> set results"
  shows "slotDelay (cTag c) results = (cDelay c, cAlive c)"
  using assms by (auto simp: results_ok_def slotDelay_def)

lemma fill_empty_spec:
  assumes "fill_empty alive ss inPool = (ss', inPool')"
    and "distinct (occupied ss)" and "set (occupied ss) \<subseteq> set inPool" and "\<forall>c\<in>set alive. cTag c \<noteq> ''''"
  shows "fills (\<lambda>t. t \<in> cTag ` set alive \<and> t \<notin> set inPool) ss ss' \<and>
    distinct (occupied ss') \<and> set inPool' = set inPool \<union> set (occupied ss') \<and>
    ('''' \<in> set ss' \<longrightarrow> cTag ` set alive \<subseteq> set inPool')"
  using assms
proof (induction alive ss inPool arbitrary: ss' inPool' rule: fill_empty.induct)
  case (2 alive s ss inPool)
  let ?P = "\<lambda>inPool t. t \<in> cTag ` set alive \<and> t \<notin> set inPool"
  show ?case
  proof (cases "s = ''''")
    case False
    then obtain us where us: "fill_empty alive ss inPool = (us, inPool')" "ss' = s # us"
      using "2.prems"(1) by (auto split: prod.splits)
    with False "2.prems" "2.IH"(1) have IH: "fills (?P inPool) ss us \<and> distinct (occupied us) \<and>
      set inPool' = set inPool \<union> set (occupied us) \<and> ('''' \<in> set us \<longrightarrow> cTag ` set alive \<subseteq> set inPool')"
      by auto
    have "s \<notin> set us" using False "2.prems" fills_set [OF conjunct1 [OF IH], of s] by auto
    with False us IH "2.prems" show ?thesis by auto
  next
    case True
    show ?thesis
    proof (cases "find (\<lambda>c. cTag c \<notin> set inPool) alive")
      case None
      obtain us where us: "fill_empty alive ss inPool = (us, inPool')" "ss' = s # us"
        using "2.prems"(1) True None by (auto split: prod.splits)
      moreover have "cTag ` set alive \<subseteq> set inPool" using None by (auto simp: find_None_iff)
      ultimately show ?thesis using "2.IH"(2) True None "2.prems" by auto
    next
      case (Some c)
      obtain us where us: "fill_empty alive ss (cTag c # inPool) = (us, inPool')" "ss' = cTag c # us"
        using "2.prems"(1) True Some by (auto split: prod.splits)
      have c: "c \<in> set alive" "cTag c \<notin> set inPool" using Some by (auto simp: find_Some_iff)
      have IH: "fills (?P (cTag c # inPool)) ss us \<and> distinct (occupied us) \<and>
        set inPool' = set (cTag c # inPool) \<union> set (occupied us) \<and> ('''' \<in> set us \<longrightarrow> cTag ` set alive \<subseteq> set inPool')"
        using True Some us "2.prems" by (intro "2.IH"(3)) auto
      have "cTag c \<notin> set us" using fills_set [OF conjunct1 [OF IH], of "cTag c"] True c "2.prems" by auto
      moreover have "fills (?P inPool) ss us" using conjunct1 [OF IH] by (rule fills_mono) auto
      ultimately show ?thesis using IH True us c "2.prems"(4) by auto
    qed
  qed
qed (auto simp: fills_refl)

lemma fill_empty_pool: "set inPool \<subseteq> set (snd (fill_empty alive ss inPool))"
  by (induction alive ss inPool rule: fill_empty.induct)
    (auto simp: case_prod_beta Let_def split: option.split)

lemma fill_empty_sorted:
  assumes "fill_empty alive ss inPool = (ss', inPool')" and "sorted_wrt cand_before alive"
    and "u \<in> set alive" and "cTag u \<notin> set inPool'" and "t \<in> set ss'" and "t \<notin> set ss"
  shows "\<exists>c\<in>set alive. cTag c = t \<and> cDelay c \<le> cDelay u"
  using assms
proof (induction alive ss inPool arbitrary: ss' inPool' rule: fill_empty.induct)
  case (2 alive s ss inPool)
  show ?case
  proof (cases "s = ''''")
    case False
    with "2.prems" "2.IH"(1) show ?thesis by (auto split: prod.splits)
  next
    case True
    show ?thesis
    proof (cases "find (\<lambda>c. cTag c \<notin> set inPool) alive")
      case None
      with True "2.prems" "2.IH"(2) show ?thesis by (auto split: prod.splits)
    next
      case (Some c)
      obtain us where us: "fill_empty alive ss (cTag c # inPool) = (us, inPool')" "ss' = cTag c # us"
        using "2.prems"(1) True Some by (auto split: prod.splits)
      show ?thesis
      proof (cases "t = cTag c")
        case True
        have "cTag u \<notin> set inPool" using fill_empty_pool [of "cTag c # inPool" alive ss] us(1) "2.prems"(4) by auto
        with find_first_before [OF "2.prems"(2) Some "2.prems"(3)] have "cDelay c \<le> cDelay u"
          by (auto simp: cand_before_def)
        with True Some show ?thesis by (auto simp: find_Some_iff)
      qed (use True Some us "2.prems" "2.IH"(3) in auto)
    qed
  qed
qed simp

text \<open>What the eviction loop may do with one slot.\<close>

definition keeps_or_evicts ::
  "(string \<times> candidate) list \<Rightarrow> 16 word \<Rightarrow> candidate list \<Rightarrow> string list \<Rightarrow> string \<Rightarrow> string \<Rightarrow> bool" where
  "keeps_or_evicts results tolerance alive inPool s s' \<longleftrightarrow>
     s' = s \<or>
     (\<exists>c\<in>set alive. s' = cTag c \<and> cTag c \<notin> set inPool \<and> displaces results tolerance c s)"

lemma keeps_or_evicts_intros:
  "keeps_or_evicts results tolerance alive inPool s s"
  "c \<in> set alive \<Longrightarrow> cTag c \<notin> set inPool \<Longrightarrow> displaces results tolerance c s \<Longrightarrow>
   keeps_or_evicts results tolerance alive inPool s (cTag c)"
  by (auto simp: keeps_or_evicts_def)

lemma keeps_or_evicts_set:
  "list_all2 (keeps_or_evicts results tolerance alive inPool) ss ss' \<Longrightarrow> t \<in> set ss' \<Longrightarrow>
   t \<in> set ss \<or> t \<notin> set inPool \<and> t \<in> cTag ` set alive"
  by (induction rule: list_all2_induct) (auto simp: keeps_or_evicts_def)

lemma evict_slots_spec:
  assumes "distinct (occupied ss)" and "set (occupied ss) \<subseteq> set inPool"
  shows "list_all2 (keeps_or_evicts results tolerance alive inPool) ss
      (evict_slots results tolerance alive ss inPool) \<and>
    distinct (occupied (evict_slots results tolerance alive ss inPool))"
  using assms
proof (induction results tolerance alive ss inPool rule: evict_slots.induct)
  case (2 results tolerance alive s ss inPool)
  let ?R = "keeps_or_evicts results tolerance alive"
  show ?case
  proof (cases "find (\<lambda>c. cTag c \<notin> set inPool \<and> displaces results tolerance c s) alive")
    case None
    let ?e = "evict_slots results tolerance alive ss inPool"
    have IH: "list_all2 (?R inPool) ss ?e \<and> distinct (occupied ?e)"
      using None "2.prems" by (intro "2.IH"(1)) (auto split: if_splits)
    have "s \<notin> set ?e" if "s \<noteq> ''''"
      using that "2.prems" keeps_or_evicts_set [OF conjunct1 [OF IH], of s] by auto
    with IH None show ?thesis by (auto simp: keeps_or_evicts_intros)
  next
    case (Some c)
    let ?e = "evict_slots results tolerance alive ss (cTag c # inPool)"
    have c: "c \<in> set alive" "cTag c \<notin> set inPool" "displaces results tolerance c s"
      using Some by (auto simp: find_Some_iff)
    have IH: "list_all2 (?R (cTag c # inPool)) ss ?e \<and> distinct (occupied ?e)"
      using Some "2.prems" by (intro "2.IH"(2)) (auto split: if_splits)
    have "cTag c \<notin> set ?e" if "cTag c \<noteq> ''''"
      using that c "2.prems" keeps_or_evicts_set [OF conjunct1 [OF IH], of "cTag c"]
      by (auto split: if_splits)
    moreover have "list_all2 (?R inPool) ss ?e"
      using conjunct1 [OF IH] by (rule list_all2_mono) (auto simp: keeps_or_evicts_def)
    ultimately show ?thesis using IH Some c by (auto simp: keeps_or_evicts_intros)
  qed
qed auto

lemma displaces_other:
  assumes "displaces results tolerance c' s" and "\<not> displaces results tolerance c s"
  shows "cDelay c' \<le> cDelay c"
  using assms by (auto simp: displaces_unat word_le_nat_alt)

lemma evict_slots_stable:
  assumes ok: "results_ok results" and sorted: "sorted_wrt cand_before alive"
    and alive: "\<forall>c\<in>set alive. cAlive c \<and> c \<in> snd ` set results"
    and c: "c \<in> set alive" "cTag c \<notin> set inPool"
    and out: "cTag c \<notin> set (evict_slots results tolerance alive ss inPool)"
  shows "\<forall>s\<in>set (evict_slots results tolerance alive ss inPool). \<not> displaces results tolerance c s"
  using c out
proof (induction ss arbitrary: inPool)
  case (Cons s ss)
  let ?P = "\<lambda>c. cTag c \<notin> set inPool \<and> displaces results tolerance c s"
  show ?case
  proof (cases "find ?P alive")
    case None
    moreover from this Cons.prems have "\<not> displaces results tolerance c s"
      by (auto simp: find_None_iff)
    ultimately show ?thesis using Cons by simp
  next
    case (Some c')
    then have c': "c' \<in> set alive" "?P c'" by (auto simp: find_Some_iff)
    have "cDelay c' \<le> cDelay c"
    proof (cases "displaces results tolerance c s")
      case True
      with find_first_before [OF sorted Some Cons.prems(1)] Cons.prems(2) show ?thesis
        by (auto simp: cand_before_def)
    qed (use c' displaces_other in blast)
    moreover have "slotDelay (cTag c') results = (cDelay c', True)"
      using slotDelay_alive [OF ok] alive c' by (auto simp: image_iff)
    ultimately have "\<not> displaces results tolerance c (cTag c')"
      by (simp add: displaces_unat word_le_nat_alt)
    with Cons.prems Cons.IH [of "cTag c' # inPool"] Some show ?thesis by simp
  qed
qed simp

text \<open>
  What a tolerant plan promises. A slot keeps its node unless that node is dead or beaten
  by more than the tolerance, then a live node from outside takes it. A live node left
  outside beats no member of the new pool by more than the tolerance, and none is dead.
\<close>

definition tolerant_contract ::
  "string list \<Rightarrow> (string \<times> candidate) list \<Rightarrow> nat \<Rightarrow> 16 word \<Rightarrow> string list \<Rightarrow> bool" where
  "tolerant_contract current results sz tolerance nxt \<longleftrightarrow>
     length nxt = max sz (length current) \<and>
     distinct (occupied nxt) \<and>
     (\<forall>i<length nxt.
        let old = (if i < length current then current ! i else '''') in
        nxt ! i = old \<or>
        (\<exists>c. (nxt ! i, c) \<in> set results \<and> cAlive c \<and> nxt ! i \<notin> set current \<and>
           (snd (slotDelay old results) \<longrightarrow>
              unat (cDelay c) + unat tolerance < unat (fst (slotDelay old results))))) \<and>
     (\<forall>(t, c)\<in>set results. cAlive c \<and> t \<notin> set current \<and> t \<notin> set nxt \<longrightarrow>
        (\<forall>s\<in>set nxt. snd (slotDelay s results) \<and>
           unat (fst (slotDelay s results)) \<le> unat (cDelay c) + unat tolerance))"

lemma plan_tolerant_passes:
  assumes cur: "distinct (occupied current)" and ok: "results_ok results"
  obtains alive f pool where
    "sorted_wrt cand_before alive"
    "\<forall>c. c \<in> set alive \<longleftrightarrow> cAlive c \<and> (cTag c, c) \<in> set results"
    "fill_empty alive (current @ replicate (sz - length current) '''') (occupied current) = (f, pool)"
    "fills (\<lambda>t. t \<in> cTag ` set alive \<and> t \<notin> set (occupied current))
       (current @ replicate (sz - length current) '''') f"
    "set pool = set (occupied current) \<union> set (occupied f)"
    "list_all2 (keeps_or_evicts results tolerance alive pool) f
       (planTolerantPool current results sz tolerance)"
    "planTolerantPool current results sz tolerance = evict_slots results tolerance alive f pool"
    "distinct (occupied (planTolerantPool current results sz tolerance))"
    "length f = max sz (length current)"
    "length (planTolerantPool current results sz tolerance) = length f"
proof -
  let ?base = "current @ replicate (sz - length current) ''''"
  let ?p = "planTolerantPool current results sz tolerance"
  define alive where "alive = sortCandidatesByDelay (filter cAlive (map snd results))"
  obtain f pool where f: "fill_empty alive ?base (occupied current) = (f, pool)" by (meson surj_pair)
  have p: "?p = evict_slots results tolerance alive f pool"
    by (simp add: planTolerantPool_def alive_def [symmetric] f)
  have sorted: "sorted_wrt cand_before alive" by (simp add: alive_def sorted_sortCandidates)
  have mem: "\<forall>c. c \<in> set alive \<longleftrightarrow> cAlive c \<and> (cTag c, c) \<in> set results" 
    using ok by (force simp: alive_def results_ok_def)
  have F: "fills (\<lambda>t. t \<in> cTag ` set alive \<and> t \<notin> set (occupied current)) ?base f \<and>
    distinct (occupied f) \<and> set pool = set (occupied current) \<union> set (occupied f) \<and>
    ('''' \<in> set f \<longrightarrow> cTag ` set alive \<subseteq> set pool)"
    using cur ok mem by (intro fill_empty_spec [OF f]) (auto simp: results_ok_def)
  have E: "list_all2 (keeps_or_evicts results tolerance alive pool) f ?p \<and> distinct (occupied ?p)"
    unfolding p using F by (intro evict_slots_spec) auto
  have len: "length f = max sz (length current)" "length ?p = length f"
    using fills_length [OF conjunct1 [OF F]] list_all2_lengthD [OF conjunct1 [OF E]] by auto
  show ?thesis using that [OF sorted mem f _ _ _ p _ len] F E by blast
qed

lemma plan_tolerant_slot:
  assumes cur: "distinct (occupied current)" and ok: "results_ok results"
    and i: "i < max sz (length current)"
    and old: "old = (if i < length current then current ! i else '''')"
    and p: "p = planTolerantPool current results sz tolerance"
  shows "p ! i = old \<or>
    (\<exists>c. (p ! i, c) \<in> set results \<and> cAlive c \<and> p ! i \<notin> set current \<and>
       (snd (slotDelay old results) \<longrightarrow>
          unat (cDelay c) + unat tolerance < unat (fst (slotDelay old results))))"
proof -
  let ?base = "current @ replicate (sz - length current) ''''"
  obtain alive f pool where sorted: "sorted_wrt cand_before alive"
    and mem: "\<forall>c. c \<in> set alive \<longleftrightarrow> cAlive c \<and> (cTag c, c) \<in> set results"
    and f: "fill_empty alive ?base (occupied current) = (f, pool)"
    and F: "fills (\<lambda>t. t \<in> cTag ` set alive \<and> t \<notin> set (occupied current)) ?base f"
    and pool: "set pool = set (occupied current) \<union> set (occupied f)"
    and E: "list_all2 (keeps_or_evicts results tolerance alive pool) f p"
    and pe: "p = evict_slots results tolerance alive f pool"
    and dist: "distinct (occupied p)"
    and len: "length f = max sz (length current)" "length p = length f"
    by (rule plan_tolerant_passes [OF cur ok, where sz = sz and tolerance = tolerance, folded p])
  have base: "?base ! i = old" using i old by (auto simp: nth_append)
  have "f ! i = old \<or> (old = '''' \<and> f ! i \<in> cTag ` set alive \<and> f ! i \<notin> set (occupied current))"
    using fills_nth [OF F, of i] i len base by auto
  moreover have "keeps_or_evicts results tolerance alive pool (f ! i) (p ! i)"
    using list_all2_nthD [OF E, of i] i len by simp
  moreover have "\<not> snd (slotDelay '''' results)" by (simp add: slotDelay_def)
  ultimately consider "p ! i = old"
    | c where "c \<in> set alive" "p ! i = cTag c" "cTag c \<notin> set (occupied current)"
        "snd (slotDelay old results) \<longrightarrow>
           unat (cDelay c) + unat tolerance < unat (fst (slotDelay old results))"
    using pool by (fastforce simp: keeps_or_evicts_def displaces_unat)
  then show ?thesis using mem ok by cases (auto simp: results_ok_def)
qed

lemma plan_tolerant_out:
  assumes cur: "distinct (occupied current)" and ok: "results_ok results"
    and t: "(t, c) \<in> set results" "cAlive c" "t \<notin> set current" "t \<notin> set p" and s: "s \<in> set p"
    and p: "p = planTolerantPool current results sz tolerance"
  shows "snd (slotDelay s results) \<and> unat (fst (slotDelay s results)) \<le> unat (cDelay c) + unat tolerance"
proof -
  let ?base = "current @ replicate (sz - length current) ''''"
  obtain alive f pool where sorted: "sorted_wrt cand_before alive"
    and mem: "\<forall>c. c \<in> set alive \<longleftrightarrow> cAlive c \<and> (cTag c, c) \<in> set results"
    and f: "fill_empty alive ?base (occupied current) = (f, pool)"
    and F: "fills (\<lambda>t. t \<in> cTag ` set alive \<and> t \<notin> set (occupied current)) ?base f"
    and pool: "set pool = set (occupied current) \<union> set (occupied f)"
    and E: "list_all2 (keeps_or_evicts results tolerance alive pool) f p"
    and pe: "p = evict_slots results tolerance alive f pool"
    and dist: "distinct (occupied p)"
    and len: "length f = max sz (length current)" "length p = length f"
    by (rule plan_tolerant_passes [OF cur ok, where sz = sz and tolerance = tolerance, folded p])
  have c: "c \<in> set alive" "cTag c = t" "t \<noteq> ''''" using t ok mem by (auto simp: results_ok_def)
  have "t \<notin> set f"
  proof
    assume tf: "t \<in> set f"
    then obtain i where i: "i < length f" "f ! i = t" by (auto simp: in_set_conv_nth)
    have "keeps_or_evicts results tolerance alive pool t (p ! i)"
      using list_all2_nthD [OF E i(1)] i by simp
    moreover have "\<not> displaces results tolerance u t" if u: "u \<in> set alive" "cTag u \<notin> set pool" for u
    proof -
      have "t \<notin> set ?base" using t c by auto
      then obtain c where "c \<in> set alive" "cTag c = t" "cDelay c \<le> cDelay u"
        using fill_empty_sorted [OF f sorted u tf] by blast
      with mem slotDelay_alive [OF ok] show ?thesis
        by (fastforce simp: displaces_unat word_le_nat_alt)
    qed
    ultimately have "p ! i = t" by (auto simp: keeps_or_evicts_def)
    with i len t(4) show False by (metis nth_mem)
  qed
  with pool c t have "cTag c \<notin> set pool" by auto
  moreover have "\<forall>c\<in>set alive. cAlive c \<and> c \<in> snd ` set results" using mem by force
  ultimately have "\<not> displaces results tolerance c s"
    using evict_slots_stable [OF ok sorted _ c(1), of pool tolerance f] c t s pe by auto
  then show ?thesis by (auto simp: displaces_unat)
qed

lemma plan_tolerant_contract:
  assumes "distinct (occupied current)" and "results_ok results"
  shows "tolerant_contract current results sz tolerance (planTolerantPool current results sz tolerance)"
proof -
  let ?p = "planTolerantPool current results sz tolerance"
  have "length ?p = max sz (length current)" "distinct (occupied ?p)"
    by (rule plan_tolerant_passes [OF assms, where sz = sz and tolerance = tolerance], simp)+
  note len = this
  show ?thesis
    unfolding tolerant_contract_def Let_def
  proof (intro conjI allI impI ballI, goal_cases)
    case (3 i)
    then show ?case using plan_tolerant_slot [OF assms _ refl refl, of i sz tolerance] len by simp
  next
    case (4 tc)
    obtain t c where "tc = (t, c)" by (cases tc)
    then show ?case using plan_tolerant_out [OF assms _ _ _ _ _ refl, of t c sz tolerance] 4 by simp
  qed (use len in simp_all)
qed

end
