(* ===== verification/Balancer.thy ===== *)
theory Balancer
  imports PoolPlan
begin

text \<open>
  The \<^verbatim>\<open>round_robin\<close> balancer of a URL test group: its options (\<open>newBalancer\<close>,
  \<open>NewURLTest\<close>) and the choice of a slot for a connection (\<open>pick\<close>, \<open>liveSlot\<close>, \<open>stickyKey\<close>,
  \<open>hashKey\<close>), from \<^verbatim>\<open>protocol/group/urltest_balance_lx.go\<close>. Without sticky components the
  choice rotates over the live slots, with them a key stays with
  its slot as long as the node there lives (\<open>pick_sticky\<close>).
\<close>

subsection \<open>Options\<close>

record balancer_options =
  oPool :: int
  oPoolTolerance :: "16 word"
  oStickyHash :: "string list"

record urltest_options =
  uOutbounds :: "string list"
  uTolerance :: "16 word"
  uMode :: string
  uBalancer :: "balancer_options option"

datatype group_error =
    UnknownMode string
  | PoolNotPositive
  | NoneNotAlone
  | UnknownSticky string
  | PoolToleranceTooLarge
  | BalancerNeedsRoundRobin
  | MissingTags
  | DuplicateTag string

record balancer =
  bPoolSize :: nat
  bPoolTolerance :: "16 word"
  bStickyHash :: "string list"
  bSlots :: "string list"
  bCounter :: "64 word"

definition DefaultURLTestPool :: nat where
  "DefaultURLTestPool = 3"

definition sticky_components :: "string list" where
  "sticky_components = [''process'', ''domain'', ''source_ip'', ''dest_ip'', ''dest_port'']"

fun check_sticky :: "string list \<Rightarrow> group_error option" where
  "check_sticky [] = None"
| "check_sticky (component # rest) =
     (if component \<in> set sticky_components then check_sticky rest
      else if component = ''none'' then Some NoneNotAlone
      else Some (UnknownSticky component))"

definition sticky_of :: "balancer_options option \<Rightarrow> string list" where
  "sticky_of bo =
     (case bo of
        None \<Rightarrow> [''process'', ''domain'']
      | Some o' \<Rightarrow>
          if oStickyHash o' = [] then [''process'', ''domain'']
          else if oStickyHash o' = [''none''] then []
          else oStickyHash o')"

definition newBalancer :: "urltest_options \<Rightarrow> group_error + balancer option" where
  "newBalancer options =
     (let mode = uMode options; bo = uBalancer options in
      if mode = '''' \<or> mode = ''least_test'' \<or> mode = ''failover'' then Inr None
      else if mode \<noteq> ''round_robin'' then Inl (UnknownMode mode)
      else if (case bo of Some o' \<Rightarrow> oPool o' < 0 | None \<Rightarrow> False) then Inl PoolNotPositive
      else case check_sticky (sticky_of bo) of
             Some e \<Rightarrow> Inl e
           | None \<Rightarrow>
               if (case bo of Some o' \<Rightarrow> oPoolTolerance o' > 15000 | None \<Rightarrow> False)
               then Inl PoolToleranceTooLarge
               else Inr (Some \<lparr>bPoolSize = (case bo of
                                   Some o' \<Rightarrow> if oPool o' > 0 then nat (oPool o') else DefaultURLTestPool
                                 | None \<Rightarrow> DefaultURLTestPool),
                               bPoolTolerance = (case bo of Some o' \<Rightarrow> oPoolTolerance o' | None \<Rightarrow> 0),
                               bStickyHash = sticky_of bo,
                               bSlots = [],
                               bCounter = 0\<rparr>))"

definition warnLegacyTolerance :: "balancer option \<Rightarrow> urltest_options \<Rightarrow> bool" where
  "warnLegacyTolerance b options =
     (case b of None \<Rightarrow> False | Some b' \<Rightarrow> uTolerance options \<noteq> 0 \<and> bPoolTolerance b' = 0)"

definition isFailoverMode :: "urltest_options \<Rightarrow> bool" where
  "isFailoverMode options = (uMode options = ''failover'')"

definition warnFailoverTolerance :: "bool \<Rightarrow> urltest_options \<Rightarrow> bool" where
  "warnFailoverTolerance failover options = (failover \<and> uTolerance options \<noteq> 0)"

fun first_duplicate :: "string list \<Rightarrow> string list \<Rightarrow> string option" where
  "first_duplicate seen [] = None"
| "first_duplicate seen (t # ts) = (if t \<in> set seen then Some t else first_duplicate (seen @ [t]) ts)"

text \<open>The validation of \<^verbatim>\<open>NewURLTest\<close>: the balancer and whether the group runs in failover mode.\<close>

definition NewURLTest :: "urltest_options \<Rightarrow> group_error + balancer option \<times> bool" where
  "NewURLTest options =
     bind_res (newBalancer options) (\<lambda>b.
       if b = None \<and> uBalancer options \<noteq> None then Inl BalancerNeedsRoundRobin
       else if uOutbounds options = [] then Inl MissingTags
       else case first_duplicate [] (uOutbounds options) of
              Some t \<Rightarrow> Inl (DuplicateTag t)
            | None \<Rightarrow> Inr (b, isFailoverMode options))"

subsection \<open>The key of a connection\<close>

record process_info =
  pPackages :: "string list"
  pPath :: string

record sticky_metadata =
  mProcess :: "process_info option"
  mDomain :: string
  mSource :: "string option"

record socksaddr =
  dFqdn :: string
  dAddr :: "string option"
  dPort :: "16 word"

text \<open>
  An address is given by its text, \<open>None\<close> when it is not valid.
\<close>

definition stickyComponent :: "string \<Rightarrow> sticky_metadata option \<Rightarrow> socksaddr \<Rightarrow> string" where
  "stickyComponent component metadata destination =
     (if component = ''process'' then
        (case metadata of
           None \<Rightarrow> ''''
         | Some m \<Rightarrow>
             (case mProcess m of
                None \<Rightarrow> ''''
              | Some p \<Rightarrow> (case pPackages p of [] \<Rightarrow> pPath p | q # _ \<Rightarrow> q)))
      else if component = ''domain'' then
        (case metadata of
           None \<Rightarrow> dFqdn destination
         | Some m \<Rightarrow> if mDomain m \<noteq> '''' then mDomain m else dFqdn destination)
      else if component = ''source_ip'' then
        (case metadata of
           None \<Rightarrow> ''''
         | Some m \<Rightarrow> (case mSource m of None \<Rightarrow> '''' | Some a \<Rightarrow> a))
      else if component = ''dest_ip'' then
        (case dAddr destination of None \<Rightarrow> '''' | Some a \<Rightarrow> a)
      else if component = ''dest_port'' then
        (if dPort destination = 0 then '''' else itoa (unat (dPort destination)))
      else '''')"

definition stickyKey :: "balancer \<Rightarrow> sticky_metadata option \<Rightarrow> socksaddr \<Rightarrow> string" where
  "stickyKey b metadata destination =
     join_with [CHR 0x00] (map (\<lambda>c. stickyComponent c metadata destination) (bStickyHash b))"

text \<open>FNV-1a on 64 bits (\<^verbatim>\<open>hash/fnv\<close>).\<close>

definition hashKey :: "string \<Rightarrow> 64 word" where
  "hashKey key =
     foldl (\<lambda>h c. xor h (of_nat (of_char c)) * 1099511628211) 14695981039346656037 key"

subsection \<open>The choice of a slot\<close>

fun nth_live :: "(string \<Rightarrow> bool) \<Rightarrow> string list \<Rightarrow> nat \<Rightarrow> nat \<Rightarrow> nat option" where
  "nth_live alive [] i k = None"
| "nth_live alive (s # ss) i k =
     (if alive s then (if k = 0 then Some i else nth_live alive ss (i + 1) (k - 1))
      else nth_live alive ss (i + 1) k)"

definition liveSlot :: "(string \<Rightarrow> bool) \<Rightarrow> string list \<Rightarrow> 64 word \<Rightarrow> nat option" where
  "liveSlot alive slots k =
     (let live = length (filter alive slots)
      in if live = 0 then None else nth_live alive slots 0 (unat k mod live))"

definition rotate_counter :: "bool \<Rightarrow> balancer \<Rightarrow> 64 word \<times> balancer" where
  "rotate_counter is_probe b =
     (if is_probe then (bCounter b, b)
      else (bCounter b, b\<lparr>bCounter := bCounter b + 1\<rparr>))"

text \<open>
  \<open>alive\<close> is the callback of the balancer, absent before the group is started, \<open>resolve\<close>
  the lookup of a slot's node, \<open>key\<close> the key of the connection.
\<close>

definition pick ::
  "bool \<Rightarrow> string \<Rightarrow> (string \<Rightarrow> bool) option \<Rightarrow> 'o option \<Rightarrow> (string \<Rightarrow> 'o option) \<Rightarrow> balancer
   \<Rightarrow> 'o option \<times> balancer" where
  "pick is_probe key alive fallback resolve b =
     (let slots = bSlots b; n = length slots in
      if n = 0 then (fallback, b)
      else
        (let (idx, b') =
           (if bStickyHash b \<noteq> [] then
              (let hash = hashKey key; idx = unat hash mod n in
               (case alive of
                  None \<Rightarrow> idx
                | Some al \<Rightarrow>
                    if al (slots ! idx) then idx
                    else (case liveSlot al slots (hash div of_nat n) of
                            Some live \<Rightarrow> live
                          | None \<Rightarrow> idx), b))
            else
              (let (counter, b') = rotate_counter is_probe b; idx = unat counter mod n in
               (case alive of
                  None \<Rightarrow> idx
                | Some al \<Rightarrow> (case liveSlot al slots counter of Some live \<Rightarrow> live | None \<Rightarrow> idx), b')))
         in (case resolve (slots ! idx) of
               Some node \<Rightarrow> (Some node, b')
             | None \<Rightarrow> (fallback, b'))))"

definition setSlots :: "string list \<Rightarrow> balancer \<Rightarrow> balancer" where
  "setSlots tags b = b\<lparr>bSlots := tags\<rparr>"

definition poolTags :: "balancer \<Rightarrow> string list" where
  "poolTags b = bSlots b"

definition poolReferences :: "balancer option \<Rightarrow> string list" where
  "poolReferences b = (case b of None \<Rightarrow> [] | Some b' \<Rightarrow> occupied (poolTags b'))"

subsection \<open>Rotation over the live slots\<close>

lemma nth_live_filter:
  "k < length (filter alive ss) \<Longrightarrow>
   \<exists>j<length ss. nth_live alive ss i k = Some (i + j) \<and> ss ! j = filter alive ss ! k"
proof (induction ss arbitrary: i k)
  case (Cons s ss)
  show ?case
  proof (cases "alive s \<and> k = 0")
    case False
    define k' where "k' = (if alive s then k - 1 else k)"
    have "k' < length (filter alive ss)" using Cons.prems False by (auto simp: k'_def)
    from Cons.IH [OF this, of "i + 1"] obtain j where
      "j < length ss" "nth_live alive ss (i + 1) k' = Some (i + 1 + j)" "ss ! j = filter alive ss ! k'"
      by blast
    with False show ?thesis by (intro exI [of _ "Suc j"]) (auto simp: k'_def nth_Cons')
  qed auto
qed simp

lemma liveSlot_None: "liveSlot alive slots k = None \<longleftrightarrow> filter alive slots = []"
proof (cases "filter alive slots = []")
  case False
  then have "unat k mod length (filter alive slots) < length (filter alive slots)" by simp
  from nth_live_filter [OF this, of 0] False show ?thesis by (auto simp: liveSlot_def Let_def)
qed (simp add: liveSlot_def)

lemma liveSlot_Some:
  "liveSlot alive slots k = Some i \<Longrightarrow>
   i < length slots \<and>
   slots ! i = filter alive slots ! (unat k mod length (filter alive slots)) \<and> alive (slots ! i)"
proof -
  assume i: "liveSlot alive slots k = Some i"
  then have ne: "filter alive slots \<noteq> []" using liveSlot_None [of alive slots k] by simp
  then have m: "unat k mod length (filter alive slots) < length (filter alive slots)" by simp
  from nth_live_filter [OF m, of 0] i ne
  have "i < length slots \<and> slots ! i = filter alive slots ! (unat k mod length (filter alive slots))"
    by (auto simp: liveSlot_def Let_def)
  with nth_mem [OF m] show ?thesis by auto
qed

text \<open>The slots a connection may be sent to: the live ones, all of them when none is live.\<close>

definition usable :: "(string \<Rightarrow> bool) \<Rightarrow> string list \<Rightarrow> string list" where
  "usable alive slots = (if filter alive slots = [] then slots else filter alive slots)"

lemma pick_counter:
  assumes "bStickyHash b = []" and "bSlots b \<noteq> []"
  shows "pick False key (Some alive) fallback Some b =
    (Some (usable alive (bSlots b) ! (unat (bCounter b) mod length (usable alive (bSlots b)))),
     b\<lparr>bCounter := bCounter b + 1\<rparr>)"
proof (cases "liveSlot alive (bSlots b) (bCounter b)")
  case None
  then show ?thesis
    using assms liveSlot_None [of alive "bSlots b" "bCounter b"]
    by (simp add: pick_def rotate_counter_def usable_def Let_def)
next
  case (Some i)
  then show ?thesis
    using assms liveSlot_Some [OF Some] liveSlot_None [of alive "bSlots b" "bCounter b"]
    by (simp add: pick_def rotate_counter_def usable_def Let_def)
qed

fun pick_run :: "nat \<Rightarrow> (nat \<Rightarrow> string) \<Rightarrow> (string \<Rightarrow> bool) \<Rightarrow> balancer \<Rightarrow> string option list" where
  "pick_run 0 keys alive b = []"
| "pick_run (Suc n) keys alive b =
     (let (node, b') = pick False (keys n) (Some alive) None Some b in node # pick_run n keys alive b')"

lemma pick_run_nth:
  assumes "bStickyHash b = []" and "bSlots b \<noteq> []"
    and "unat (bCounter b) + n \<le> 2 ^ 64" and "j < n"
  shows "pick_run n keys alive b ! j =
    Some (usable alive (bSlots b) ! ((unat (bCounter b) + j) mod length (usable alive (bSlots b))))"
  using assms
proof (induction n arbitrary: b j)
  case (Suc n)
  let ?b = "b\<lparr>bCounter := bCounter b + 1\<rparr>"
  show ?case
  proof (cases j)
    case 0
    with Suc.prems show ?thesis by (simp add: pick_counter)
  next
    case (Suc i)
    with Suc.prems have c: "unat (bCounter b + 1) = unat (bCounter b) + 1"
      by (simp add: unat_word_ariths)
    have "pick_run n keys alive ?b ! i =
      Some (usable alive (bSlots ?b) ! ((unat (bCounter ?b) + i) mod length (usable alive (bSlots ?b))))"
      using Suc Suc.prems c by (intro Suc.IH) auto
    with Suc.prems Suc c show ?thesis by (simp add: pick_counter)
  qed
qed simp

lemma pick_run_length [simp]: "length (pick_run n keys alive b) = n"
  by (induction n arbitrary: b) (auto split: prod.splits)

text \<open>
  C27: Round robin is fair. Over as many connections as there are usable slots, with an
  unchanged pool and the counter not wrapping, \<open>pick\<close> goes once through the
  usable slots in slot order, beginning at the counter: a live node gets exactly one of the
  connections and, as long as some node is live, a dead one gets none.
\<close>

theorem round_robin_rotation:
  assumes "bStickyHash b = []" and "bSlots b \<noteq> []"
    and "unat (bCounter b) + length (usable alive (bSlots b)) \<le> 2 ^ 64"
  shows "pick_run (length (usable alive (bSlots b))) keys alive b =
    map Some (rotate (unat (bCounter b)) (usable alive (bSlots b)))"
  using pick_run_nth [OF assms] by (intro nth_equalityI) (simp_all add: nth_rotate)

theorem round_robin_rotation_witness:
  "pick_run 2 (\<lambda>_. '''') (\<lambda>t. t \<noteq> ''b'')
     \<lparr>bPoolSize = 3, bPoolTolerance = 0, bStickyHash = [], bSlots = [''a'', ''b'', ''c''], bCounter = 7\<rparr> =
   [Some ''c'', Some ''a'']"
proof -
  let ?b = "\<lparr>bPoolSize = 3, bPoolTolerance = 0, bStickyHash = [], bSlots = [''a'', ''b'', ''c''],
    bCounter = 7\<rparr>" and ?al = "\<lambda>t. t \<noteq> ''b''"
  have u: "usable ?al (bSlots ?b) = [''a'', ''c'']" by (simp add: usable_def)
  have "length (usable ?al (bSlots ?b)) = 2" unfolding u by simp
  moreover have "rotate (unat (bCounter ?b)) [''a'', ''c''] = [''c'', ''a'']"
    by (simp add: rotate_conv_mod [of 7] numeral_2_eq_2 [symmetric])
  moreover have "pick_run (length (usable ?al (bSlots ?b))) (\<lambda>_. '''') ?al ?b =
    map Some (rotate (unat (bCounter ?b)) (usable ?al (bSlots ?b)))"
    by (rule round_robin_rotation) (simp_all add: usable_def)
  ultimately show ?thesis by (simp only: u list.map)
qed

subsection \<open>Keys stay with a living node\<close>

lemma pick_sticky:
  assumes "bStickyHash b \<noteq> []" and "bSlots b \<noteq> []"
    and "alive (bSlots b ! (unat (hashKey key) mod length (bSlots b)))"
  shows "pick p key (Some alive) fallback Some b =
    (Some (bSlots b ! (unat (hashKey key) mod length (bSlots b))), b)"
  using assms by (simp add: pick_def Let_def)

lemma pick_sticky_live:
  assumes "bStickyHash b \<noteq> []" and "bSlots b \<noteq> []" and "filter alive (bSlots b) \<noteq> []"
  shows "\<exists>t\<in>set (bSlots b). alive t \<and> pick p key (Some alive) fallback Some b = (Some t, b)"
proof (cases "alive (bSlots b ! (unat (hashKey key) mod length (bSlots b)))")
  case True
  with assms pick_sticky [of b alive key] show ?thesis by auto
next
  case False
  obtain i where i: "liveSlot alive (bSlots b) (hashKey key div of_nat (length (bSlots b))) = Some i"
    using liveSlot_None [of alive "bSlots b"] assms(3) by (metis not_None_eq)
  from liveSlot_Some [OF i] have "i < length (bSlots b)" "alive (bSlots b ! i)" by blast+
  with False assms i show ?thesis
    by (intro bexI [of _ "bSlots b ! i"]) (auto simp: pick_def Let_def)
qed

end
