(* ===== verification/PoolHealth.thy ===== *)
theory PoolHealth
  imports Balancer
begin

text \<open>
  The health checks that maintain the pool of a \<^verbatim>\<open>round_robin\<close> group
  (\<^verbatim>\<open>protocol/group/urltest.go\<close>): \<open>testNodes\<close>, \<open>balancePool\<close>, \<open>rebuildPool\<close>, \<open>seedPool\<close>.

  \<^item> A node is a \<open>node\<close> record, compared like the pointers of the source. The group is
    \<open>urltest_group\<close>. Of a history entry the delay is kept. The events the group raises
    are collected in \<open>gEvents\<close>.
  \<^item> The network is a parameter: \<open>probe t\<close> is the outcome of the URL test of the outbound \<open>t\<close>,
    \<open>lookup\<close> the outbound manager, \<open>rt\<close> the function \<open>RealTag\<close> for TCP. The members are
    leaf outbounds; a nested group would run its own check inside \<open>testNodes\<close>.
  \<^item> The incremental check of the source, which tests in batches until the pool is full,
    computes the plan of \<open>planFirstLivePool\<close> (\<open>first_live_check_slots\<close>).
  \<^item> The interface of the two planners is the locale \<open>pool_planner\<close>, whose clients are the
    properties of a run of checks.
\<close>

subsection \<open>The group and its health checks\<close>

record node =
  nTag :: string
  nNetwork :: "string list"

datatype group_event = Interrupted | ReachabilityInvalidated | HistoryUpdated

record urltest_group =
  gOutbounds :: "node list"
  gTolerance :: "16 word"
  gHistory :: "string \<Rightarrow> 16 word option"
  gBalancer :: "balancer option"
  gSelectedTCP :: "node option"
  gSelectedUDP :: "node option"
  gFailover :: bool
  gFailoverSlow :: "string list"
  gPenalties :: "string \<Rightarrow> int option"
  gLastSelected :: string
  gForcedRetestRunning :: bool
  gLastForcedRetest :: "int option"
  gEvents :: "group_event list"

definition penaltyReset :: "string \<Rightarrow> urltest_group \<Rightarrow> urltest_group" where
  "penaltyReset tag g =
     (case gPenalties g tag of
        None \<Rightarrow> g
      | Some _ \<Rightarrow> g\<lparr>gPenalties := (gPenalties g)(tag \<mapsto> 0)\<rparr>)"

datatype probe_outcome = Answered "16 word" | Failed | Cancelled

text \<open>
  One forced test of a leaf outbound, the body of the batch job of \<^verbatim>\<open>urlTestBatch.test\<close>.
  The jobs of a batch run concurrently and touch different tags.
\<close>

definition probe_job ::
  "(string \<Rightarrow> probe_outcome) \<Rightarrow> string \<Rightarrow> (string \<Rightarrow> 16 word option) \<times> urltest_group
   \<Rightarrow> (string \<Rightarrow> 16 word option) \<times> urltest_group" where
  "probe_job probe tag rg =
     (let (result, g) = rg in
      case probe tag of
        Failed \<Rightarrow> (result, g\<lparr>gHistory := (gHistory g)(tag := None)\<rparr>)
      | Cancelled \<Rightarrow> (result, g)
      | Answered delay \<Rightarrow>
          (result(tag \<mapsto> delay),
           (penaltyReset tag g)\<lparr>gHistory := (gHistory g)(tag \<mapsto> delay)\<rparr>))"

definition testNodes ::
  "(string \<Rightarrow> probe_outcome) \<Rightarrow> node list \<Rightarrow> urltest_group
   \<Rightarrow> (string \<Rightarrow> 16 word option) \<times> urltest_group" where
  "testNodes probe nodes g = fold (probe_job probe) (remdups (map nTag nodes)) (\<lambda>_. None, g)"

definition poolSize :: "balancer \<Rightarrow> urltest_group \<Rightarrow> nat" where
  "poolSize b g = (if bPoolSize b > length (gOutbounds g) then length (gOutbounds g) else bPoolSize b)"

definition outboundsByTags :: "(string \<Rightarrow> node option) \<Rightarrow> string list \<Rightarrow> node list" where
  "outboundsByTags lookup tags = List.map_filter lookup (occupied tags)"

definition slotAlive :: "(string \<Rightarrow> node option) \<Rightarrow> (node \<Rightarrow> string) \<Rightarrow> urltest_group \<Rightarrow> string \<Rightarrow> bool" where
  "slotAlive lookup rt g tag =
     (case lookup tag of None \<Rightarrow> False | Some n \<Rightarrow> gHistory g (rt n) \<noteq> None)"

text \<open>\<^verbatim>\<open>setSlots\<close> with the callback the group installs.\<close>

definition set_pool :: "balancer \<Rightarrow> string list \<Rightarrow> urltest_group \<Rightarrow> urltest_group" where
  "set_pool b tags g =
     g\<lparr>gBalancer := Some (setSlots tags b), gEvents := gEvents g @ [ReachabilityInvalidated]\<rparr>"

definition emptySlot :: "string list \<Rightarrow> nat \<Rightarrow> nat option" where
  "emptySlot nxt from' = find (\<lambda>i. nxt ! i = '''') [from'..<length nxt]"

fun take_live ::
  "(string \<Rightarrow> 16 word option) \<Rightarrow> string list \<Rightarrow> string list \<times> nat \<times> (string \<Rightarrow> 16 word option)
   \<Rightarrow> string list \<times> nat \<times> (string \<Rightarrow> 16 word option)" where
  "take_live tested [] (nxt, fill, result) = (nxt, fill, result)"
| "take_live tested (tag # batch) (nxt, fill, result) =
     (case emptySlot nxt fill of
        None \<Rightarrow> (nxt, fill, result)
      | Some slot \<Rightarrow>
          (case tested tag of
             None \<Rightarrow> take_live tested batch (nxt, fill, result)
           | Some delay \<Rightarrow>
               take_live tested batch (nxt[slot := tag], slot + 1, result(tag \<mapsto> delay))))"

text \<open>
  The loop over batches of \<^verbatim>\<open>size\<close> candidates. The caller never passes size 0, with which
  the loop of the source would not advance.
\<close>

function fill_batches ::
  "(string \<Rightarrow> probe_outcome) \<Rightarrow> nat \<Rightarrow> node list \<Rightarrow> string list \<times> nat \<times> (string \<Rightarrow> 16 word option)
   \<Rightarrow> urltest_group \<Rightarrow> string list \<times> (string \<Rightarrow> 16 word option) \<times> urltest_group" where
  "fill_batches probe sz candidates (nxt, fill, result) g =
     (if candidates = [] \<or> emptySlot nxt fill = None \<or> sz = 0 then (nxt, result, g)
      else
        (let batch = take sz candidates;
             (tested, g) = testNodes probe batch g
         in fill_batches probe sz (drop sz candidates)
              (take_live tested (map nTag batch) (nxt, fill, result)) g))"
  by pat_completeness auto
termination by (relation "measure (\<lambda>(_, _, candidates, _, _). length candidates)") auto

definition put_hole :: "string \<Rightarrow> string list \<Rightarrow> string list" where
  "put_hole tag nxt = (case emptySlot nxt 0 of None \<Rightarrow> nxt | Some slot \<Rightarrow> nxt[slot := tag])"

text \<open>Step 3: the dead members that still have their own slot free, then the surplus.\<close>

fun return_dead :: "(string \<Rightarrow> bool) \<Rightarrow> string list \<Rightarrow> string list \<Rightarrow> string list" where
  "return_dead live (t # ts) (s # ss) =
     (if s = '''' \<and> t \<noteq> '''' \<and> \<not> live t then t else s) # return_dead live ts ss"
| "return_dead live current nxt = nxt"

fun drop_surplus ::
  "(string \<Rightarrow> bool) \<Rightarrow> string list \<Rightarrow> string list \<Rightarrow> string list \<Rightarrow> string list" where
  "drop_surplus live [] nxt placed = nxt"
| "drop_surplus live (t # ts) nxt placed =
     (if emptySlot nxt 0 = None then nxt
      else if t \<noteq> '''' \<and> \<not> live t \<and> t \<notin> set placed
      then drop_surplus live ts (put_hole t nxt) (t # placed)
      else drop_surplus live ts nxt placed)"

definition balancePoolFirstLive ::
  "(string \<Rightarrow> node option) \<Rightarrow> (string \<Rightarrow> probe_outcome) \<Rightarrow> nat \<Rightarrow> balancer \<Rightarrow> urltest_group
   \<Rightarrow> (string \<Rightarrow> 16 word option) \<times> urltest_group" where
  "balancePoolFirstLive lookup probe sz b g =
     (let current = poolTags b;
          (result, g) = testNodes probe (outboundsByTags lookup current) g;
          nxt = keep_live (\<lambda>t. result t \<noteq> None) current sz;
          (nxt, result, g) =
            (if emptySlot nxt 0 \<noteq> None
             then fill_batches probe sz
                    (filter (\<lambda>n. nTag n \<notin> set (occupied current)) (gOutbounds g)) (nxt, 0, result) g
             else (nxt, result, g));
          nxt =
            (if emptySlot nxt 0 \<noteq> None
             then (let nxt = return_dead (\<lambda>t. result t \<noteq> None) current nxt
                   in drop_surplus (\<lambda>t. result t \<noteq> None) current nxt (occupied nxt))
             else nxt)
      in (result, set_pool b nxt g))"

definition result_candidate :: "string \<Rightarrow> 16 word option \<Rightarrow> candidate" where
  "result_candidate tag h =
     (case h of
        Some delay \<Rightarrow> \<lparr>cTag = tag, cDelay = delay, cAlive = True\<rparr>
      | None \<Rightarrow> \<lparr>cTag = tag, cDelay = 0, cAlive = False\<rparr>)"

definition balancePoolTolerant ::
  "(string \<Rightarrow> probe_outcome) \<Rightarrow> nat \<Rightarrow> balancer \<Rightarrow> urltest_group
   \<Rightarrow> (string \<Rightarrow> 16 word option) \<times> urltest_group" where
  "balancePoolTolerant probe sz b g =
     (let (result, g) = testNodes probe (gOutbounds g) g;
          results = map (\<lambda>n. (nTag n, result_candidate (nTag n) (result (nTag n)))) (gOutbounds g)
      in (result, set_pool b (planTolerantPool (poolTags b) results sz (bPoolTolerance b)) g))"

definition balancePool ::
  "(string \<Rightarrow> node option) \<Rightarrow> (string \<Rightarrow> probe_outcome) \<Rightarrow> balancer \<Rightarrow> urltest_group
   \<Rightarrow> (string \<Rightarrow> 16 word option) \<times> urltest_group" where
  "balancePool lookup probe b g =
     (let sz = poolSize b g in
      if sz = 0 then (\<lambda>_. None, g)
      else if bPoolTolerance b > 0 then balancePoolTolerant probe sz b g
      else balancePoolFirstLive lookup probe sz b g)"

definition history_results :: "(node \<Rightarrow> string) \<Rightarrow> urltest_group \<Rightarrow> (string \<times> candidate) list" where
  "history_results rt g =
     map (\<lambda>n. (nTag n, result_candidate (nTag n) (gHistory g (rt n)))) (gOutbounds g)"

definition rebuildPool :: "(node \<Rightarrow> string) \<Rightarrow> balancer \<Rightarrow> urltest_group \<Rightarrow> urltest_group" where
  "rebuildPool rt b g =
     (let sz = poolSize b g in
      if sz = 0 then g
      else
        (let results = history_results rt g; current = poolTags b in
         if bPoolTolerance b = 0 then
           (let live = (\<lambda>t. \<exists>(u, c)\<in>set results. u = t \<and> cAlive c);
                fillCandidates =
                  filter (\<lambda>c. cAlive c \<and> cTag c \<notin> set (occupied current)) (map snd results);
                fillOrder = map cTag (sortCandidatesByDelay fillCandidates)
            in set_pool b (planFirstLivePool current live fillOrder sz) g)
         else set_pool b (planTolerantPool current results sz (bPoolTolerance b)) g))"

fun seed_rest :: "nat \<Rightarrow> string list \<Rightarrow> string list \<Rightarrow> string list" where
  "seed_rest sz [] nxt = nxt"
| "seed_rest sz (t # ts) nxt =
     (if length nxt \<ge> sz then nxt
      else if t \<in> set nxt then seed_rest sz ts nxt
      else seed_rest sz ts (nxt @ [t]))"

definition seedPool :: "(node \<Rightarrow> string) \<Rightarrow> urltest_group \<Rightarrow> urltest_group" where
  "seedPool rt g =
     (case gBalancer g of
        None \<Rightarrow> g
      | Some b \<Rightarrow>
          (let sz = poolSize b g in
           if sz = 0 then g
           else
             (let withHistory = sortCandidatesByDelay (filter cAlive (map snd (history_results rt g)));
                  nxt = map cTag (take sz withHistory)
              in set_pool b (seed_rest sz (map nTag (gOutbounds g)) nxt) g)))"

subsection \<open>What a test run returns\<close>

definition answer :: "probe_outcome \<Rightarrow> 16 word option" where
  "answer p = (case p of Answered d \<Rightarrow> Some d | _ \<Rightarrow> None)"

abbreviation answers :: "(string \<Rightarrow> probe_outcome) \<Rightarrow> string \<Rightarrow> bool" where
  "answers probe t \<equiv> answer (probe t) \<noteq> None"

lemma penaltyReset_fields [simp]:
  "gOutbounds (penaltyReset t g) = gOutbounds g" "gBalancer (penaltyReset t g) = gBalancer g"
  "gHistory (penaltyReset t g) = gHistory g" "gSelectedTCP (penaltyReset t g) = gSelectedTCP g"
  "gSelectedUDP (penaltyReset t g) = gSelectedUDP g" "gTolerance (penaltyReset t g) = gTolerance g"
  "gFailover (penaltyReset t g) = gFailover g" "gFailoverSlow (penaltyReset t g) = gFailoverSlow g"
  "gEvents (penaltyReset t g) = gEvents g"
  by (auto simp: penaltyReset_def split: option.split)

lemma probe_jobs:
  "fold (probe_job probe) ts (result, g) = (result', g') \<Longrightarrow> distinct ts \<Longrightarrow>
   result' = (\<lambda>t. if t \<in> set ts \<and> answers probe t then answer (probe t) else result t) \<and>
   gHistory g' = (\<lambda>t. if t \<in> set ts \<and> probe t \<noteq> Cancelled then answer (probe t) else gHistory g t) \<and>
   gOutbounds g' = gOutbounds g \<and> gBalancer g' = gBalancer g \<and> gSelectedTCP g' = gSelectedTCP g \<and>
   gSelectedUDP g' = gSelectedUDP g \<and> gFailover g' = gFailover g \<and> gFailoverSlow g' = gFailoverSlow g \<and>
   gTolerance g' = gTolerance g \<and> gEvents g' = gEvents g"
proof (induction ts arbitrary: result g)
  case (Cons t ts)
  obtain r1 g1 where step: "probe_job probe t (result, g) = (r1, g1)" by (meson surj_pair)
  then have "fold (probe_job probe) ts (r1, g1) = (result', g')" using Cons.prems by simp
  note IH = Cons.IH [OF this]
  have "r1 = (\<lambda>u. if u = t \<and> answers probe t then answer (probe t) else result u) \<and>
    gHistory g1 = (\<lambda>u. if u = t \<and> probe t \<noteq> Cancelled then answer (probe t) else gHistory g u) \<and>
    gOutbounds g1 = gOutbounds g \<and> gBalancer g1 = gBalancer g \<and> gSelectedTCP g1 = gSelectedTCP g \<and>
    gSelectedUDP g1 = gSelectedUDP g \<and> gFailover g1 = gFailover g \<and> gFailoverSlow g1 = gFailoverSlow g \<and>
    gTolerance g1 = gTolerance g \<and> gEvents g1 = gEvents g"
    using step by (cases "probe t") (auto simp: probe_job_def answer_def fun_upd_def)
  with IH Cons.prems(2) show ?case by (auto simp: fun_eq_iff)
qed simp

lemma testNodes_result:
  "testNodes probe nodes g = (result, g') \<Longrightarrow>
   result = (\<lambda>t. if t \<in> nTag ` set nodes then answer (probe t) else None) \<and>
   gHistory g' = (\<lambda>t. if t \<in> nTag ` set nodes \<and> probe t \<noteq> Cancelled then answer (probe t) else gHistory g t) \<and>
   gOutbounds g' = gOutbounds g \<and> gBalancer g' = gBalancer g \<and> gSelectedTCP g' = gSelectedTCP g \<and>
   gSelectedUDP g' = gSelectedUDP g \<and> gFailover g' = gFailover g \<and> gFailoverSlow g' = gFailoverSlow g \<and>
   gTolerance g' = gTolerance g \<and> gEvents g' = gEvents g"
  unfolding testNodes_def by (drule probe_jobs) auto

subsection \<open>Holes\<close>

lemma find_map: "find P (map f xs) = map_option f (find (\<lambda>x. P (f x)) xs)"
  by (induction xs) auto

lemma emptySlot_Cons:
  "emptySlot (s # ss) 0 = (if s = '''' then Some 0 else map_option Suc (emptySlot ss 0))"
proof -
  have "[0..<Suc (length ss)] = 0 # map Suc [0..<length ss]"
    by (metis map_Suc_upt upt_conv_Cons zero_less_Suc)
  then show ?thesis by (simp only: emptySlot_def length_Cons find_map find.simps) simp
qed

lemma emptySlot_None: "emptySlot ss 0 = None \<longleftrightarrow> '''' \<notin> set ss"
  by (auto simp: emptySlot_def find_None_iff in_set_conv_nth)

lemma put_hole_Nil [simp]: "put_hole t [] = []"
  by (simp add: put_hole_def emptySlot_def)

lemma put_hole_Cons [simp]:
  "put_hole t (s # ss) = (if s = '''' then t # ss else s # put_hole t ss)"
  by (auto simp: put_hole_def emptySlot_Cons split: option.split)

lemma put_hole_full: "'''' \<notin> set ss \<Longrightarrow> put_hole t ss = ss"
  by (induction ss) auto

lemma fold_put_Nil [simp]: "fold put_hole ts [] = []"
  by (induction ts) auto

lemma fold_put_Cons: "s \<noteq> '''' \<Longrightarrow> fold put_hole ts (s # ss) = s # fold put_hole ts ss"
  by (induction ts arbitrary: ss) auto

lemma fold_put_full: "'''' \<notin> set ss \<Longrightarrow> fold put_hole ts ss = ss"
  by (induction ts) (auto simp: put_hole_full)

subsection \<open>The batches of a first-live check are a refill\<close>

lemma emptySlot_from:
  assumes "fill \<le> length nxt" and "\<forall>i<fill. nxt ! i \<noteq> ''''"
  shows "emptySlot nxt fill = emptySlot nxt 0"
proof -
  have "[0..<length nxt] = [0..<fill] @ [fill..<length nxt]"
    using assms(1) upt_add_eq_append [of 0 fill "length nxt - fill"] by simp
  moreover have "find (\<lambda>i. nxt ! i = '''') [0..<fill] = None" using assms(2) by (auto simp: find_None_iff)
  moreover have "find P xs = None \<Longrightarrow> find P (xs @ ys) = find P ys" for P :: "nat \<Rightarrow> bool" and xs ys
    by (induction xs) (auto split: if_splits)
  ultimately show ?thesis by (simp add: emptySlot_def)
qed

lemma take_live_spec:
  assumes "take_live tested ts (nxt, fill, result) = (nxt', fill', result')"
    and "fill \<le> length nxt" and "\<forall>i<fill. nxt ! i \<noteq> ''''" and "'''' \<notin> set ts"
  shows "nxt' = fold put_hole (filter (\<lambda>t. tested t \<noteq> None) ts) nxt \<and>
    fill' \<le> length nxt' \<and> (\<forall>i<fill'. nxt' ! i \<noteq> '''') \<and> (\<forall>t. t \<notin> set ts \<longrightarrow> result' t = result t)"
  using assms
proof (induction ts arbitrary: nxt fill result)
  case (Cons t ts)
  show ?case
  proof (cases "emptySlot nxt fill")
    case None
    then have "'''' \<notin> set nxt" using emptySlot_from [OF Cons.prems(2,3)] by (simp add: emptySlot_None [symmetric])
    with None Cons.prems show ?thesis by (simp add: fold_put_full)
  next
    case (Some slot)
    then have slot: "emptySlot nxt 0 = Some slot" using emptySlot_from [OF Cons.prems(2,3)] by simp
    show ?thesis
    proof (cases "tested t")
      case None
      have "nxt' = fold put_hole (filter (\<lambda>t. tested t \<noteq> None) ts) nxt \<and>
        fill' \<le> length nxt' \<and> (\<forall>i<fill'. nxt' ! i \<noteq> '''') \<and> (\<forall>u. u \<notin> set ts \<longrightarrow> result' u = result u)"
        using None Cons.prems \<open>emptySlot nxt fill = Some slot\<close> by (intro Cons.IH) simp_all
      with None show ?thesis by auto
    next
      case (Some d)
      have s: "slot < length nxt" "\<forall>i < slot. nxt ! i \<noteq> ''''"
        using slot by (auto simp: emptySlot_def find_Some_iff)
      have "nxt' = fold put_hole (filter (\<lambda>t. tested t \<noteq> None) ts) (nxt[slot := t]) \<and>
        fill' \<le> length nxt' \<and> (\<forall>i<fill'. nxt' ! i \<noteq> '''') \<and>
        (\<forall>u. u \<notin> set ts \<longrightarrow> result' u = (result(t \<mapsto> d)) u)"
      proof (rule Cons.IH)
        show "take_live tested ts (nxt[slot := t], slot + 1, result(t \<mapsto> d)) = (nxt', fill', result')"
          using Some Cons.prems(1) \<open>emptySlot nxt fill = Some slot\<close> by simp
        show "\<forall>i < slot + 1. nxt[slot := t] ! i \<noteq> ''''"
          using s Cons.prems(4) by (auto simp: nth_list_update less_Suc_eq)
      qed (use s Cons.prems(4) in simp_all)
      moreover have "put_hole t nxt = nxt[slot := t]" using slot by (simp add: put_hole_def)
      ultimately show ?thesis using Some by auto
    qed
  qed
qed simp

declare fill_batches.simps [simp del]

lemma fill_batches_spec:
  assumes "fill_batches probe sz cands (nxt, fill, result) g = (nxt', result', g')"
    and "fill \<le> length nxt" and "\<forall>i<fill. nxt ! i \<noteq> ''''" and "'''' \<notin> nTag ` set cands" and "0 < sz"
  shows "nxt' = fold put_hole (filter (answers probe) (map nTag cands)) nxt \<and>
    (\<forall>t. t \<notin> nTag ` set cands \<longrightarrow> result' t = result t \<and> gHistory g' t = gHistory g t) \<and>
    gOutbounds g' = gOutbounds g \<and> gBalancer g' = gBalancer g"
  using assms
proof (induction "length cands" arbitrary: cands nxt fill result g rule: less_induct)
  case less
  show ?case
  proof (cases "cands = [] \<or> emptySlot nxt fill = None")
    case True
    then have "cands = [] \<or> '''' \<notin> set nxt"
      using emptySlot_from [OF less.prems(2,3)] by (simp add: emptySlot_None [symmetric])
    with True less.prems(1) show ?thesis
      by (auto simp: fold_put_full fill_batches.simps [of probe sz cands])
  next
    case False
    let ?batch = "take sz cands" and ?rest = "drop sz cands"
    obtain tested g1 where t: "testNodes probe ?batch g = (tested, g1)" by (meson surj_pair)
    obtain n1 f1 r1 where l: "take_live tested (map nTag ?batch) (nxt, fill, result) = (n1, f1, r1)"
      by (meson prod_cases3)
    have rest: "fill_batches probe sz ?rest (n1, f1, r1) g1 = (nxt', result', g')"
      using less.prems(1,5) False t l by (simp add: fill_batches.simps [of probe sz cands])
    have sub: "'''' \<notin> set (map nTag ?batch)" "'''' \<notin> nTag ` set ?rest"
      using less.prems(4) in_set_takeD in_set_dropD by fastforce+
    note L = take_live_spec [OF l less.prems(2,3) sub(1)] and T = testNodes_result [OF t]
    have "filter (\<lambda>t. tested t \<noteq> None) (map nTag ?batch) = filter (answers probe) (map nTag ?batch)"
      using T by (intro filter_cong) auto
    with L have n1: "n1 = fold put_hole (filter (answers probe) (map nTag ?batch)) nxt" by simp
    have "length ?rest < length cands" using False less.prems(5) by (cases cands) auto
    moreover have "f1 \<le> length n1" "\<forall>i<f1. n1 ! i \<noteq> []" using L by auto
    ultimately have IH: "nxt' = fold put_hole (filter (answers probe) (map nTag ?rest)) n1 \<and>
      (\<forall>t. t \<notin> nTag ` set ?rest \<longrightarrow> result' t = r1 t \<and> gHistory g' t = gHistory g1 t) \<and>
      gOutbounds g' = gOutbounds g1 \<and> gBalancer g' = gBalancer g1"
      using less.hyps [OF _ rest _ _ sub(2) less.prems(5)] by blast
    have parts: "filter (answers probe) (map nTag cands) =
      filter (answers probe) (map nTag ?batch) @ filter (answers probe) (map nTag ?rest)"
      by (simp flip: filter_append map_append)
    have "result' t = result t \<and> gHistory g' t = gHistory g t" if "t \<notin> nTag ` set cands" for t
    proof -
      have "set cands = set ?batch \<union> set ?rest" by (simp flip: set_append)
      with that have "t \<notin> nTag ` set ?batch" "t \<notin> nTag ` set ?rest" by auto
      with IH L T show ?thesis by simp
    qed
    with IH T n1 parts show ?thesis by simp
  qed
qed

lemma next_fill_split:
  "next_fill live placed ts = Some (t, rest) \<Longrightarrow>
   \<exists>pre. ts = pre @ t # rest \<and> live t \<and> t \<noteq> '''' \<and> (\<forall>u\<in>set pre. u \<noteq> '''' \<and> live u \<longrightarrow> u \<in> set placed)"
proof (induction ts)
  case (Cons u us)
  show ?case
  proof (cases "u \<noteq> '''' \<and> live u \<and> u \<notin> set placed")
    case True
    with Cons.prems show ?thesis by (intro exI [of _ "[]"]) auto
  next
    case False
    with Cons obtain pre where "us = pre @ t # rest" "live t" "t \<noteq> ''''"
      "\<forall>u\<in>set pre. u \<noteq> '''' \<and> live u \<longrightarrow> u \<in> set placed" by auto
    with False show ?thesis by (intro exI [of _ "u # pre"]) auto
  qed
qed simp

lemma refill_holes_nil: "fst (refill_holes live ss [] placed) = ss"
  by (induction ss) (auto simp: case_prod_beta Let_def)

lemma refill_holes_fold:
  assumes "distinct ts" and "'''' \<notin> set ts" and "set ts \<inter> set placed = {}"
  shows "fst (refill_holes live ss ts placed) = fold put_hole (filter live ts) ss"
  using assms
proof (induction live ss ts placed rule: refill_holes.induct)
  case (2 live s ss ts placed)
  show ?case
  proof (cases "s = ''''")
    case False
    with 2 show ?thesis by (simp add: fold_put_Cons case_prod_beta Let_def)
  next
    case True
    show ?thesis
    proof (cases "next_fill live placed ts")
      case None
      have "filter live ts = []"
        using next_fill_None [OF None] "2.prems" by (fastforce simp: filter_empty_conv)
      with None True show ?thesis by (simp add: refill_holes_nil case_prod_beta Let_def)
    next
      case (Some p)
      then obtain t rest where nf: "next_fill live placed ts = Some (t, rest)" by (cases p) auto
      obtain pre where pre: "ts = pre @ t # rest" "live t" "t \<noteq> ''''"
        "\<forall>u\<in>set pre. u \<noteq> '''' \<and> live u \<longrightarrow> u \<in> set placed" using next_fill_split [OF nf] by blast
      have "filter live pre = []"
        using pre(1,4) "2.prems" by (fastforce simp: filter_empty_conv)
      then have "filter live ts = t # filter live rest" using pre by simp
      moreover have "fst (refill_holes live ss rest (t # placed)) = fold put_hole (filter live rest) ss"
        using pre "2.prems" True by (intro "2.IH"(3) [OF _ nf refl]) auto
      ultimately show ?thesis using nf True pre(3) by (simp add: fold_put_Cons case_prod_beta Let_def)
    qed
  qed
qed (simp add: fold_put_full)

lemma return_dead_restore:
  assumes "distinct (occupied current)" and "\<forall>t\<in>set current. t \<noteq> '''' \<and> \<not> live t \<longrightarrow> t \<notin> set placed"
  shows "fst (restore_dead live current nxt placed) = return_dead live current nxt"
  using assms
proof (induction live current nxt placed rule: restore_dead.induct)
  case (1 live t ts s ss placed)
  show ?case
  proof (cases "s = '''' \<and> t \<noteq> '''' \<and> \<not> live t")
    case True
    have "fst (restore_dead live ts ss (t # placed)) = return_dead live ts ss"
      using True "1.prems" by (intro "1.IH"(1)) auto
    with True "1.prems" show ?thesis by (auto simp: case_prod_beta Let_def)
  next
    case False
    have "fst (restore_dead live ts ss placed) = return_dead live ts ss"
      using False "1.prems" by (intro "1.IH"(2)) (auto split: if_splits)
    with False show ?thesis by (auto simp: case_prod_beta Let_def)
  qed
qed auto

lemma drop_surplus_fold:
  "distinct (occupied ts) \<Longrightarrow>
   drop_surplus live ts nxt placed =
     fold put_hole (filter (\<lambda>t. t \<noteq> '''' \<and> \<not> live t \<and> t \<notin> set placed) ts) nxt"
proof (induction ts arbitrary: nxt placed)
  case (Cons t ts)
  show ?case
  proof (cases "emptySlot nxt 0 = None")
    case True
    then show ?thesis by (simp add: emptySlot_None fold_put_full put_hole_full)
  next
    case False
    show ?thesis
    proof (cases "t \<noteq> '''' \<and> \<not> live t \<and> t \<notin> set placed")
      case True
      have "filter (\<lambda>u. u \<noteq> '''' \<and> \<not> live u \<and> u \<notin> set (t # placed)) ts =
        filter (\<lambda>u. u \<noteq> '''' \<and> \<not> live u \<and> u \<notin> set placed) ts"
        using True Cons.prems by (intro filter_cong) auto
      with True False Cons show ?thesis by auto
    next
      case F: False
      with False Cons show ?thesis by (auto split: if_splits)
    qed
  qed
qed simp

lemma find_filter:
  "find P xs = Some x \<Longrightarrow> distinct (filter P xs) \<Longrightarrow> filter P xs = x # filter (\<lambda>y. P y \<and> y \<noteq> x) xs"
proof (induction xs)
  case (Cons y ys)
  show ?case
  proof (cases "P y")
    case True
    with Cons.prems have "filter (\<lambda>z. P z \<and> z \<noteq> x) ys = filter P ys" by (intro filter_cong) auto
    with True Cons.prems show ?thesis by auto
  qed (use Cons in auto)
qed simp

lemma surplus_dead_fold:
  "distinct (occupied current) \<Longrightarrow>
   surplus_dead live current ss placed =
     fold put_hole (filter (\<lambda>t. t \<noteq> '''' \<and> \<not> live t \<and> t \<notin> set placed) current) ss"
proof (induction live current ss placed rule: surplus_dead.induct)
  case (2 live current s ss placed)
  let ?P = "\<lambda>placed t. t \<noteq> '''' \<and> \<not> live t \<and> t \<notin> set placed"
  show ?case
  proof (cases "s = ''''")
    case False
    with 2 show ?thesis by (simp add: fold_put_Cons)
  next
    case True
    show ?thesis
    proof (cases "find (?P placed) current")
      case None
      then have "filter (?P placed) current = []" by (auto simp: find_None_iff filter_empty_conv)
      with None True 2 show ?thesis by simp
    next
      case (Some t)
      have "distinct (filter (?P placed) current)"
      proof -
        have "filter (?P placed) current = filter (?P placed) (occupied current)"
          unfolding filter_filter by (rule filter_cong) auto
        then show ?thesis using distinct_filter [OF "2.prems", of "?P placed"] by simp
      qed
      moreover have "filter (\<lambda>u. ?P placed u \<and> u \<noteq> t) current = filter (?P (t # placed)) current"
        by (rule filter_cong) auto
      ultimately have "filter (?P placed) current = t # filter (?P (t # placed)) current"
        using find_filter [OF Some] by simp
      moreover have "t \<noteq> ''''" using Some by (auto simp: find_Some_iff)
      moreover have "surplus_dead live current (s # ss) placed = t # surplus_dead live current ss (t # placed)"
        using True Some by simp
      moreover have "surplus_dead live current ss (t # placed) = fold put_hole (filter (?P (t # placed)) current) ss"
        using True Some "2.prems" by (intro "2.IH"(3)) simp_all
      ultimately show ?thesis using True by (simp add: fold_put_Cons del: surplus_dead.simps set_simps)
    qed
  qed
qed simp

subsection \<open>A first-live check computes the plan\<close>

text \<open>
  What \<^verbatim>\<open>NewURLTest\<close> and \<^verbatim>\<open>Start\<close> establish: the members have different, non-empty tags and
  resolve to themselves.
\<close>

definition group_ok :: "(string \<Rightarrow> node option) \<Rightarrow> urltest_group \<Rightarrow> bool" where
  "group_ok lookup g \<longleftrightarrow>
     distinct (map nTag (gOutbounds g)) \<and> '''' \<notin> nTag ` set (gOutbounds g) \<and>
     (\<forall>n\<in>set (gOutbounds g). lookup (nTag n) = Some n)"

definition pool_ok :: "balancer \<Rightarrow> urltest_group \<Rightarrow> bool" where
  "pool_ok b g \<longleftrightarrow>
     distinct (occupied (bSlots b)) \<and> set (occupied (bSlots b)) \<subseteq> nTag ` set (gOutbounds g)"

lemma outboundsByTags_tags:
  assumes "group_ok lookup g" and "pool_ok b g"
  shows "nTag ` set (outboundsByTags lookup (bSlots b)) = set (occupied (bSlots b))"
proof -
  have "\<exists>n. lookup t = Some n \<and> nTag n = t" if "t \<in> set (occupied (bSlots b))" for t
    using that assms by (auto simp: group_ok_def pool_ok_def)
  then show ?thesis
    by (fastforce simp: outboundsByTags_def List.map_filter_def image_iff)
qed

lemma keep_live_cong:
  "(\<And>t. t \<in> set current \<Longrightarrow> t \<noteq> '''' \<Longrightarrow> live t = live' t) \<Longrightarrow>
   keep_live live current sz = keep_live live' current sz"
  by (auto simp: keep_live_def)

lemma return_dead_cong:
  "(\<And>t. t \<in> set current \<Longrightarrow> t \<noteq> '''' \<Longrightarrow> live t = live' t) \<Longrightarrow>
   return_dead live current nxt = return_dead live' current nxt"
  by (induction live current nxt rule: return_dead.induct) auto

lemma return_dead_full: "'''' \<notin> set nxt \<Longrightarrow> return_dead live current nxt = nxt"
  by (induction live current nxt rule: return_dead.induct) auto

definition fill_order :: "balancer \<Rightarrow> urltest_group \<Rightarrow> string list" where
  "fill_order b g = filter (\<lambda>t. t \<notin> set (occupied (bSlots b))) (map nTag (gOutbounds g))"

text \<open>
  The plan in the form of the health check: live members, then the live nodes of
  \<open>fillOrder\<close> one after the other into the first hole, then the dead members.
\<close>

lemma planFirstLivePool_fold:
  assumes cur: "distinct (occupied current)"
    and fo: "distinct fillOrder" "'''' \<notin> set fillOrder" "set fillOrder \<inter> set current = {}"
    and r: "r = fold put_hole (filter live fillOrder) (keep_live live current sz)"
    and d: "d = return_dead live current r"
  shows "planFirstLivePool current live fillOrder sz =
    fold put_hole (filter (\<lambda>t. t \<noteq> '''' \<and> \<not> live t \<and> t \<notin> set (occupied d)) current) d"
proof -
  let ?k = "keep_live live current sz"
  obtain r' pr where R: "refill_holes live ?k fillOrder (occupied ?k) = (r', pr)" by (meson surj_pair)
  obtain d' pd where D: "restore_dead live current r' pr = (d', pd)" by (meson surj_pair)
  have "set fillOrder \<inter> set (occupied ?k) = {}"
    using fo(3) by (auto simp: occupied_keep_live)
  from refill_holes_fold [OF fo(1,2) this, of live ?k] R r have r': "r' = r" by simp
  have "fst (restore_dead live current r' pr) = return_dead live current r'"
    using first_live_refill [OF cur R] by (intro return_dead_restore [OF cur]) auto
  with D d r' have d': "d' = d" by simp
  have "set pd = set (occupied d)" using first_live_restore [OF cur R D] d' by simp
  then show ?thesis
    using surplus_dead_fold [OF cur, of live d pd] R D d'
    by (simp add: planFirstLivePool_def)
qed

lemma first_live_check_slots:
  assumes ok: "group_ok lookup g" "pool_ok b g" and sz: "0 < sz"
  shows "gBalancer (snd (balancePoolFirstLive lookup probe sz b g)) =
    Some (setSlots (planFirstLivePool (bSlots b) (answers probe) (fill_order b g) sz) b)"
proof -
  let ?cur = "bSlots b"
  define k where "k = keep_live (answers probe) ?cur sz"
  define r where "r = fold put_hole (filter (answers probe) (fill_order b g)) k"
  define d where "d = return_dead (answers probe) ?cur r"
  obtain res g1 where t: "testNodes probe (outboundsByTags lookup ?cur) g = (res, g1)" by (meson surj_pair)
  note T = testNodes_result [OF t] and tags = outboundsByTags_tags [OF ok]
  let ?cands = "filter (\<lambda>n. nTag n \<notin> set (occupied ?cur)) (gOutbounds g)"
  have cands: "map nTag ?cands = fill_order b g" by (simp add: fill_order_def filter_map o_def)
  have live: "(res t \<noteq> None) = answers probe t" if "t \<in> set ?cur" "t \<noteq> ''''" for t
    using that T tags by auto
  have k: "keep_live (\<lambda>t. res t \<noteq> None) ?cur sz = k"
    unfolding k_def using live by (rule keep_live_cong)
  define F where "F = (if emptySlot k 0 \<noteq> None then fill_batches probe sz ?cands (k, 0, res) g1 else (k, res, g1))"
  obtain n2 res2 g2 where F: "F = (n2, res2, g2)" by (meson prod_cases3)
  have n2: "n2 = r \<and> (\<forall>t. t \<notin> set (fill_order b g) \<longrightarrow> res2 t = res t)"
  proof (cases "emptySlot k 0 = None")
    case True
    with F show ?thesis by (simp add: F_def r_def emptySlot_None fold_put_full)
  next
    case False
    have "'''' \<notin> nTag ` set ?cands" using ok(1) by (auto simp: group_ok_def)
    with False F fill_batches_spec [of probe sz ?cands k 0 res g1 n2 res2 g2] sz cands
    show ?thesis by (auto simp: F_def r_def simp flip: cands)
  qed
  have live2: "(res2 t \<noteq> None) = answers probe t" if "t \<in> set ?cur" "t \<noteq> ''''" for t
    using that live n2 by (auto simp: fill_order_def)
  have D: "return_dead (\<lambda>t. res2 t \<noteq> None) ?cur r = d"
    unfolding d_def using live2 by (rule return_dead_cong)
  have S: "drop_surplus (\<lambda>t. res2 t \<noteq> None) ?cur d (occupied d) =
    fold put_hole (filter (\<lambda>t. t \<noteq> '''' \<and> \<not> answers probe t \<and> t \<notin> set (occupied d)) ?cur) d"
  proof -
    have "filter (\<lambda>t. t \<noteq> '''' \<and> \<not> res2 t \<noteq> None \<and> t \<notin> set (occupied d)) ?cur =
      filter (\<lambda>t. t \<noteq> '''' \<and> \<not> answers probe t \<and> t \<notin> set (occupied d)) ?cur"
      by (rule filter_cong) (use live2 in blast)+
    with drop_surplus_fold [of ?cur "\<lambda>t. res2 t \<noteq> None" d "occupied d"] ok(2)
    show ?thesis by (simp add: pool_ok_def)
  qed
  let ?p = "planFirstLivePool ?cur (answers probe) (fill_order b g) sz"
  have p: "?p = fold put_hole (filter (\<lambda>t. t \<noteq> '''' \<and> \<not> answers probe t \<and> t \<notin> set (occupied d)) ?cur) d"
    using ok by (intro planFirstLivePool_fold [OF _ _ _ _ r_def [unfolded k_def] d_def])
      (auto simp: pool_ok_def group_ok_def fill_order_def)
  have full: "?p = r" if "emptySlot r 0 = None"
    using that p by (simp add: emptySlot_None d_def return_dead_full fold_put_full)
  have go: "gOutbounds g1 = gOutbounds g" using T by simp
  have fill: "(if emptySlot k 0 \<noteq> None then fill_batches probe sz ?cands (k, 0, res) g1 else (k, res, g1)) =
    (r, res2, g2)" using F n2 by (simp add: F_def)
  have "snd (balancePoolFirstLive lookup probe sz b g) = set_pool b
    (if emptySlot r 0 \<noteq> None
     then drop_surplus (\<lambda>t. res2 t \<noteq> None) ?cur d (occupied d) else r) g2"
    unfolding balancePoolFirstLive_def poolTags_def Let_def t prod.case k go fill D snd_conv ..
  then show ?thesis using S p full by (simp add: set_pool_def)
qed

subsection \<open>The planners as an interface\<close>

definition full_pool :: "string set \<Rightarrow> nat \<Rightarrow> string list \<Rightarrow> bool" where
  "full_pool nodes sz slots \<longleftrightarrow>
     length slots = sz \<and> distinct slots \<and> set slots \<subseteq> nodes \<and> '''' \<notin> set slots"

text \<open>
  What the health checks rely on: in an environment \<open>e\<close> (the test results) a planner turns
  a full pool into a full one and moves no node to another slot.
\<close>

locale pool_planner =
  fixes plan :: "'e \<Rightarrow> string list \<Rightarrow> string list"
    and env :: "'e \<Rightarrow> bool"
    and nodes :: "string set"
    and sz :: nat
  assumes plan_full: "env e \<Longrightarrow> full_pool nodes sz slots \<Longrightarrow> full_pool nodes sz (plan e slots)"
    and plan_in_slot: "env e \<Longrightarrow> full_pool nodes sz slots \<Longrightarrow> i < sz \<Longrightarrow> j < sz \<Longrightarrow>
      plan e slots ! i = slots ! j \<Longrightarrow> i = j"
begin

lemma run_full:
  "\<forall>e\<in>set es. env e \<Longrightarrow> full_pool nodes sz slots \<Longrightarrow> full_pool nodes sz (fold plan es slots)"
  by (induction es arbitrary: slots) (auto intro: plan_full)

lemma plan_keeps_slot:
  assumes "env e" and "full_pool nodes sz slots" and "i < sz" and "slots ! i \<in> set (plan e slots)"
  shows "plan e slots ! i = slots ! i"
proof -
  have "length (plan e slots) = sz" using plan_full [OF assms(1,2)] by (simp add: full_pool_def)
  then obtain j where j: "j < sz" "plan e slots ! j = slots ! i"
    using assms(4) by (auto simp: in_set_conv_nth)
  with plan_in_slot [OF assms(1,2) j(1) assms(3)] show ?thesis by simp
qed

text \<open>A node that is never dropped during a run of checks keeps its slot.\<close>

lemma run_keeps_slot:
  assumes "\<forall>e\<in>set es. env e" and "full_pool nodes sz slots" and "i < sz"
    and "\<forall>n\<le>length es. slots ! i \<in> set (fold plan (take n es) slots)"
  shows "fold plan es slots ! i = slots ! i"
  using assms
proof (induction es arbitrary: slots)
  case (Cons e es)
  have "slots ! i \<in> set (plan e slots)"
    using Cons.prems(4) [rule_format, of 1] by simp
  then have eq: "plan e slots ! i = slots ! i" using Cons.prems by (intro plan_keeps_slot) auto
  have "fold plan es (plan e slots) ! i = plan e slots ! i"
  proof (rule Cons.IH)
    show "full_pool nodes sz (plan e slots)" using Cons.prems by (intro plan_full) auto
    show "\<forall>n\<le>length es. plan e slots ! i \<in> set (fold plan (take n es) (plan e slots))"
    proof (intro allI impI)
      fix n assume "n \<le> length es"
      then show "plan e slots ! i \<in> set (fold plan (take n es) (plan e slots))"
        using Cons.prems(4) [rule_format, of "Suc n"] eq by simp
    qed
  qed (use Cons.prems in auto)
  with eq show ?case by simp
qed simp

end

lemma full_pool_nth: "full_pool nodes sz slots \<Longrightarrow> i < sz \<Longrightarrow> slots ! i \<noteq> '''' \<and> slots ! i \<in> nodes"
  unfolding full_pool_def by (metis nth_mem subsetD)

lemma full_poolI:
  assumes "full_pool nodes sz slots" and "length nxt = sz" and "distinct (occupied nxt)"
    and "\<forall>i < sz. nxt ! i = slots ! i \<or> (nxt ! i \<in> nodes \<and> nxt ! i \<noteq> '''' \<and> nxt ! i \<notin> set slots)"
  shows "full_pool nodes sz nxt \<and> (\<forall>i < sz. \<forall>j < sz. nxt ! i = slots ! j \<longrightarrow> i = j)"
proof -
  have ne: "\<forall>t\<in>set nxt. t \<noteq> '''' \<and> t \<in> nodes"
  proof
    fix t assume "t \<in> set nxt"
    then obtain i where i: "i < sz" "nxt ! i = t" using assms(2) by (auto simp: in_set_conv_nth)
    with full_pool_nth [OF assms(1) i(1)] assms(4) show "t \<noteq> '''' \<and> t \<in> nodes" by metis
  qed
  then have "occupied nxt = nxt" by (simp add: filter_id_conv)
  with ne assms(2,3) have "full_pool nodes sz nxt" by (auto simp: full_pool_def)
  moreover have "i = j" if "i < sz" "j < sz" "nxt ! i = slots ! j" for i j
  proof -
    have "slots ! j \<in> set slots" using that assms(1) by (auto simp: full_pool_def)
    with that assms(4) have "slots ! i = slots ! j" by metis
    with that assms(1) show ?thesis by (auto simp: full_pool_def nth_eq_iff_index_eq)
  qed
  ultimately show ?thesis by blast
qed

lemma full_pool_occupied: "full_pool nodes sz slots \<Longrightarrow> occupied slots = slots"
  by (auto simp: full_pool_def filter_id_conv)

lemma first_live_full:
  assumes "full_pool nodes sz slots" and "set fillOrder \<subseteq> nodes" and "'''' \<notin> set fillOrder"
  shows "full_pool nodes sz (planFirstLivePool slots live fillOrder sz) \<and>
    (\<forall>i < sz. \<forall>j < sz. planFirstLivePool slots live fillOrder sz ! i = slots ! j \<longrightarrow> i = j)"
proof -
  have "distinct (occupied slots)" using assms(1) full_pool_occupied by (auto simp: full_pool_def)
  note C = plan_first_live_contract [OF this, of live fillOrder sz]
  show ?thesis
  proof (rule full_poolI [OF assms(1)])
    show "\<forall>i < sz. planFirstLivePool slots live fillOrder sz ! i = slots ! i \<or>
      (planFirstLivePool slots live fillOrder sz ! i \<in> nodes \<and>
       planFirstLivePool slots live fillOrder sz ! i \<noteq> '''' \<and>
       planFirstLivePool slots live fillOrder sz ! i \<notin> set slots)"
    proof (intro allI impI)
      fix i assume i: "i < sz"
      then have "i < length slots" "slots ! i \<noteq> ''''"
        using assms(1) full_pool_nth [OF assms(1) i] by (auto simp: full_pool_def)
      with C assms(2,3) show "planFirstLivePool slots live fillOrder sz ! i = slots ! i \<or>
        (planFirstLivePool slots live fillOrder sz ! i \<in> nodes \<and>
         planFirstLivePool slots live fillOrder sz ! i \<noteq> '''' \<and>
         planFirstLivePool slots live fillOrder sz ! i \<notin> set slots)"
        unfolding first_live_contract_def by (metis subsetD)
    qed
  qed (use C assms(1) in \<open>auto simp: first_live_contract_def full_pool_def\<close>)
qed

lemma tolerant_full:
  assumes "full_pool nodes sz slots" and "results_ok results" and "fst ` set results \<subseteq> nodes"
  shows "full_pool nodes sz (planTolerantPool slots results sz tolerance) \<and>
    (\<forall>i < sz. \<forall>j < sz. planTolerantPool slots results sz tolerance ! i = slots ! j \<longrightarrow> i = j)"
proof -
  let ?p = "planTolerantPool slots results sz tolerance"
  have "distinct (occupied slots)" using assms(1) full_pool_occupied by (auto simp: full_pool_def)
  note C = plan_tolerant_contract [OF this assms(2), of sz tolerance]
  have len: "length ?p = sz" using C assms(1) by (simp add: tolerant_contract_def full_pool_def)
  show ?thesis
  proof (rule full_poolI [OF assms(1) len])
    show "\<forall>i < sz. ?p ! i = slots ! i \<or> (?p ! i \<in> nodes \<and> ?p ! i \<noteq> '''' \<and> ?p ! i \<notin> set slots)"
    proof (intro allI impI)
      fix i assume i: "i < sz"
      then have "?p ! i = slots ! i \<or> (\<exists>c. (?p ! i, c) \<in> set results \<and> ?p ! i \<notin> set slots)"
        using C assms(1) len unfolding tolerant_contract_def full_pool_def Let_def by auto
      then show "?p ! i = slots ! i \<or> (?p ! i \<in> nodes \<and> ?p ! i \<noteq> '''' \<and> ?p ! i \<notin> set slots)"
      proof
        assume "\<exists>c. (?p ! i, c) \<in> set results \<and> ?p ! i \<notin> set slots"
        then obtain c where c: "(?p ! i, c) \<in> set results" "?p ! i \<notin> set slots" by blast
        then have "?p ! i \<in> nodes" using assms(3) by (metis fst_conv image_subset_iff)
        moreover have "?p ! i \<noteq> ''''" using c(1) assms(2) unfolding results_ok_def by blast
        ultimately show ?thesis using c(2) by blast
      qed simp
    qed
  qed (use C in \<open>simp add: tolerant_contract_def\<close>)
qed

interpretation first_live: pool_planner
  "\<lambda>(live, fillOrder) slots. planFirstLivePool slots live fillOrder sz"
  "\<lambda>(live, fillOrder). set fillOrder \<subseteq> nodes \<and> '''' \<notin> set fillOrder" nodes sz
  for nodes sz
  by unfold_locales (use first_live_full in \<open>auto split: prod.splits\<close>)

interpretation tolerant: pool_planner
  "\<lambda>(results, tolerance) slots. planTolerantPool slots results sz tolerance"
  "\<lambda>(results, tolerance). results_ok results \<and> fst ` set results \<subseteq> nodes" nodes sz
  for nodes sz
  by unfold_locales (use tolerant_full in \<open>auto split: prod.splits\<close>)

subsection \<open>Runs of health checks\<close>

abbreviation group_tags :: "urltest_group \<Rightarrow> string set" where
  "group_tags g \<equiv> nTag ` set (gOutbounds g)"

lemma results_ok_candidates:
  assumes "distinct (map nTag ns)" and "'''' \<notin> nTag ` set ns"
  shows "results_ok (map (\<lambda>n. (nTag n, result_candidate (nTag n) (h n))) ns)"
  using assms by (force simp: results_ok_def result_candidate_def o_def split: option.split)

text \<open>
  The steps of the pool: a periodic check with any outcome of the probes, a rebuild after a
  manual test, a change of the history by other tests.
\<close>

inductive pool_step ::
  "(string \<Rightarrow> node option) \<Rightarrow> (node \<Rightarrow> string) \<Rightarrow> urltest_group \<Rightarrow> urltest_group \<Rightarrow> bool"
  for lookup rt where
  periodic: "gBalancer g = Some b \<Longrightarrow> pool_step lookup rt g (snd (balancePool lookup probe b g))"
| manual: "gBalancer g = Some b \<Longrightarrow> pool_step lookup rt g (rebuildPool rt b g)"
| tested: "pool_step lookup rt g (g\<lparr>gHistory := h\<rparr>)"

definition pool_inv :: "node list \<Rightarrow> nat \<Rightarrow> urltest_group \<Rightarrow> bool" where
  "pool_inv ns sz g \<longleftrightarrow>
     gOutbounds g = ns \<and>
     (\<exists>b. gBalancer g = Some b \<and> poolSize b g = sz \<and> full_pool (nTag ` set ns) sz (bSlots b))"

definition pool_slots :: "urltest_group \<Rightarrow> string list" where
  "pool_slots g = (case gBalancer g of None \<Rightarrow> [] | Some b \<Rightarrow> bSlots b)"

lemma set_pool_simps [simp]:
  "gOutbounds (set_pool b tags g) = gOutbounds g"
  "gBalancer (set_pool b tags g) = Some (setSlots tags b)"
  by (simp_all add: set_pool_def)

lemma setSlots_simps [simp]:
  "bSlots (setSlots tags b) = tags" "bPoolSize (setSlots tags b) = bPoolSize b"
  "bPoolTolerance (setSlots tags b) = bPoolTolerance b" "bStickyHash (setSlots tags b) = bStickyHash b"
  by (simp_all add: setSlots_def)

lemma poolSize_set_pool [simp]: "poolSize (setSlots tags b) (set_pool b' tags' g) = poolSize b g"
  by (simp add: poolSize_def)

lemma balancePoolFirstLive_outbounds:
  assumes "'''' \<notin> group_tags g" and "0 < sz"
  shows "gOutbounds (snd (balancePoolFirstLive lookup probe sz b g)) = gOutbounds g"
proof -
  obtain res g1 where t: "testNodes probe (outboundsByTags lookup (bSlots b)) g = (res, g1)"
    by (meson surj_pair)
  then have g1: "gOutbounds g1 = gOutbounds g" using testNodes_result [OF t] by simp
  let ?cands = "filter (\<lambda>n. nTag n \<notin> set (occupied (bSlots b))) (gOutbounds g)"
  have "gOutbounds (snd (snd (fill_batches probe sz ?cands (nxt, 0, res) g1))) = gOutbounds g" for nxt
  proof -
    obtain n2 r2 g2 where "fill_batches probe sz ?cands (nxt, 0, res) g1 = (n2, r2, g2)"
      by (meson prod_cases3)
    from fill_batches_spec [OF this] assms g1 show ?thesis using \<open>_ = (n2, r2, g2)\<close> by auto
  qed
  with t g1 show ?thesis
    by (simp add: balancePoolFirstLive_def poolTags_def Let_def case_prod_beta)
qed

text \<open>Every step is a step of one of the planners, or leaves the slots alone.\<close>

lemma pool_inv_set:
  assumes "pool_inv ns sz g" and "gBalancer g = Some b" and "gOutbounds g' = ns"
    and "gBalancer g' = Some (setSlots p b)"
    and "full_pool (nTag ` set ns) sz p \<and> (\<forall>i < sz. \<forall>j < sz. p ! i = bSlots b ! j \<longrightarrow> i = j)"
  shows "pool_inv ns sz g' \<and> (\<forall>i < sz. \<forall>j < sz. pool_slots g' ! i = pool_slots g ! j \<longrightarrow> i = j)"
  using assms by (auto simp: pool_inv_def pool_slots_def poolSize_def)

lemma pool_step_none:
  assumes "pool_inv ns sz g" and "gOutbounds g' = ns" and "gBalancer g' = gBalancer g"
  shows "pool_inv ns sz g' \<and> (\<forall>i < sz. \<forall>j < sz. pool_slots g' ! i = pool_slots g ! j \<longrightarrow> i = j)"
  using assms by (auto simp: pool_inv_def pool_slots_def poolSize_def full_pool_def nth_eq_iff_index_eq)

lemma fill_order_ok:
  "group_ok lookup g \<Longrightarrow> set (fill_order b g) \<subseteq> group_tags g \<and> '''' \<notin> set (fill_order b g)"
  by (auto simp: fill_order_def group_ok_def)

lemma balancePool_step:
  assumes ok: "group_ok lookup g" and inv: "pool_inv (gOutbounds g) sz g" and bg: "gBalancer g = Some b"
    and g': "g' = snd (balancePool lookup probe b g)"
  shows "pool_inv (gOutbounds g) sz g' \<and>
    (\<forall>i < sz. \<forall>j < sz. pool_slots g' ! i = pool_slots g ! j \<longrightarrow> i = j)"
proof -
  have b: "poolSize b g = sz" "full_pool (group_tags g) sz (bSlots b)"
    using inv bg by (auto simp: pool_inv_def)
  then have pool: "pool_ok b g" using full_pool_occupied [OF b(2)] by (auto simp: pool_ok_def full_pool_def)
  consider "sz = 0" | "0 < sz" "bPoolTolerance b > 0" | "0 < sz" "\<not> bPoolTolerance b > 0" by blast
  then show ?thesis
  proof cases
    case 1
    with g' b have "g' = g" by (simp add: balancePool_def)
    with inv show ?thesis by (simp add: pool_step_none)
  next
    case 2
    obtain res g1 where t: "testNodes probe (gOutbounds g) g = (res, g1)" by (meson surj_pair)
    then have go: "gOutbounds g1 = gOutbounds g" using testNodes_result by blast
    define results where "results = map (\<lambda>n. (nTag n, result_candidate (nTag n) (res (nTag n)))) (gOutbounds g)"
    have "results_ok results" "fst ` set results \<subseteq> group_tags g"
      using ok results_ok_candidates [of "gOutbounds g"] by (auto simp: results_def group_ok_def)
    note P = tolerant_full [OF b(2) this, of "bPoolTolerance b"]
    have "g' = set_pool b (planTolerantPool (bSlots b) results sz (bPoolTolerance b)) g1"
      using 2 g' b t go
      by (simp add: balancePool_def balancePoolTolerant_def poolTags_def results_def Let_def)
    with go P show ?thesis by (intro pool_inv_set [OF inv bg]) simp_all
  next
    case 3
    with g' b have "g' = snd (balancePoolFirstLive lookup probe sz b g)" by (simp add: balancePool_def)
    moreover have "'''' \<notin> group_tags g" using ok by (simp add: group_ok_def)
    ultimately show ?thesis
      using first_live_check_slots [OF ok pool 3(1), of probe] 3(1)
        first_live_full [OF b(2), of "fill_order b g" "answers probe"] fill_order_ok [OF ok, of b]
      by (intro pool_inv_set [OF inv bg]) (auto simp: balancePoolFirstLive_outbounds)
  qed
qed

lemma rebuildPool_step:
  assumes ok: "group_ok lookup g" and inv: "pool_inv (gOutbounds g) sz g" and bg: "gBalancer g = Some b"
    and g': "g' = rebuildPool rt b g"
  shows "pool_inv (gOutbounds g) sz g' \<and>
    (\<forall>i < sz. \<forall>j < sz. pool_slots g' ! i = pool_slots g ! j \<longrightarrow> i = j)"
proof -
  let ?results = "history_results rt g"
  have b: "poolSize b g = sz" "full_pool (group_tags g) sz (bSlots b)"
    using inv bg by (auto simp: pool_inv_def)
  have r: "results_ok ?results" "fst ` set ?results \<subseteq> group_tags g" "cTag ` snd ` set ?results \<subseteq> group_tags g"
    using ok results_ok_candidates [of "gOutbounds g" "\<lambda>n. gHistory g (rt n)"]
    by (auto simp: group_ok_def history_results_def result_candidate_def split: option.split)
  let ?live = "\<lambda>t. \<exists>(u, c)\<in>set ?results. u = t \<and> cAlive c"
  let ?fill = "map cTag (sortCandidatesByDelay
    (filter (\<lambda>c. cAlive c \<and> cTag c \<notin> set (occupied (bSlots b))) (map snd ?results)))"
  have fill: "set ?fill \<subseteq> group_tags g" "'''' \<notin> set ?fill"
    using r(3) ok by (auto simp: group_ok_def)
  show ?thesis
  proof (cases "sz = 0")
    case True
    with g' b have "g' = g" by (simp add: rebuildPool_def)
    with inv show ?thesis by (simp add: pool_step_none)
  next
    case False
    show ?thesis
    proof (cases "bPoolTolerance b = 0")
      case True
      from first_live_full [OF b(2) fill, of ?live] True False g' b show ?thesis
        by (intro pool_inv_set [OF inv bg]) (auto simp: rebuildPool_def poolTags_def Let_def)
    next
      case tol: False
      from tolerant_full [OF b(2) r(1,2), of "bPoolTolerance b"] tol False g' b show ?thesis
        by (intro pool_inv_set [OF inv bg]) (auto simp: rebuildPool_def poolTags_def Let_def)
    qed
  qed
qed

lemma pool_step_inv:
  assumes "pool_step lookup rt g g'" and "group_ok lookup g" and "pool_inv (gOutbounds g) sz g"
  shows "pool_inv (gOutbounds g) sz g' \<and>
    (\<forall>i < sz. \<forall>j < sz. pool_slots g' ! i = pool_slots g ! j \<longrightarrow> i = j)"
  using assms(1)
proof cases
  case (periodic b probe)
  with assms(2,3) show ?thesis by (intro balancePool_step)
next
  case (manual b)
  with assms(2,3) show ?thesis by (intro rebuildPool_step)
next
  case (tested h)
  with assms(3) show ?thesis by (intro pool_step_none) simp_all
qed

lemma seed_rest_spec:
  assumes "distinct ts" and "distinct nxt" and "length nxt \<le> sz"
  shows "distinct (seed_rest sz ts nxt) \<and> set (seed_rest sz ts nxt) \<subseteq> set nxt \<union> set ts \<and>
    length (seed_rest sz ts nxt) = min sz (length nxt + length (filter (\<lambda>t. t \<notin> set nxt) ts))"
  using assms
proof (induction sz ts nxt rule: seed_rest.induct)
  case (2 sz t ts nxt)
  show ?case
  proof (cases "length nxt \<ge> sz \<or> t \<in> set nxt")
    case True
    with 2 show ?thesis by auto
  next
    case False
    have "filter (\<lambda>u. u \<notin> set (nxt @ [t])) ts = filter (\<lambda>u. u \<notin> set nxt) ts"
      using "2.prems"(1) by (intro filter_cong) auto
    with False 2 show ?thesis by auto
  qed
qed simp

lemma seed_rest_full:
  assumes "distinct ts" and "distinct nxt" and "set nxt \<subseteq> set ts" and "length nxt \<le> sz" and "sz \<le> length ts"
    and "'''' \<notin> set ts"
  shows "full_pool (set ts) sz (seed_rest sz ts nxt)"
proof -
  have "length (filter (\<lambda>t. t \<in> set nxt) ts) = card (set nxt \<inter> set ts)"
    using distinct_card [OF distinct_filter [OF assms(1), of "\<lambda>t. t \<in> set nxt"]]
    by (simp add: Int_def conj_commute)
  also have "\<dots> = length nxt" using assms(3) distinct_card [OF assms(2)] by (simp only: Int_absorb2)
  finally have "length nxt + length (filter (\<lambda>t. t \<notin> set nxt) ts) = length ts"
    using sum_length_filter_compl [of "\<lambda>t. t \<in> set nxt" ts] by simp
  with seed_rest_spec [OF assms(1,2,4)] assms(3,5,6) show ?thesis by (auto simp: full_pool_def)
qed

lemma seedPool_full:
  assumes ok: "group_ok lookup g" and bg: "gBalancer g = Some b" and sz: "poolSize b g = sz" "0 < sz"
  shows "pool_inv (gOutbounds g) sz (seedPool rt g)"
proof -
  let ?ts = "map nTag (gOutbounds g)"
  let ?cs = "sortCandidatesByDelay (filter cAlive (map snd (history_results rt g)))"
  let ?nxt = "map cTag (take sz ?cs)"
  let ?all = "map snd (history_results rt g)"
  have ts: "map cTag ?all = ?ts"
    by (simp add: history_results_def result_candidate_def split: option.split)
  have dt: "distinct ?ts" using ok by (simp add: group_ok_def)
  have "distinct (map cTag (filter cAlive ?all))"
    using dt by (intro distinct_map_filter) (simp only: ts)
  moreover have "mset (map cTag ?cs) = mset (map cTag (filter cAlive ?all))" by simp
  ultimately have "distinct (map cTag ?cs)" using mset_eq_imp_distinct_iff by blast
  moreover have "set (map cTag ?cs) \<subseteq> set ?ts" using ts [symmetric] by auto
  ultimately have nxt: "distinct ?nxt" "set ?nxt \<subseteq> set ?ts" "length ?nxt \<le> sz"
    using set_take_subset [of sz "map cTag ?cs"] by (auto simp: take_map [symmetric] simp del: set_map)
  have "sz \<le> length ?ts" using sz(1) by (auto simp: poolSize_def split: if_splits)
  from seed_rest_full [OF dt nxt this] ok have "full_pool (group_tags g) sz (seed_rest sz ?ts ?nxt)"
    by (simp add: group_ok_def)
  then show ?thesis
    using bg sz by (simp add: seedPool_def pool_inv_def Let_def)
qed

lemma pool_run_inv:
  assumes "(pool_step lookup rt)\<^sup>*\<^sup>* g g'" and "group_ok lookup g" and "pool_inv (gOutbounds g) sz g"
  shows "pool_inv (gOutbounds g) sz g' \<and> group_ok lookup g'"
  using assms
proof (induction rule: rtranclp_induct)
  case (step y z)
  then have y: "gOutbounds y = gOutbounds g" "pool_inv (gOutbounds y) sz y" "group_ok lookup y"
    by (auto simp: pool_inv_def)
  from pool_step_inv [OF step.hyps(2) y(3,2)] y show ?case by (auto simp: pool_inv_def group_ok_def)
qed simp

text \<open>
  C8: The pool of a round robin group is stable. From the moment it is seeded, through any
  sequence of periodic checks, manual tests and history changes, the pool has its configured
  number of slots (at most one per member), no hole, no node twice and only members of the group; and no
  single step moves a node to another slot, so that the keys bound to a slot are lost only
  together with its node.
\<close>

theorem pool_run_stable:
  assumes "group_ok lookup g0" and "gBalancer g0 = Some b" and "0 < poolSize b g0"
    and "(pool_step lookup rt)\<^sup>*\<^sup>* (seedPool rt g0) g"
  shows "full_pool (nTag ` set (gOutbounds g0)) (poolSize b g0) (pool_slots g) \<and>
    (\<forall>g' i j. pool_step lookup rt g g' \<and> i < poolSize b g0 \<and> j < poolSize b g0 \<and>
       pool_slots g' ! i = pool_slots g ! j \<longrightarrow> i = j)"
proof -
  have seed: "pool_inv (gOutbounds g0) (poolSize b g0) (seedPool rt g0)"
    using assms by (intro seedPool_full) auto
  then have o0: "gOutbounds (seedPool rt g0) = gOutbounds g0" by (simp add: pool_inv_def)
  with assms(1) have "group_ok lookup (seedPool rt g0)" by (simp add: group_ok_def)
  from pool_run_inv [OF assms(4) this] seed o0
  have g: "pool_inv (gOutbounds g0) (poolSize b g0) g" "group_ok lookup g" by auto
  then have "gOutbounds g = gOutbounds g0" by (simp add: pool_inv_def)
  with g pool_step_inv [OF _ g(2)] show ?thesis
    by (auto simp: pool_inv_def pool_slots_def)
qed

definition sample_group :: urltest_group where
  "sample_group = \<lparr>gOutbounds = [\<lparr>nTag = ''a'', nNetwork = [''tcp'']\<rparr>, \<lparr>nTag = ''b'', nNetwork = [''tcp'']\<rparr>,
       \<lparr>nTag = ''c'', nNetwork = [''tcp'', ''udp'']\<rparr>],
     gTolerance = 50, gHistory = [''c'' \<mapsto> 20],
     gBalancer = Some \<lparr>bPoolSize = 2, bPoolTolerance = 0, bStickyHash = [''domain''], bSlots = [], bCounter = 0\<rparr>,
     gSelectedTCP = None, gSelectedUDP = None, gFailover = False, gFailoverSlow = [],
     gPenalties = (\<lambda>_. None), gLastSelected = '''', gForcedRetestRunning = False,
     gLastForcedRetest = None, gEvents = []\<rparr>"

definition sample_lookup :: "string \<Rightarrow> node option" where
  "sample_lookup t = find (\<lambda>n. nTag n = t) (gOutbounds sample_group)"

theorem pool_run_stable_witness:
  "full_pool {''a'', ''b'', ''c''} 2 (pool_slots ((seedPool nTag sample_group)\<lparr>gHistory := (\<lambda>_. None)\<rparr>))"
proof -
  have "full_pool (nTag ` set (gOutbounds sample_group))
    (poolSize (the (gBalancer sample_group)) sample_group)
    (pool_slots ((seedPool nTag sample_group)\<lparr>gHistory := (\<lambda>_. None)\<rparr>))"
  proof (rule pool_run_stable [THEN conjunct1])
    show "(pool_step sample_lookup nTag)\<^sup>*\<^sup>* (seedPool nTag sample_group)
      ((seedPool nTag sample_group)\<lparr>gHistory := (\<lambda>_. None)\<rparr>)"
      by (rule r_into_rtranclp, rule pool_step.tested)
  qed (simp_all add: sample_group_def sample_lookup_def group_ok_def poolSize_def)
  then show ?thesis by (simp add: sample_group_def poolSize_def)
qed

subsection \<open>What the checks do\<close>

text \<open>
  C7: The incremental health check of first-live mode is the plan. Testing the members
  first, then the other nodes in batches of the pool's size until it is full, and putting dead
  members back, gives exactly the pool \<open>planFirstLivePool\<close> computes from the set of all nodes
  that answer, whatever the probes return; and that pool satisfies the contract of the
  planner: live members keep their slots, a dead member yields its slot only to a live
  node from outside, and no slot stays dead or empty while a live node is left.
\<close>

theorem first_live_check_plan:
  assumes "group_ok lookup g" and "pool_ok b g" and "0 < sz"
  shows "\<exists>slots. gBalancer (snd (balancePoolFirstLive lookup probe sz b g)) = Some (setSlots slots b) \<and>
    slots = planFirstLivePool (bSlots b) (answers probe) (fill_order b g) sz \<and>
    first_live_contract (bSlots b) (answers probe) (fill_order b g) sz slots"
  using first_live_check_slots [OF assms, of probe]
    plan_first_live_contract [of "bSlots b" "answers probe" "fill_order b g" sz] assms(2)
  by (simp add: pool_ok_def)

theorem first_live_check_plan_witness:
  "\<exists>slots. gBalancer (snd (balancePoolFirstLive sample_lookup (\<lambda>t. if t = ''a'' then Failed else Answered 9) 2
      \<lparr>bPoolSize = 2, bPoolTolerance = 0, bStickyHash = [], bSlots = [''a'', ''b''], bCounter = 0\<rparr> sample_group)) =
    Some \<lparr>bPoolSize = 2, bPoolTolerance = 0, bStickyHash = [], bSlots = slots, bCounter = 0\<rparr> \<and>
    slots = [''c'', ''b'']"
proof -
  let ?b = "\<lparr>bPoolSize = 2, bPoolTolerance = 0, bStickyHash = [], bSlots = [''a'', ''b''], bCounter = 0\<rparr>"
  let ?probe = "\<lambda>t. if t = ''a'' then Failed else Answered 9"
  have "planFirstLivePool (bSlots ?b) (answers ?probe) (fill_order ?b sample_group) 2 = [''c'', ''b'']"
    by (simp add: planFirstLivePool_def keep_live_def fill_order_def sample_group_def answer_def
        numeral_2_eq_2)
  with first_live_check_plan [of sample_lookup sample_group ?b 2 ?probe] show ?thesis
    by (simp add: sample_group_def sample_lookup_def group_ok_def pool_ok_def setSlots_def)
qed

text \<open>
  C9: The check with a tolerance keeps its promise. After all nodes have been tested the new
  pool replaces a member only in its own slot and only when it is dead or slower than its
  replacement by more than the tolerance, measured without wrap-around; no live node
  left outside, and not a member before, would beat a member of the new pool by more than the tolerance.
\<close>

theorem tolerant_check_contract:
  assumes "group_ok lookup g" and "pool_ok b g"
  shows "\<exists>slots. gBalancer (snd (balancePoolTolerant probe sz b g)) = Some (setSlots slots b) \<and>
    tolerant_contract (bSlots b)
      (map (\<lambda>n. (nTag n, result_candidate (nTag n) (answer (probe (nTag n))))) (gOutbounds g))
      sz (bPoolTolerance b) slots"
proof -
  obtain res g1 where t: "testNodes probe (gOutbounds g) g = (res, g1)" by (meson surj_pair)
  note T = testNodes_result [OF t]
  let ?results = "map (\<lambda>n. (nTag n, result_candidate (nTag n) (answer (probe (nTag n))))) (gOutbounds g)"
  have res: "map (\<lambda>n. (nTag n, result_candidate (nTag n) (res (nTag n)))) (gOutbounds g1) = ?results"
    using T by simp
  have "results_ok ?results" using assms(1) by (intro results_ok_candidates) (auto simp: group_ok_def)
  moreover have "distinct (occupied (bSlots b))" using assms(2) by (simp add: pool_ok_def)
  ultimately have "tolerant_contract (bSlots b) ?results sz (bPoolTolerance b)
    (planTolerantPool (bSlots b) ?results sz (bPoolTolerance b))" by (intro plan_tolerant_contract)
  moreover have "gBalancer (snd (balancePoolTolerant probe sz b g)) =
    Some (setSlots (planTolerantPool (bSlots b) ?results sz (bPoolTolerance b)) b)"
    unfolding balancePoolTolerant_def Let_def t prod.case res by (simp add: poolTags_def)
  ultimately show ?thesis by blast
qed

theorem tolerant_check_contract_witness:
  "group_ok sample_lookup sample_group \<and>
   (\<exists>slots. gBalancer (snd (balancePoolTolerant (\<lambda>_. Answered 9) 2
      \<lparr>bPoolSize = 2, bPoolTolerance = 30, bStickyHash = [], bSlots = [''a''], bCounter = 0\<rparr> sample_group)) =
    Some \<lparr>bPoolSize = 2, bPoolTolerance = 30, bStickyHash = [], bSlots = slots, bCounter = 0\<rparr> \<and>
    length slots = 2)"
proof -
  let ?b = "\<lparr>bPoolSize = 2, bPoolTolerance = 30, bStickyHash = [], bSlots = [''a''], bCounter = 0\<rparr>"
  have "group_ok sample_lookup sample_group" "pool_ok ?b sample_group"
    by (simp_all add: sample_group_def sample_lookup_def group_ok_def pool_ok_def)
  with tolerant_check_contract [of sample_lookup sample_group ?b "\<lambda>_. Answered 9" 2] show ?thesis
    by (auto simp: setSlots_def tolerant_contract_def)
qed

lemma first_live_check_history:
  assumes ok: "group_ok lookup g" "pool_ok b g" and sz: "0 < sz"
    and t: "t \<in> set (occupied (bSlots b))" and p: "probe t = Answered d"
  shows "gHistory (snd (balancePoolFirstLive lookup probe sz b g)) t = Some d"
proof -
  obtain res g1 where test: "testNodes probe (outboundsByTags lookup (bSlots b)) g = (res, g1)"
    by (meson surj_pair)
  note T = testNodes_result [OF test] and tags = outboundsByTags_tags [OF ok]
  then have h1: "gHistory g1 t = Some d" and g1: "gOutbounds g1 = gOutbounds g"
    using t p by (simp_all add: answer_def)
  let ?cands = "filter (\<lambda>n. nTag n \<notin> set (occupied (bSlots b))) (gOutbounds g)"
  have "gHistory (snd (snd (fill_batches probe sz ?cands (nxt, 0, res) g1))) t = Some d" for nxt
  proof -
    obtain n2 r2 g2 where f: "fill_batches probe sz ?cands (nxt, 0, res) g1 = (n2, r2, g2)"
      by (meson prod_cases3)
    have "'''' \<notin> nTag ` set ?cands" "t \<notin> nTag ` set ?cands" using ok(1) t by (auto simp: group_ok_def)
    with fill_batches_spec [OF f] sz h1 f show ?thesis by auto
  qed
  with test g1 h1 show ?thesis
    by (simp add: balancePoolFirstLive_def poolTags_def Let_def case_prod_beta set_pool_def)
qed

text \<open>
  A key stays with its node across a health check. If the node in the slot of a
  connection's key answers the probe of a periodic first-live check, then after the check,
  however the rest of the pool fared, connections with the same key are sent to the same
  node.
\<close>

theorem sticky_survives_check:
  assumes "group_ok lookup g" and "full_pool (nTag ` set (gOutbounds g)) sz (bSlots b)" and "0 < sz"
    and "poolSize b g = sz" and "bPoolTolerance b = 0" and "bStickyHash b \<noteq> []"
    and "bSlots b ! (unat (hashKey key) mod sz) = t" and "probe t = Answered d"
    and "snd (balancePool lookup probe b g) = g'"
  shows "\<exists>b'. gBalancer g' = Some b' \<and>
    pick p key (Some (slotAlive lookup nTag g')) fallback Some b' = (Some t, b')"
proof -
  let ?i = "unat (hashKey key) mod sz" and ?p = "planFirstLivePool (bSlots b) (answers probe) (fill_order b g) sz"
  have i: "?i < sz" using assms(3) by simp
  have len: "length (bSlots b) = sz" using assms(2) by (simp add: full_pool_def)
  have t: "t \<in> set (occupied (bSlots b))" "t \<noteq> ''''" "t \<in> nTag ` set (gOutbounds g)"
    using full_pool_nth [OF assms(2) i] assms(7) i len nth_mem [of ?i "bSlots b"]
    unfolding full_pool_occupied [OF assms(2)] by auto
  have pool: "pool_ok b g"
    using assms(2) full_pool_occupied [OF assms(2)] by (auto simp: pool_ok_def full_pool_def)
  have g': "g' = snd (balancePoolFirstLive lookup probe sz b g)"
    using assms(3-5,9) by (simp add: balancePool_def)
  have "gHistory g' t = Some d" unfolding g'
    using first_live_check_history [OF assms(1) pool assms(3) t(1)] assms(8) by blast
  moreover have "\<exists>n. lookup t = Some n \<and> nTag n = t" using assms(1) t(3) by (auto simp: group_ok_def)
  ultimately have alive: "slotAlive lookup nTag g' t" by (auto simp: slotAlive_def)
  have "first_live_contract (bSlots b) (answers probe) (fill_order b g) sz ?p"
    using pool by (intro plan_first_live_contract) (simp add: pool_ok_def)
  then have "length ?p = max sz (length (bSlots b))"
    and keep: "\<forall>i<length (bSlots b). bSlots b ! i \<noteq> '''' \<and> answers probe (bSlots b ! i) \<longrightarrow> ?p ! i = bSlots b ! i"
    unfolding first_live_contract_def by blast+
  moreover have "answers probe t" using assms(8) by (simp add: answer_def)
  ultimately have p: "length ?p = sz" "?p ! ?i = t" using keep [rule_format, of ?i] i len t(2) assms(7) by simp_all
  let ?b = "setSlots ?p b"
  have "pick p key (Some (slotAlive lookup nTag g')) fallback Some ?b = (Some t, ?b)"
  proof -
    have "bSlots ?b \<noteq> []" using p(1) assms(3) by (metis bot_nat_0.not_eq_extremum list.size(3) setSlots_simps(1))
    with pick_sticky [of ?b "slotAlive lookup nTag g'" key p fallback] p alive assms(6)
    show ?thesis by simp
  qed
  moreover have "gBalancer g' = Some ?b"
    unfolding g' by (rule first_live_check_slots [OF assms(1) pool assms(3)])
  ultimately show ?thesis by blast
qed

theorem sticky_survives_check_witness:
  "\<exists>b'. gBalancer (snd (balancePool sample_lookup (\<lambda>t. if t = ''b'' then Answered 9 else Failed)
      \<lparr>bPoolSize = 1, bPoolTolerance = 0, bStickyHash = [''domain''], bSlots = [''b''], bCounter = 0\<rparr> sample_group)) =
      Some b' \<and>
    fst (pick False ''example.org'' (Some (slotAlive sample_lookup nTag
      (snd (balancePool sample_lookup (\<lambda>t. if t = ''b'' then Answered 9 else Failed)
        \<lparr>bPoolSize = 1, bPoolTolerance = 0, bStickyHash = [''domain''], bSlots = [''b''], bCounter = 0\<rparr>
        sample_group)))) None Some b') = Some ''b''"
proof -
  let ?b = "\<lparr>bPoolSize = 1, bPoolTolerance = 0, bStickyHash = [''domain''], bSlots = [''b''], bCounter = 0\<rparr>"
  have "group_ok sample_lookup sample_group" "poolSize ?b sample_group = 1"
    "full_pool (nTag ` set (gOutbounds sample_group)) 1 (bSlots ?b)"
    by (simp_all add: sample_group_def sample_lookup_def group_ok_def full_pool_def poolSize_def)
  with sticky_survives_check [of sample_lookup sample_group 1 ?b "''example.org''" "''b''"
      "\<lambda>t. if t = ''b'' then Answered 9 else Failed" 9 _ False None]
  show ?thesis by fastforce
qed

end
