(* ===== verification/UrlTestSelect.thy ===== *)
theory UrlTestSelect
  imports PoolHealth
begin

text \<open>
  The node a URL test group uses (\<^verbatim>\<open>protocol/group/urltest.go\<close>, \<^verbatim>\<open>urltest_penalty_lx.go\<close>,
  \<^verbatim>\<open>urltest_failover_lx.go\<close>, \<^verbatim>\<open>conntest_lx.go\<close>): the choice by delay with a tolerance
  (\<open>Select\<close>), the penalties of nodes whose dials fail and the emergency mode they are
  meant to turn on, the \<^verbatim>\<open>failover\<close> mode that holds a node, and \<open>DialContext\<close>.

  \<^item> \<open>rt net n\<close> is the value of \<open>RealTag(n, net)\<close>, the tag under which the history of the node is kept.
  \<^item> \<open>dial n\<close> is what dialing through the node gives, \<open>now\<close> the time in nanoseconds.
  \<^item> The first properties state what \<open>Select\<close> guarantees while the 16-bit sum of a delay and the
    tolerance does not wrap, and the inputs on which it goes wrong.
  \<^item> \<open>own_step\<close> are the steps of a group of leaf outbounds with its own history. In none of their
    states does a node have both a history and a penalty (\<open>penalty_inv\<close>).
\<close>

subsection \<open>Choice by delay\<close>

definition supportsNetwork :: "node \<Rightarrow> string \<Rightarrow> bool" where
  "supportsNetwork detour network = (network \<in> set (nNetwork detour))"

definition selected_for :: "string \<Rightarrow> urltest_group \<Rightarrow> node option" where
  "selected_for network g =
     (if network = ''tcp'' then gSelectedTCP g
      else if network = ''udp'' then gSelectedUDP g else None)"

fun select_scan ::
  "16 word \<Rightarrow> (node \<Rightarrow> 16 word option) \<Rightarrow> string \<Rightarrow> node list \<Rightarrow> 16 word \<Rightarrow> node option \<Rightarrow> 16 word \<times> node option" where
  "select_scan tolerance history network [] minDelay minOutbound = (minDelay, minOutbound)"
| "select_scan tolerance history network (detour # rest) minDelay minOutbound =
     (if \<not> supportsNetwork detour network then select_scan tolerance history network rest minDelay minOutbound
      else case history detour of
             None \<Rightarrow> select_scan tolerance history network rest minDelay minOutbound
           | Some delay \<Rightarrow>
               if minDelay = 0 \<or> minDelay > delay + tolerance
               then select_scan tolerance history network rest delay (Some detour)
               else select_scan tolerance history network rest minDelay minOutbound)"

definition Select :: "(string \<Rightarrow> node \<Rightarrow> string) \<Rightarrow> string \<Rightarrow> urltest_group \<Rightarrow> node option \<times> bool" where
  "Select rt network g =
     (let history = (\<lambda>n. gHistory g (rt network n));
          (minDelay, minOutbound) =
            (case selected_for network g of
               None \<Rightarrow> (0, None)
             | Some n \<Rightarrow> (case history n of None \<Rightarrow> (0, None) | Some delay \<Rightarrow> (delay, Some n)))
      in case snd (select_scan (gTolerance g) history network (gOutbounds g) minDelay minOutbound) of
           None \<Rightarrow> (find (\<lambda>n. supportsNetwork n network) (gOutbounds g), False)
         | Some n \<Rightarrow> (Some n, True))"

fun fastest_scan ::
  "(node \<Rightarrow> 16 word option) \<Rightarrow> string \<Rightarrow> node list \<Rightarrow> (16 word \<times> node) option \<Rightarrow> (16 word \<times> node) option" where
  "fastest_scan history network [] best = best"
| "fastest_scan history network (detour # rest) best =
     (if \<not> supportsNetwork detour network then fastest_scan history network rest best
      else case history detour of
             None \<Rightarrow> fastest_scan history network rest best
           | Some delay \<Rightarrow>
               if (case best of None \<Rightarrow> True | Some (minDelay, _) \<Rightarrow> delay < minDelay)
               then fastest_scan history network rest (Some (delay, detour))
               else fastest_scan history network rest best)"

definition tcp_history :: "(string \<Rightarrow> node \<Rightarrow> string) \<Rightarrow> urltest_group \<Rightarrow> node \<Rightarrow> 16 word option" where
  "tcp_history rt g n = gHistory g (rt ''tcp'' n)"

definition fastestByDelay :: "(string \<Rightarrow> node \<Rightarrow> string) \<Rightarrow> string \<Rightarrow> urltest_group \<Rightarrow> node option" where
  "fastestByDelay rt network g =
     map_option snd (fastest_scan (tcp_history rt g) network (gOutbounds g) None)"

subsection \<open>Penalties\<close>

definition penaltyThreshold :: int where
  "penaltyThreshold = 3"

definition penaltyForcedRetestGap :: int where
  "penaltyForcedRetestGap = 2 * 60 * 1000000000"

record dial_error =
  eCanceled :: bool
  eDeadlineExceeded :: bool
  eUnreachable :: bool
  eTimeout :: bool

text \<open>
  The classes of a dial error that \<^verbatim>\<open>errors.Is\<close> and \<^verbatim>\<open>errors.As\<close> find in it.
\<close>

definition isPathDeadDialError :: "dial_error option \<Rightarrow> bool" where
  "isPathDeadDialError err =
     (case err of
        None \<Rightarrow> False
      | Some e \<Rightarrow> \<not> eCanceled e \<and> (eDeadlineExceeded e \<or> eUnreachable e \<or> eTimeout e))"

definition penaltyOf :: "string \<Rightarrow> urltest_group \<Rightarrow> int" where
  "penaltyOf tag g = (case gPenalties g tag of None \<Rightarrow> 0 | Some p \<Rightarrow> p)"

definition penaltyAdd :: "string \<Rightarrow> urltest_group \<Rightarrow> urltest_group" where
  "penaltyAdd tag g = g\<lparr>gPenalties := (gPenalties g)(tag \<mapsto> penaltyOf tag g + 1)\<rparr>"

definition penaltyEmergency :: "(string \<Rightarrow> node \<Rightarrow> string) \<Rightarrow> string \<Rightarrow> urltest_group \<Rightarrow> bool" where
  "penaltyEmergency rt network g =
     (case fastestByDelay rt network g of
        None \<Rightarrow> False
      | Some fastest \<Rightarrow> penaltyOf (rt ''tcp'' fastest) g \<ge> penaltyThreshold)"

fun best_scan ::
  "(node \<Rightarrow> string) \<Rightarrow> urltest_group \<Rightarrow> string \<Rightarrow> string \<Rightarrow> node list \<Rightarrow> (int \<times> 16 word \<times> node) option
   \<Rightarrow> (int \<times> 16 word \<times> node) option" where
  "best_scan rt g network excludeTag [] best = best"
| "best_scan rt g network excludeTag (detour # rest) best =
     (if \<not> supportsNetwork detour network \<or> rt detour = excludeTag
      then best_scan rt g network excludeTag rest best
      else case gHistory g (rt detour) of
             None \<Rightarrow> best_scan rt g network excludeTag rest best
           | Some delay \<Rightarrow>
               (let penalty = penaltyOf (rt detour) g in
                if (case best of
                      None \<Rightarrow> True
                    | Some (bestPenalty, bestDelay, _) \<Rightarrow>
                        penalty < bestPenalty \<or> (penalty = bestPenalty \<and> delay < bestDelay))
                then best_scan rt g network excludeTag rest (Some (penalty, delay, detour))
                else best_scan rt g network excludeTag rest best))"

definition penaltyBest :: "(string \<Rightarrow> node \<Rightarrow> string) \<Rightarrow> string \<Rightarrow> string \<Rightarrow> urltest_group \<Rightarrow> node option" where
  "penaltyBest rt network excludeTag g =
     map_option (\<lambda>(_, _, n). n) (best_scan (rt ''tcp'') g network excludeTag (gOutbounds g) None)"

definition emergency_pick :: "(string \<Rightarrow> node \<Rightarrow> string) \<Rightarrow> string \<Rightarrow> urltest_group \<Rightarrow> node option" where
  "emergency_pick rt network g =
     (if penaltyEmergency rt network g then penaltyBest rt network '''' g else None)"

definition selectPenaltyAware ::
  "(string \<Rightarrow> node \<Rightarrow> string) \<Rightarrow> string \<Rightarrow> urltest_group \<Rightarrow> node option \<times> bool" where
  "selectPenaltyAware rt network g =
     (case (if gBalancer g = None then emergency_pick rt network g else None) of
        Some best \<Rightarrow> (Some best, True)
      | None \<Rightarrow> Select rt network g)"

definition pickForDialNode :: "(string \<Rightarrow> node \<Rightarrow> string) \<Rightarrow> string \<Rightarrow> urltest_group \<Rightarrow> node option" where
  "pickForDialNode rt network g =
     (case (if gBalancer g = None then emergency_pick rt network g else None) of
        Some best \<Rightarrow> Some best
      | None \<Rightarrow>
          (case selected_for network g of
             Some cached \<Rightarrow> Some cached
           | None \<Rightarrow> fst (Select rt network g)))"

definition set_selected :: "string \<Rightarrow> node \<Rightarrow> urltest_group \<Rightarrow> urltest_group" where
  "set_selected network n g =
     (if network = ''tcp'' then g\<lparr>gSelectedTCP := Some n\<rparr>
      else if network = ''udp'' then g\<lparr>gSelectedUDP := Some n\<rparr> else g)"

definition raise :: "group_event \<Rightarrow> urltest_group \<Rightarrow> urltest_group" where
  "raise e g = g\<lparr>gEvents := gEvents g @ [e]\<rparr>"

definition moveSelection :: "string \<Rightarrow> node \<Rightarrow> urltest_group \<Rightarrow> urltest_group" where
  "moveSelection network detour g =
     (if (network = ''tcp'' \<or> network = ''udp'') \<and> selected_for network g \<noteq> Some detour
      then raise ReachabilityInvalidated (set_selected network detour g)
      else g)"

fun total_scan :: "(node \<Rightarrow> string) \<Rightarrow> urltest_group \<Rightarrow> string \<Rightarrow> node list \<Rightarrow> bool \<Rightarrow> bool" where
  "total_scan rt g network [] sawCandidate = sawCandidate"
| "total_scan rt g network (detour # rest) sawCandidate =
     (if \<not> supportsNetwork detour network \<or> gHistory g (rt detour) = None
      then total_scan rt g network rest sawCandidate
      else if penaltyOf (rt detour) g < penaltyThreshold then False
      else total_scan rt g network rest True)"

definition penaltyTotal :: "(string \<Rightarrow> node \<Rightarrow> string) \<Rightarrow> string \<Rightarrow> urltest_group \<Rightarrow> bool" where
  "penaltyTotal rt network g = total_scan (rt ''tcp'') g network (gOutbounds g) False"

text \<open>
  The part of \<^verbatim>\<open>maybeForceRetest\<close> before the background run, and what the run does when its tests are
  over.
\<close>

definition maybeForceRetest :: "(string \<Rightarrow> node \<Rightarrow> string) \<Rightarrow> int \<Rightarrow> urltest_group \<Rightarrow> urltest_group" where
  "maybeForceRetest rt now g =
     (if gBalancer g \<noteq> None \<or> \<not> penaltyTotal rt ''tcp'' g then g
      else if (case gLastForcedRetest g of None \<Rightarrow> False | Some last' \<Rightarrow> now - last' < penaltyForcedRetestGap) then g
      else if gForcedRetestRunning g then g
      else g\<lparr>gForcedRetestRunning := True\<rparr>)"


subsection \<open>Failover mode\<close>

definition slowerBy :: "16 word \<Rightarrow> 16 word \<Rightarrow> int \<Rightarrow> int \<Rightarrow> bool" where
  "slowerBy delay than num den \<longleftrightarrow> uint delay * den > uint than * num"




definition failoverSelect ::
  "(string \<Rightarrow> node \<Rightarrow> string) \<Rightarrow> string \<Rightarrow> bool \<Rightarrow> urltest_group \<Rightarrow> node option \<times> bool" where
  "failoverSelect rt network reselect g =
     (case emergency_pick rt network g of
        Some best \<Rightarrow> (Some best, True)
      | None \<Rightarrow>
          (let fastest = fastestByDelay rt network g;
               pick_fastest = (case fastest of Some n \<Rightarrow> (Some n, True) | None \<Rightarrow> Select rt network g)
           in if reselect then pick_fastest
              else case selected_for network g of
                     None \<Rightarrow> pick_fastest
                   | Some current \<Rightarrow>
                       (case tcp_history rt g current of
                          None \<Rightarrow> pick_fastest
                        | Some delay \<Rightarrow>
                            if nTag current \<in> set (gFailoverSlow g) \<and>
                               (case fastest of
                                  None \<Rightarrow> False
                                | Some f \<Rightarrow> f \<noteq> current \<and>
                                    (case tcp_history rt g f of
                                       None \<Rightarrow> False
                                     | Some best \<Rightarrow> slowerBy delay best 3 2))
                            then (fastest, True)
                            else (Some current, True))))"

definition selectForUpdate ::
  "(string \<Rightarrow> node \<Rightarrow> string) \<Rightarrow> string \<Rightarrow> bool \<Rightarrow> urltest_group \<Rightarrow> node option \<times> bool" where
  "selectForUpdate rt network reselect g =
     (if gFailover g then failoverSelect rt network reselect g else selectPenaltyAware rt network g)"

text \<open>
  One half of \<^verbatim>\<open>performSelectionUpdate\<close>: the flags are \<^verbatim>\<open>updated\<close>, \<^verbatim>\<open>changed\<close> and \<^verbatim>\<open>selected\<close>.
\<close>

definition update_network ::
  "(string \<Rightarrow> node \<Rightarrow> string) \<Rightarrow> bool \<Rightarrow> string \<Rightarrow> (bool \<times> bool \<times> bool) \<times> urltest_group
   \<Rightarrow> (bool \<times> bool \<times> bool) \<times> urltest_group" where
  "update_network rt reselect network st =
     (let ((updated, changed, selected), g) = st; old = selected_for network g in
      case selectForUpdate rt network reselect g of
        (None, _) \<Rightarrow> st
      | (Some outbound, exists) \<Rightarrow>
          if old = None \<or> (exists \<and> Some outbound \<noteq> old)
          then ((updated \<or> old \<noteq> None, changed \<or> Some outbound \<noteq> old, True),
                set_selected network outbound g)
          else st)"

definition performSelectionUpdate ::
  "(string \<Rightarrow> node \<Rightarrow> string) \<Rightarrow> bool \<Rightarrow> urltest_group \<Rightarrow> urltest_group" where
  "performSelectionUpdate rt reselect g =
     (let ((updated, changed, selected), g) =
        update_network rt reselect ''udp''
          (update_network rt reselect ''tcp'' ((False, False, False), g));
          g = (if updated then raise Interrupted g else g);
          g = (if changed then raise ReachabilityInvalidated g else g)
      in if selected then raise HistoryUpdated g else g)"


definition tickFreshWindow :: "int \<Rightarrow> int option \<Rightarrow> int \<Rightarrow> int" where
  "tickFreshWindow interval lastEnd now =
     (case lastEnd of
        None \<Rightarrow> interval
      | Some e \<Rightarrow>
          (let since = now - e in if since < 0 then 0 else if since > interval then interval else since))"





subsection \<open>Dialing through the group\<close>

datatype dial_result = DialOk | DialChainError | DialFailed dial_error

definition penaltyResetOnDial :: "bool \<Rightarrow> string \<Rightarrow> urltest_group \<Rightarrow> urltest_group" where
  "penaltyResetOnDial is_probe tag g = (if is_probe then g else penaltyReset tag g)"

definition deleteHistory :: "string \<Rightarrow> urltest_group \<Rightarrow> urltest_group" where
  "deleteHistory tag g = g\<lparr>gHistory := (gHistory g)(tag := None)\<rparr>"

definition deleteHistoryOnDialError :: "bool \<Rightarrow> string \<Rightarrow> urltest_group \<Rightarrow> urltest_group" where
  "deleteHistoryOnDialError is_probe tag g = (if is_probe then g else deleteHistory tag g)"

definition penaltyFailoverDial ::
  "(string \<Rightarrow> node \<Rightarrow> string) \<Rightarrow> int \<Rightarrow> bool \<Rightarrow> (node \<Rightarrow> dial_result) \<Rightarrow> string \<Rightarrow> node \<Rightarrow> dial_error
   \<Rightarrow> urltest_group \<Rightarrow> node option \<times> urltest_group" where
  "penaltyFailoverDial rt now is_probe dial network failed dialErr g =
     (if gBalancer g \<noteq> None \<or> \<not> isPathDeadDialError (Some dialErr) then (None, g)
      else
        (let g = (if is_probe then g
                  else maybeForceRetest rt now (penaltyAdd (rt ''tcp'' failed) g))
         in case penaltyBest rt network (rt ''tcp'' failed) g of
              None \<Rightarrow> (None, g)
            | Some fallback \<Rightarrow>
                (case dial fallback of
                   DialChainError \<Rightarrow> (None, g)
                 | DialFailed err \<Rightarrow>
                     if is_probe then (None, g)
                     else
                       (let g = deleteHistory (rt ''tcp'' fallback) g
                        in (None, if isPathDeadDialError (Some err)
                                  then maybeForceRetest rt now (penaltyAdd (rt ''tcp'' fallback) g)
                                  else g))
                 | DialOk \<Rightarrow>
                     (Some fallback,
                      if is_probe then g
                      else moveSelection network fallback (penaltyReset (rt ''tcp'' fallback) g)))))"

text \<open>
  \<^verbatim>\<open>DialContext\<close> of a group without a balancer: the node that carries the connection,
  or \<open>None\<close> when it returns an error.
\<close>

definition DialContext ::
  "(string \<Rightarrow> node \<Rightarrow> string) \<Rightarrow> int \<Rightarrow> bool \<Rightarrow> (node \<Rightarrow> dial_result) \<Rightarrow> string \<Rightarrow> urltest_group
   \<Rightarrow> node option \<times> urltest_group" where
  "DialContext rt now is_probe dial network g =
     (if network \<noteq> ''tcp'' \<and> network \<noteq> ''udp'' then (None, g)
      else case pickForDialNode rt network g of
             None \<Rightarrow> (None, g)
           | Some outbound \<Rightarrow>
               (case dial outbound of
                  DialChainError \<Rightarrow> (None, g)
                | DialOk \<Rightarrow> (Some outbound, penaltyResetOnDial is_probe (rt ''tcp'' outbound) g)
                | DialFailed err \<Rightarrow>
                    penaltyFailoverDial rt now is_probe dial network outbound err
                      (deleteHistoryOnDialError is_probe (nTag outbound) g)))"

definition ListenPacket ::
  "(string \<Rightarrow> node \<Rightarrow> string) \<Rightarrow> bool \<Rightarrow> (node \<Rightarrow> dial_result) \<Rightarrow> urltest_group \<Rightarrow> node option \<times> urltest_group" where
  "ListenPacket rt is_probe listen g =
     (case pickForDialNode rt ''udp'' g of
        None \<Rightarrow> (None, g)
      | Some outbound \<Rightarrow>
          (case listen outbound of
             DialChainError \<Rightarrow> (None, g)
           | DialOk \<Rightarrow> (Some outbound, g)
           | DialFailed _ \<Rightarrow> (None, deleteHistoryOnDialError is_probe (nTag outbound) g)))"

definition selectBalanced ::
  "(string \<Rightarrow> node option) \<Rightarrow> (string \<Rightarrow> node \<Rightarrow> string) \<Rightarrow> bool \<Rightarrow> string \<Rightarrow> string \<Rightarrow> balancer \<Rightarrow> urltest_group
   \<Rightarrow> node option \<times> urltest_group" where
  "selectBalanced lookup rt is_probe key network b g =
     (let fallback = fst (Select rt network g);
          resolve = (\<lambda>tag. case lookup tag of
                       None \<Rightarrow> None
                     | Some n \<Rightarrow> if supportsNetwork n network then Some n else None);
          (selected, b') = pick is_probe key (Some (slotAlive lookup (rt ''tcp'') g)) fallback resolve b;
          g = g\<lparr>gBalancer := Some b'\<rparr>
      in (selected, case selected of
                      None \<Rightarrow> g
                    | Some n \<Rightarrow> if is_probe then g else g\<lparr>gLastSelected := nTag n\<rparr>))"


subsection \<open>What the choice by delay guarantees\<close>

definition timed :: "(node \<Rightarrow> 16 word option) \<Rightarrow> string \<Rightarrow> node list \<Rightarrow> (node \<times> 16 word) set" where
  "timed history network ns = {(n, d). n \<in> set ns \<and> supportsNetwork n network \<and> history n = Some d}"

lemma timed_simps [simp]:
  "timed history network [] = {}"
  "timed history network (n # ns) =
     (if supportsNetwork n network
      then (case history n of None \<Rightarrow> {} | Some d \<Rightarrow> {(n, d)}) else {}) \<union> timed history network ns"
  by (auto simp: timed_def split: option.splits)

lemma unat_add_nowrap: "unat a + unat b < 2 ^ 16 \<Longrightarrow> unat (a + b) = unat a + unat b" for a b :: "16 word"
  by (simp add: unat_word_ariths)

lemma select_scan_spec:
  assumes "select_scan tol history network ns d best = (d', best')"
    and "\<forall>(n, h)\<in>timed history network ns. h \<noteq> 0 \<and> unat h + unat tol < 2 ^ 16"
    and "d = 0 \<longleftrightarrow> best = None"
  shows "(d' = 0 \<longleftrightarrow> best' = None) \<and>
    (best' = best \<and> d' = d \<or> (\<exists>n. best' = Some n \<and> (n, d') \<in> timed history network ns)) \<and>
    (\<forall>(n, h)\<in>timed history network ns. best' \<noteq> None \<and> unat d' \<le> unat h + unat tol) \<and>
    (best \<noteq> None \<longrightarrow> unat d' \<le> unat d) \<and>
    (best \<noteq> None \<and> (\<forall>(n, h)\<in>timed history network ns. unat d \<le> unat h + unat tol) \<longrightarrow> best' = best)"
  using assms
proof (induction tol history network ns d best rule: select_scan.induct)
  case (2 tol history network n ns d best)
  show ?case
  proof (cases "supportsNetwork n network \<and> history n \<noteq> None")
    case False
    with 2 show ?thesis by (auto split: if_splits option.splits)
  next
    case True
    then obtain h where h: "history n = Some h" by blast
    then have hp: "h \<noteq> 0" "unat (h + tol) = unat h + unat tol"
      using True "2.prems"(2) by (auto intro: unat_add_nowrap)
    let ?t = "timed history network ns"
    have rest: "\<forall>(n, h)\<in>?t. h \<noteq> 0 \<and> unat h + unat tol < 2 ^ 16" using "2.prems"(2) by auto
    show ?thesis
    proof (cases "d = 0 \<or> d > h + tol")
      case take: True
      have "(d' = 0 \<longleftrightarrow> best' = None) \<and>
        (best' = Some n \<and> d' = h \<or> (\<exists>m. best' = Some m \<and> (m, d') \<in> ?t)) \<and>
        (\<forall>(m, k)\<in>?t. best' \<noteq> None \<and> unat d' \<le> unat k + unat tol) \<and>
        (Some n \<noteq> None \<longrightarrow> unat d' \<le> unat h) \<and>
        (Some n \<noteq> None \<and> (\<forall>(m, k)\<in>?t. unat h \<le> unat k + unat tol) \<longrightarrow> best' = Some n)"
        using True h take hp rest "2.prems"(1) by (intro "2.IH"(3)) auto
      moreover have "unat h + unat tol < unat d" if "best \<noteq> None"
        using take that "2.prems"(3) hp by (auto simp: word_less_nat_alt)
      ultimately show ?thesis using True h by fastforce
    next
      case keep: False
      have "(d' = 0 \<longleftrightarrow> best' = None) \<and>
        (best' = best \<and> d' = d \<or> (\<exists>m. best' = Some m \<and> (m, d') \<in> ?t)) \<and>
        (\<forall>(m, k)\<in>?t. best' \<noteq> None \<and> unat d' \<le> unat k + unat tol) \<and>
        (best \<noteq> None \<longrightarrow> unat d' \<le> unat d) \<and>
        (best \<noteq> None \<and> (\<forall>(m, k)\<in>?t. unat d \<le> unat k + unat tol) \<longrightarrow> best' = best)"
        using True h keep rest "2.prems"(1,3) by (intro "2.IH"(4)) auto
      moreover have "unat d \<le> unat h + unat tol" "best \<noteq> None"
        using keep hp "2.prems"(3) by (auto simp: word_less_nat_alt)
      ultimately show ?thesis using True h by fastforce
    qed
  qed
qed simp

text \<open>
  The inputs on which \<open>Select\<close> is meant to work: positive delays whose 16-bit sum with the
  tolerance does not wrap.
\<close>

definition delays_regular :: "(string \<Rightarrow> node \<Rightarrow> string) \<Rightarrow> string \<Rightarrow> urltest_group \<Rightarrow> bool" where
  "delays_regular rt network g \<longleftrightarrow>
     (\<forall>n\<in>set (gOutbounds g) \<union> set_option (selected_for network g). \<forall>d.
        gHistory g (rt network n) = Some d \<longrightarrow> d \<noteq> 0 \<and> unat d + unat (gTolerance g) < 2 ^ 16)"

text \<open>
  C15: The delay test has hysteresis. With positive delays that do not wrap, \<open>Select\<close> returns a
  node with history that is at most the tolerance slower than any member for the
  network that has one, keeps the current selection as long as that holds of it, and reports
  that it has no tested node only when no member for the network has a history.
\<close>

theorem select_within_tolerance:
  assumes "delays_regular rt network g" and "Select rt network g = (choice, exists)"
  shows "if exists
    then \<exists>n d. choice = Some n \<and> gHistory g (rt network n) = Some d \<and>
      (n \<in> set (gOutbounds g) \<or> selected_for network g = Some n) \<and>
      (\<forall>(m, h)\<in>timed (\<lambda>n. gHistory g (rt network n)) network (gOutbounds g).
         unat d \<le> unat h + unat (gTolerance g)) \<and>
      (\<forall>c dc. selected_for network g = Some c \<and> gHistory g (rt network c) = Some dc \<and>
         (\<forall>(m, h)\<in>timed (\<lambda>n. gHistory g (rt network n)) network (gOutbounds g).
            unat dc \<le> unat h + unat (gTolerance g)) \<longrightarrow> n = c)
    else timed (\<lambda>n. gHistory g (rt network n)) network (gOutbounds g) = {} \<and>
      choice = find (\<lambda>n. supportsNetwork n network) (gOutbounds g)"
proof -
  let ?h = "\<lambda>n. gHistory g (rt network n)" and ?tol = "gTolerance g"
  let ?t = "timed ?h network (gOutbounds g)"
  obtain d0 b0 where start: "(case selected_for network g of None \<Rightarrow> (0, None)
      | Some n \<Rightarrow> (case ?h n of None \<Rightarrow> (0, None) | Some delay \<Rightarrow> (delay, Some n))) = (d0, b0)"
    by (meson surj_pair)
  then have b0: "d0 = 0 \<longleftrightarrow> b0 = None" "b0 = Some n \<Longrightarrow> ?h n = Some d0 \<and> selected_for network g = Some n" for n
    using assms(1) by (cases "selected_for network g"; auto simp: delays_regular_def split: option.splits)+
  obtain d1 b1 where scan: "select_scan ?tol ?h network (gOutbounds g) d0 b0 = (d1, b1)" by (meson surj_pair)
  have reg: "\<forall>(n, h)\<in>?t. h \<noteq> 0 \<and> unat h + unat ?tol < 2 ^ 16"
    using assms(1) by (auto simp: delays_regular_def timed_def)
  note S = select_scan_spec [OF scan reg b0(1)]
  have res: "(choice, exists) = (case b1 of None \<Rightarrow> (find (\<lambda>n. supportsNetwork n network) (gOutbounds g), False)
      | Some n \<Rightarrow> (Some n, True))"
    using assms(2) start scan by (simp add: Select_def)
  show ?thesis
  proof (cases b1)
    case None
    with res S show ?thesis by fastforce
  next
    case (Some n)
    have "?h n = Some d1 \<and> (n \<in> set (gOutbounds g) \<or> selected_for network g = Some n)"
      using S Some b0(2) by (auto simp: timed_def)
    moreover have "n = c" if "selected_for network g = Some c" "?h c = Some dc"
      "\<forall>(m, h)\<in>?t. unat dc \<le> unat h + unat ?tol" for c dc
    proof -
      have "b0 = Some c" "d0 = dc" using that start by simp_all
      with S that(3) have "b1 = Some c" by simp
      with Some show ?thesis by simp
    qed
    moreover have "\<forall>(m, h)\<in>?t. unat d1 \<le> unat h + unat ?tol" using S by fastforce
    ultimately show ?thesis using res Some by auto
  qed
qed

definition two_nodes :: "16 word \<Rightarrow> 16 word \<Rightarrow> 16 word \<Rightarrow> urltest_group" where
  "two_nodes tol da db = sample_group\<lparr>gBalancer := None, gTolerance := tol,
     gHistory := [''a'' \<mapsto> da, ''b'' \<mapsto> db],
     gSelectedTCP := Some \<lparr>nTag = ''a'', nNetwork = [''tcp'']\<rparr>\<rparr>"

lemmas two_nodes_simps = two_nodes_def sample_group_def selected_for_def supportsNetwork_def

theorem select_within_tolerance_witness:
  "Select (\<lambda>_. nTag) ''tcp'' (two_nodes 50 120 90) = (Some \<lparr>nTag = ''a'', nNetwork = [''tcp'']\<rparr>, True) \<and>
   unat (120 :: 16 word) \<le> unat (90 :: 16 word) + unat (50 :: 16 word)"
proof -
  have "delays_regular (\<lambda>_. nTag) ''tcp'' (two_nodes 50 120 90)"
    by (auto simp: delays_regular_def two_nodes_simps)
  moreover have sel: "Select (\<lambda>_. nTag) ''tcp'' (two_nodes 50 120 90) =
    (Some \<lparr>nTag = ''a'', nNetwork = [''tcp'']\<rparr>, True)"
    by (simp add: Select_def two_nodes_simps)
  ultimately show ?thesis
    using select_within_tolerance [of "\<lambda>_. nTag" "''tcp''" "two_nodes 50 120 90"]
    by (auto simp: two_nodes_simps timed_def)
qed

lemma select_scan_keeps:
  assumes "d \<noteq> 0" and "\<forall>(m, h)\<in>timed history network ns. unat d \<le> unat h + unat tol \<and> unat h + unat tol < 2 ^ 16"
  shows "select_scan tol history network ns d best = (d, best)"
  using assms(2)
proof (induction ns)
  case (Cons n ns)
  have "\<not> d > h + tol" if "unat d \<le> unat h + unat tol" "unat h + unat tol < 2 ^ 16" for h
    using that by (simp add: word_less_nat_alt unat_word_ariths)
  with Cons assms(1) show ?case by (auto split: option.splits)
qed simp

lemma select_scan_append:
  "select_scan tol history network (xs @ ys) d best =
     (case select_scan tol history network xs d best of (d', best') \<Rightarrow> select_scan tol history network ys d' best')"
  by (induction xs arbitrary: d best) (auto split: option.splits)

text \<open>
  C39: The tolerance of \<open>Select\<close> can turn into its opposite. The sum of a delay and the
  tolerance is computed in 16 bits. Let a member of any group be slower than the current node, and let its sum
  wrap to a value below the current delay. If no other tested member has a sum that wraps, none before it is faster than the
  current node by more than the tolerance, and none after it is faster than the slow member by more than the
  tolerance, then \<open>Select\<close> leaves the current node for the slower one.
\<close>

theorem select_tolerance_wraps:
  assumes "selected_for network g = Some c" and "gHistory g (rt network c) = Some dc"
    and "gOutbounds g = before @ n # after" and "supportsNetwork n network" and "gHistory g (rt network n) = Some dn"
    and "dc < dn" and "2 ^ 16 \<le> unat dn + unat (gTolerance g)" and "unat dn + unat (gTolerance g) < 2 ^ 16 + unat dc"
    and "\<forall>(m, h)\<in>timed (\<lambda>n. gHistory g (rt network n)) network before. unat dc \<le> unat h + unat (gTolerance g) \<and> unat h + unat (gTolerance g) < 2 ^ 16"
    and "\<forall>(m, h)\<in>timed (\<lambda>n. gHistory g (rt network n)) network after. unat dn \<le> unat h + unat (gTolerance g) \<and> unat h + unat (gTolerance g) < 2 ^ 16"
  shows "Select rt network g = (Some n, True)"
proof -
  let ?tol = "gTolerance g" and ?h = "\<lambda>n. gHistory g (rt network n)"
  have "unat (dn + ?tol) = unat dn + unat ?tol - 2 ^ 16"
    using assms(7) unsigned_less [of dn, where 'a = nat] unsigned_less [of ?tol, where 'a = nat]
    by (simp add: unat_word_ariths mod_if)
  then have less: "dc > dn + ?tol" using assms(7,8) by (simp add: word_less_nat_alt)
  then have "dc \<noteq> 0" "dn \<noteq> 0" using assms(6) by (auto simp: word_less_nat_alt)
  then have "select_scan ?tol ?h network (before @ n # after) dc (Some c) = (dn, Some n)"
    using less select_scan_keeps [OF _ assms(9)] select_scan_keeps [OF _ assms(10)] assms(4,5)
    by (simp add: select_scan_append)
  then show ?thesis using assms(1-3) by (simp add: Select_def)
qed

theorem select_tolerance_wraps_witness:
  "(300 :: 16 word) < 500 \<and>
   Select (\<lambda>_. nTag) ''tcp'' (two_nodes 65200 300 500) = (Some \<lparr>nTag = ''b'', nNetwork = [''tcp'']\<rparr>, True)"
proof -
  let ?a = "\<lparr>nTag = ''a'', nNetwork = [''tcp'']\<rparr>" and ?b = "\<lparr>nTag = ''b'', nNetwork = [''tcp'']\<rparr>"
    and ?c = "\<lparr>nTag = ''c'', nNetwork = [''tcp'', ''udp'']\<rparr>" and ?g = "two_nodes 65200 300 500"
  have "Select (\<lambda>_. nTag) ''tcp'' ?g = (Some ?b, True)"
    by (rule select_tolerance_wraps [where c = ?a and dc = 300 and n = ?b and dn = 500 and before = "[?a]" and after = "[?c]"])
      (auto simp: two_nodes_simps timed_def)
  then show ?thesis by simp
qed

text \<open>
  A delay below one millisecond is taken for no delay. A selected node whose last test took
  0 ms, and so is the fastest possible, loses the selection to any other tested
  node, whatever its delay.
\<close>

theorem select_zero_delay:
  "Select (\<lambda>_. nTag) ''tcp'' (two_nodes tol 0 db) =
     (Some \<lparr>nTag = ''b'', nNetwork = [''tcp'']\<rparr>, True)"
  by (simp add: Select_def two_nodes_simps)

subsection \<open>The fastest and the least penalised node\<close>

definition fastest_ok :: "(node \<times> 16 word) set \<Rightarrow> (16 word \<times> node) option \<Rightarrow> (16 word \<times> node) option \<Rightarrow> bool" where
  "fastest_ok T best r \<longleftrightarrow> (case r of
      None \<Rightarrow> best = None \<and> T = {}
    | Some (d, n) \<Rightarrow> (best = Some (d, n) \<or> (n, d) \<in> T) \<and> (\<forall>(m, h)\<in>T. d \<le> h) \<and>
        (\<forall>d0 n0. best = Some (d0, n0) \<longrightarrow> d \<le> d0))"

lemma fastest_scan_spec:
  "fastest_ok (timed history network ns) best (fastest_scan history network ns best)"
proof (induction ns arbitrary: best)
  case Nil
  show ?case by (auto simp: fastest_ok_def split: option.splits)
next
  case (Cons n ns)
  show ?case
  proof (cases "supportsNetwork n network \<and> history n \<noteq> None")
    case False
    with Cons [of best] show ?thesis by auto
  next
    case True
    then obtain h where h: "history n = Some h" by blast
    have le: "x \<le> h" if "\<not> h < y" "x \<le> y" for x y :: "16 word" using that by simp
    show ?thesis
    proof (cases "case best of None \<Rightarrow> True | Some (minDelay, _) \<Rightarrow> h < minDelay")
      case take: True
      then show ?thesis using True h Cons [of "Some (h, n)"]
        by (auto simp: fastest_ok_def split: option.splits)
    next
      case keep: False
      then show ?thesis using True h Cons [of best]
        by (auto simp: fastest_ok_def split: option.splits)
    qed
  qed
qed

lemma fastestByDelay_Some:
  assumes "fastestByDelay rt network g = Some n"
  obtains d where "(n, d) \<in> timed (tcp_history rt g) network (gOutbounds g)"
    and "\<forall>(m, h)\<in>timed (tcp_history rt g) network (gOutbounds g). d \<le> h"
proof -
  obtain d where "fastest_scan (tcp_history rt g) network (gOutbounds g) None = Some (d, n)"
    using assms by (auto simp: fastestByDelay_def)
  with fastest_scan_spec [of "tcp_history rt g" network "gOutbounds g" None] show ?thesis
    by (intro that [of d]) (simp_all add: fastest_ok_def)
qed

lemma fastestByDelay_None:
  "fastestByDelay rt network g = None \<longleftrightarrow> timed (tcp_history rt g) network (gOutbounds g) = {}"
  using fastest_scan_spec [of "tcp_history rt g" network "gOutbounds g" None]
  by (auto simp: fastestByDelay_def fastest_ok_def split: option.splits)

definition pen_le :: "int \<times> 16 word \<Rightarrow> int \<times> 16 word \<Rightarrow> bool" where
  "pen_le a b \<longleftrightarrow> fst a < fst b \<or> (fst a = fst b \<and> snd a \<le> snd b)"

definition rivals :: "(node \<Rightarrow> string) \<Rightarrow> urltest_group \<Rightarrow> string \<Rightarrow> string \<Rightarrow> node list \<Rightarrow> (node \<times> int \<times> 16 word) set" where
  "rivals rt g network ex ns =
     {(n, penaltyOf (rt n) g, d) | n d. n \<in> set ns \<and> supportsNetwork n network \<and> rt n \<noteq> ex \<and>
        gHistory g (rt n) = Some d}"

lemma rivals_simps [simp]:
  "rivals rt g network ex [] = {}"
  "rivals rt g network ex (n # ns) =
     (if supportsNetwork n network \<and> rt n \<noteq> ex
      then (case gHistory g (rt n) of None \<Rightarrow> {} | Some d \<Rightarrow> {(n, penaltyOf (rt n) g, d)}) else {}) \<union>
     rivals rt g network ex ns"
  by (auto simp: rivals_def split: option.splits)

definition best_ok ::
  "(node \<times> int \<times> 16 word) set \<Rightarrow> (int \<times> 16 word \<times> node) option \<Rightarrow> (int \<times> 16 word \<times> node) option \<Rightarrow> bool" where
  "best_ok T best r \<longleftrightarrow> (case r of
      None \<Rightarrow> best = None \<and> T = {}
    | Some (p, d, n) \<Rightarrow> (best = Some (p, d, n) \<or> (n, p, d) \<in> T) \<and>
        (\<forall>(m, q, h)\<in>T. pen_le (p, d) (q, h)) \<and>
        (\<forall>p0 d0 n0. best = Some (p0, d0, n0) \<longrightarrow> pen_le (p, d) (p0, d0)))"

lemma best_scan_spec: "best_ok (rivals rt g network ex ns) best (best_scan rt g network ex ns best)"
proof (induction ns arbitrary: best)
  case Nil
  show ?case by (auto simp: best_ok_def pen_le_def split: option.splits)
next
  case (Cons n ns)
  show ?case
  proof (cases "supportsNetwork n network \<and> rt n \<noteq> ex \<and> gHistory g (rt n) \<noteq> None")
    case False
    with Cons [of best] show ?thesis by auto
  next
    case True
    then obtain h where h: "gHistory g (rt n) = Some h" by blast
    let ?p = "penaltyOf (rt n) g"
    show ?thesis
    proof (cases "case best of None \<Rightarrow> True
        | Some (bp, bd, _) \<Rightarrow> ?p < bp \<or> (?p = bp \<and> h < bd)")
      case take: True
      then show ?thesis using True h Cons [of "Some (?p, h, n)"]
        by (auto simp: best_ok_def pen_le_def split: option.splits)
    next
      case keep: False
      then show ?thesis using True h Cons [of best]
        by (auto simp: best_ok_def pen_le_def split: option.splits)
    qed
  qed
qed

subsection \<open>A failover group holds its node\<close>

lemma penaltyOf_set_selected [simp]: "penaltyOf t (set_selected network n g) = penaltyOf t g"
  by (simp add: penaltyOf_def set_selected_def)

lemma set_selected_fields [simp]:
  "gHistory (set_selected network n g) = gHistory g" "gOutbounds (set_selected network n g) = gOutbounds g"
  "gTolerance (set_selected network n g) = gTolerance g" "gFailover (set_selected network n g) = gFailover g"
  "gFailoverSlow (set_selected network n g) = gFailoverSlow g" "gBalancer (set_selected network n g) = gBalancer g"
  "gPenalties (set_selected network n g) = gPenalties g"
  by (simp_all add: set_selected_def)

lemma best_scan_set_selected [simp]:
  "best_scan rt (set_selected network n g) net ex ns best = best_scan rt g net ex ns best"
  by (induction ns arbitrary: best) (auto simp: Let_def split: option.splits)

lemma tcp_history_set_selected [simp]: "tcp_history rt (set_selected network n g) = tcp_history rt g"
  by (simp add: tcp_history_def fun_eq_iff)

lemma selected_for_set:
  "selected_for net (set_selected network n g) =
     (if net = network \<and> (net = ''tcp'' \<or> net = ''udp'') then Some n else selected_for net g)"
  by (auto simp: selected_for_def set_selected_def)

lemma fastestByDelay_set_selected [simp]:
  "fastestByDelay rt net (set_selected network n g) = fastestByDelay rt net g"
  by (simp add: fastestByDelay_def)

lemma emergency_pick_set_selected [simp]:
  "emergency_pick rt net (set_selected network n g) = emergency_pick rt net g"
  by (simp add: emergency_pick_def penaltyEmergency_def penaltyBest_def split: option.split)

lemma Select_other:
  assumes "selected_for net g' = selected_for net g" and "gHistory g' = gHistory g"
    and "gOutbounds g' = gOutbounds g" and "gTolerance g' = gTolerance g"
  shows "Select rt net g' = Select rt net g"
  unfolding Select_def assms ..

lemma selectForUpdate_other:
  assumes "net \<noteq> network"
  shows "selectForUpdate rt net re (set_selected network n g) = selectForUpdate rt net re g"
proof -
  let ?g = "set_selected network n g"
  have s: "selected_for net ?g = selected_for net g" using assms by (simp add: selected_for_set)
  then have S: "Select rt net ?g = Select rt net g" by (intro Select_other) simp_all
  show ?thesis
    unfolding selectForUpdate_def failoverSelect_def selectPenaltyAware_def
      emergency_pick_set_selected fastestByDelay_set_selected tcp_history_set_selected set_selected_fields
      s S ..
qed

text \<open>The selection of a network after an update depends only on its own choice.\<close>

definition updated_selection ::
  "(string \<Rightarrow> node \<Rightarrow> string) \<Rightarrow> string \<Rightarrow> bool \<Rightarrow> urltest_group \<Rightarrow> node option" where
  "updated_selection rt network re g =
     (case selectForUpdate rt network re g of
        (Some n, exists) \<Rightarrow>
          if selected_for network g = None \<or> exists then Some n else selected_for network g
      | (None, _) \<Rightarrow> selected_for network g)"

lemma raise_fields [simp]:
  "selected_for network (raise e g) = selected_for network g" "gHistory (raise e g) = gHistory g"
  "gPenalties (raise e g) = gPenalties g" "gOutbounds (raise e g) = gOutbounds g"
  "gFailover (raise e g) = gFailover g" "gBalancer (raise e g) = gBalancer g"
  by (simp_all add: raise_def selected_for_def)

lemma update_network_cases:
  assumes "update_network rt re network (fs, g) = (fs', g')" and "network = ''tcp'' \<or> network = ''udp''"
  shows "selected_for network g' = updated_selection rt network re g \<and>
    (g' = g \<or> (\<exists>n. g' = set_selected network n g))"
  using assms
  by (auto simp: update_network_def updated_selection_def Let_def selected_for_set
      split: prod.splits option.splits if_splits)

lemma performSelectionUpdate_selected:
  assumes "network = ''tcp'' \<or> network = ''udp''"
  shows "selected_for network (performSelectionUpdate rt re g) = updated_selection rt network re g"
proof -
  obtain fs g1 where 1: "update_network rt re ''tcp'' ((False, False, False), g) = (fs, g1)" by (meson surj_pair)
  obtain u c s g2 where 2: "update_network rt re ''udp'' (fs, g1) = ((u, c, s), g2)" by (metis surj_pair)
  note T = update_network_cases [OF 1] and U = update_network_cases [OF 2]
  have "selected_for network (performSelectionUpdate rt re g) = selected_for network g2"
    using 1 2 by (simp add: performSelectionUpdate_def Let_def)
  moreover have "selected_for ''tcp'' g2 = selected_for ''tcp'' g1" using U by (auto simp: selected_for_set)
  moreover have "updated_selection rt ''udp'' re g1 = updated_selection rt ''udp'' re g"
  proof -
    have e: "selectForUpdate rt ''udp'' re g1 = selectForUpdate rt ''udp'' re g"
      "selected_for ''udp'' g1 = selected_for ''udp'' g"
      using T by (auto simp: selectForUpdate_other selected_for_set)
    show ?thesis unfolding updated_selection_def e ..
  qed
  ultimately show ?thesis using assms T U by auto
qed

text \<open>
  C26: A failover group holds its node. Outside the emergency mode an update that is no
  reselection keeps the selected node of a network as long as that node has a
  history, except after a confirmed slowdown; then it moves only to the fastest member with
  history, and only if that one is more than one and a half times as fast.
\<close>

theorem failover_holds:
  assumes "gFailover g" and "\<not> penaltyEmergency rt network g" and "network = ''tcp'' \<or> network = ''udp''"
    and "selected_for network g = Some n" and "tcp_history rt g n = Some d"
  shows "selected_for network (performSelectionUpdate rt False g) = Some n \<or>
    (\<exists>f df. nTag n \<in> set (gFailoverSlow g) \<and>
       selected_for network (performSelectionUpdate rt False g) = Some f \<and>
       (f, df) \<in> timed (tcp_history rt g) network (gOutbounds g) \<and>
       (\<forall>(m, h)\<in>timed (tcp_history rt g) network (gOutbounds g). df \<le> h) \<and>
       3 * unat df < 2 * unat d)"
proof -
  have sel: "selected_for network (performSelectionUpdate rt False g) = fst (failoverSelect rt network False g)"
    if "fst (failoverSelect rt network False g) \<noteq> None" "snd (failoverSelect rt network False g)"
    using that assms(1,3)
    by (auto simp: performSelectionUpdate_selected updated_selection_def selectForUpdate_def split: prod.splits)
  have em: "emergency_pick rt network g = None" using assms(2) by (simp add: emergency_pick_def)
  show ?thesis
  proof (cases "fst (failoverSelect rt network False g) = Some n")
    case True
    moreover have "snd (failoverSelect rt network False g)"
      using em assms(4,5) by (simp add: failoverSelect_def Let_def)
    ultimately show ?thesis using sel by simp
  next
    case False
    then obtain f where f: "fastestByDelay rt network g = Some f" "nTag n \<in> set (gFailoverSlow g)"
      "case tcp_history rt g f of None \<Rightarrow> False | Some best \<Rightarrow> slowerBy d best 3 2"
      "failoverSelect rt network False g = (Some f, True)"
      using em assms(4,5) by (auto simp: failoverSelect_def Let_def split: if_splits option.splits)
    obtain df where df: "(f, df) \<in> timed (tcp_history rt g) network (gOutbounds g)"
      "\<forall>(m, h)\<in>timed (tcp_history rt g) network (gOutbounds g). df \<le> h"
      by (rule fastestByDelay_Some [OF f(1)])
    then have "slowerBy d df 3 2" using f(3) by (simp add: timed_def)
    then have "3 * unat df < 2 * unat d"
      unfolding slowerBy_def uint_nat by linarith
    with df f sel show ?thesis by auto
  qed
qed

theorem failover_holds_witness:
  "selected_for ''tcp'' (performSelectionUpdate (\<lambda>_. nTag) False ((two_nodes 50 120 90)\<lparr>gFailover := True\<rparr>)) =
     Some \<lparr>nTag = ''a'', nNetwork = [''tcp'']\<rparr>"
proof -
  let ?g = "(two_nodes 50 120 90)\<lparr>gFailover := True\<rparr>"
  have "\<not> penaltyEmergency (\<lambda>_. nTag) ''tcp'' ?g"
    by (simp add: penaltyEmergency_def fastestByDelay_def tcp_history_def penaltyOf_def penaltyThreshold_def
        two_nodes_simps)
  moreover have "gFailover ?g" "selected_for ''tcp'' ?g = Some \<lparr>nTag = ''a'', nNetwork = [''tcp'']\<rparr>"
    "tcp_history (\<lambda>_. nTag) ?g \<lparr>nTag = ''a'', nNetwork = [''tcp'']\<rparr> = Some 120" "gFailoverSlow ?g = []"
    by (simp_all add: tcp_history_def two_nodes_simps)
  ultimately show ?thesis
    using failover_holds [of ?g "\<lambda>_. nTag" "''tcp''" "\<lparr>nTag = ''a'', nNetwork = [''tcp'']\<rparr>" 120] by simp
qed

subsection \<open>Penalties and history exclude each other\<close>

abbreviation leaf :: "string \<Rightarrow> node \<Rightarrow> string" where
  "leaf \<equiv> \<lambda>_. nTag"



lemma penaltyOf_simps [simp]:
  "penaltyOf t (penaltyReset u g) = (if t = u then 0 else penaltyOf t g)"
  "penaltyOf t (penaltyAdd u g) = (if t = u then penaltyOf t g + 1 else penaltyOf t g)"
  "penaltyOf t (g\<lparr>gHistory := h\<rparr>) = penaltyOf t g"
  "penaltyOf t (g\<lparr>gFailoverSlow := s\<rparr>) = penaltyOf t g"
  by (auto simp: penaltyOf_def penaltyReset_def penaltyAdd_def split: option.splits)


lemma penaltyAdd_history [simp]: "gHistory (penaltyAdd t g) = gHistory g"
  by (simp add: penaltyAdd_def)




lemma deleteHistory_history [simp]: "gHistory (deleteHistory t g) = (gHistory g)(t := None)"
  by (simp add: deleteHistory_def)

lemma maybeForceRetest_history [simp]: "gHistory (maybeForceRetest rt now g) = gHistory g"
  by (simp add: maybeForceRetest_def)


lemma update_network_frame:
  "gHistory (snd (update_network rt re net st)) = gHistory (snd st) \<and>
   gPenalties (snd (update_network rt re net st)) = gPenalties (snd st)"
  by (auto simp: update_network_def Let_def split: prod.splits option.splits if_splits)

lemma performSelectionUpdate_frame [simp]:
  "gHistory (performSelectionUpdate rt re g) = gHistory g"
  "gPenalties (performSelectionUpdate rt re g) = gPenalties g"
proof -
  define r where "r = update_network rt re ''udp'' (update_network rt re ''tcp'' ((False, False, False), g))"
  have "gHistory (snd r) = gHistory g \<and> gPenalties (snd r) = gPenalties g"
    unfolding r_def using update_network_frame by (metis snd_conv)
  then show "gHistory (performSelectionUpdate rt re g) = gHistory g"
    "gPenalties (performSelectionUpdate rt re g) = gPenalties g"
    unfolding performSelectionUpdate_def r_def [symmetric] by (auto simp: Let_def split: prod.splits)
qed










subsection \<open>A connection and its fallback\<close>

lemma penaltyOf_raise [simp]: "penaltyOf t (raise e g) = penaltyOf t g"
  by (simp add: penaltyOf_def)

text \<open>
  C25: The fallback of a failed connection. When the node picked for a connection fails and the
  connection is established all the same, the failure was of the dead-path class, the
  connection goes through another node, the one with the fewest penalties and then the
  smallest delay among the members for the network that have a history, the
  group's selection has moved to that node and its penalty is cleared.
\<close>

theorem dial_fallback:
  assumes "DialContext rt now False dial network g = (Some f, g')"
    and "pickForDialNode rt network g = Some n" and "dial n = DialFailed e"
  shows "isPathDeadDialError (Some e) \<and> dial f = DialOk \<and> selected_for network g' = Some f \<and>
    penaltyOf (rt ''tcp'' f) g' = 0 \<and>
    (\<exists>p d. (f, p, d) \<in> rivals (rt ''tcp'') (penaltyAdd (rt ''tcp'' n) (deleteHistory (nTag n) g)) network
         (rt ''tcp'' n) (gOutbounds g) \<and>
       (\<forall>(m, q, h)\<in>rivals (rt ''tcp'') (penaltyAdd (rt ''tcp'' n) (deleteHistory (nTag n) g)) network
         (rt ''tcp'' n) (gOutbounds g). pen_le (p, d) (q, h)))"
proof -
  let ?g1 = "penaltyAdd (rt ''tcp'' n) (deleteHistory (nTag n) g)"
  define g2 where "g2 = maybeForceRetest rt now ?g1"
  have frame: "gHistory g2 = gHistory ?g1" "penaltyOf t g2 = penaltyOf t ?g1" "gOutbounds g2 = gOutbounds g" for t
    by (simp_all add: g2_def maybeForceRetest_def penaltyOf_def penaltyAdd_def deleteHistory_def)
  have net: "network = ''tcp'' \<or> network = ''udp''"
    using assms(1) by (auto simp: DialContext_def split: if_splits)
  with assms have "penaltyFailoverDial rt now False dial network n e (deleteHistory (nTag n) g) = (Some f, g')"
    by (auto simp: DialContext_def deleteHistoryOnDialError_def split: if_splits)
  then have pd: "isPathDeadDialError (Some e)" and best: "penaltyBest rt network (rt ''tcp'' n) g2 = Some f"
    and ok: "dial f = DialOk" and g': "g' = moveSelection network f (penaltyReset (rt ''tcp'' f) g2)"
    by (auto simp: penaltyFailoverDial_def Let_def g2_def split: if_splits option.splits dial_result.splits)
  have riv: "rivals (rt ''tcp'') g2 network (rt ''tcp'' n) (gOutbounds g2) =
    rivals (rt ''tcp'') ?g1 network (rt ''tcp'' n) (gOutbounds g)"
    using frame by (simp add: rivals_def)
  obtain p d where "best_scan (rt ''tcp'') g2 network (rt ''tcp'' n) (gOutbounds g2) None = Some (p, d, f)"
    using best by (auto simp: penaltyBest_def)
  with best_scan_spec [of "rt ''tcp''" g2 network "rt ''tcp'' n" "gOutbounds g2" None]
  have min: "(f, p, d) \<in> rivals (rt ''tcp'') ?g1 network (rt ''tcp'' n) (gOutbounds g) \<and>
    (\<forall>(m, q, h)\<in>rivals (rt ''tcp'') ?g1 network (rt ''tcp'' n) (gOutbounds g). pen_le (p, d) (q, h))"
    unfolding riv by (simp add: best_ok_def)
  have "selected_for network g' = Some f" "penaltyOf (rt ''tcp'' f) g' = 0"
    using net unfolding g' by (auto simp: moveSelection_def selected_for_set)
  with pd ok min show ?thesis by blast
qed

theorem dial_fallback_witness:
  "fst (DialContext leaf 0 False (\<lambda>n. if nTag n = ''a'' then DialFailed \<lparr>eCanceled = False,
      eDeadlineExceeded = True, eUnreachable = False, eTimeout = True\<rparr> else DialOk) ''tcp'' (two_nodes 50 120 90)) =
    Some \<lparr>nTag = ''b'', nNetwork = [''tcp'']\<rparr> \<and>
   penaltyOf ''b'' (snd (DialContext leaf 0 False (\<lambda>n. if nTag n = ''a'' then DialFailed \<lparr>eCanceled = False,
      eDeadlineExceeded = True, eUnreachable = False, eTimeout = True\<rparr> else DialOk) ''tcp'' (two_nodes 50 120 90))) = 0"
proof -
  let ?d = "\<lambda>n. if nTag n = ''a'' then DialFailed \<lparr>eCanceled = False,
      eDeadlineExceeded = True, eUnreachable = False, eTimeout = True\<rparr> else DialOk"
  let ?g = "two_nodes 50 120 90" and ?a = "\<lparr>nTag = ''a'', nNetwork = [''tcp'']\<rparr>"
    and ?b = "\<lparr>nTag = ''b'', nNetwork = [''tcp'']\<rparr>"
  have em: "emergency_pick leaf ''tcp'' ?g = None"
    by (simp add: emergency_pick_def penaltyEmergency_def fastestByDelay_def tcp_history_def penaltyOf_def
        penaltyThreshold_def two_nodes_simps)
  then have pick: "pickForDialNode leaf ''tcp'' ?g = Some ?a"
    by (simp add: pickForDialNode_def selected_for_def two_nodes_def sample_group_def)
  have "DialContext leaf 0 False ?d ''tcp'' ?g = penaltyFailoverDial leaf 0 False ?d ''tcp'' ?a
      \<lparr>eCanceled = False, eDeadlineExceeded = True, eUnreachable = False, eTimeout = True\<rparr>
      (deleteHistory ''a'' ?g)"
    by (simp add: DialContext_def pick deleteHistoryOnDialError_def)
  then have fst: "fst (DialContext leaf 0 False ?d ''tcp'' ?g) = Some ?b"
    by (simp add: penaltyFailoverDial_def isPathDeadDialError_def Let_def
        deleteHistory_def penaltyBest_def maybeForceRetest_def penaltyAdd_def
        penaltyOf_def penaltyTotal_def penaltyThreshold_def two_nodes_simps)
  with dial_fallback [of leaf 0 ?d "''tcp''" ?g ?b "snd (DialContext leaf 0 False ?d ''tcp'' ?g)" ?a] pick
  show ?thesis by (simp add: prod_eq_iff)
qed

text \<open>
  A connection test changes nothing. A dial or a packet connection made for a connection
  test takes the same path, fallback included, but leaves the history, the penalties, the
  selection, the retest valve and, in round robin mode, the counter, the slots and the last
  selected node as they are.
\<close>

theorem connection_test_neutral:
  "snd (DialContext rt now True dial network g) = g \<and>
   snd (ListenPacket rt True listen g) = g \<and>
   snd (selectBalanced lookup rt True key network b (g\<lparr>gBalancer := Some b\<rparr>)) = g\<lparr>gBalancer := Some b\<rparr>"
proof -
  have pk: "snd (pick True key al fb res b) = b" for al res and fb :: "node option"
    by (auto simp: pick_def Let_def rotate_counter_def split: option.splits)
  have "snd (penaltyFailoverDial rt now True dial network n e g) = g" for n e
    by (auto simp: penaltyFailoverDial_def split: option.splits dial_result.splits)
  moreover have "snd (selectBalanced lookup rt True key network b h) = h\<lparr>gBalancer := Some b\<rparr>" for h
  proof -
    obtain sel b' where p: "pick True key (Some (slotAlive lookup (rt ''tcp'') h)) (fst (Select rt network h))
        (\<lambda>tag. case lookup tag of None \<Rightarrow> None | Some n \<Rightarrow> if supportsNetwork n network then Some n else None) b =
        (sel, b')" by (meson surj_pair)
    have "b' = b" using arg_cong [OF p, of snd] by (simp add: pk)
    with p show ?thesis by (simp add: selectBalanced_def Let_def split: option.split)
  qed
  ultimately show ?thesis
    by (simp add: DialContext_def ListenPacket_def penaltyResetOnDial_def deleteHistoryOnDialError_def
        split: option.splits dial_result.splits)
qed

end
