(* ===== verification/OutboundGroups.thy ===== *)
theory OutboundGroups
  imports OutboundManager UrlTestSelect
begin

text \<open>
  Groups among the outbounds of a started box: the selector (\<^verbatim>\<open>protocol/group/selector.go\<close>),
  what a group points at (\<^verbatim>\<open>Selected\<close>, \<^verbatim>\<open>RealTag\<close>, \<^verbatim>\<open>adapter.GroupNow\<close>) and the chain of
  outbounds the router gives a connection to (\<^verbatim>\<open>resolveOutbound\<close> in \<^verbatim>\<open>route/route.go\<close>,
  \<^verbatim>\<open>resolveOutboundLx\<close>).

  \<^item> An outbound object is named by its tag; \<open>box\<close> is the lookup of the outbound manager. A tag outside
    the box stands for no group.
  \<^item> \<open>RealTag\<close> and \<open>resolve_loop\<close> follow selections until they meet an outbound that is no group.
    Nothing in them bounds the number of steps, so they are partial functions, and the value
    \<^term>\<open>None\<close> means that they do not return. They do return in a box whose outbounds
    were started by the manager (\<open>resolves_startable\<close>), since the members of a group are its
    dependencies.
\<close>

subsection \<open>The selector\<close>

record selector_options =
  soOutbounds :: "string list"
  soDefault :: string

record selector =
  sTag :: string
  sTags :: "string list"
  sDefaultTag :: string
  sOutbounds :: "string list"
  sSelected :: "string option"

datatype selector_error =
    OutboundNotFound nat string
  | DefaultOutboundNotFound string
  | IndexOutOfRange

definition NewSelector :: "string \<Rightarrow> selector_options \<Rightarrow> group_error + selector" where
  "NewSelector tag options =
     (if soOutbounds options = [] then Inl MissingTags
      else case first_duplicate [] (soOutbounds options) of
             Some t \<Rightarrow> Inl (Balancer.DuplicateTag t)
           | None \<Rightarrow> Inr \<lparr>sTag = tag, sTags = soOutbounds options, sDefaultTag = soDefault options,
                         sOutbounds = [], sSelected = None\<rparr>)"

text \<open>
  \<open>sOutbounds\<close> are the keys of the map \<^verbatim>\<open>outbounds\<close>. \<open>known\<close> says which tags the outbound
  manager resolves, \<open>cache\<close> is the cache file, if any, as the function \<^verbatim>\<open>LoadSelected\<close>.
\<close>

fun load_outbounds :: "(string \<Rightarrow> bool) \<Rightarrow> nat \<Rightarrow> string list \<Rightarrow> selector \<Rightarrow> selector_error option \<times> selector" where
  "load_outbounds known i [] s = (None, s)"
| "load_outbounds known i (tag # tags) s =
     (if \<not> known tag then (Some (OutboundNotFound i tag), s)
      else load_outbounds known (i + 1) tags (s\<lparr>sOutbounds := List.insert tag (sOutbounds s)\<rparr>))"

definition cached_choice :: "(string \<Rightarrow> string) option \<Rightarrow> selector \<Rightarrow> string option" where
  "cached_choice cache s =
     (case cache of
        None \<Rightarrow> None
      | Some loadSelected \<Rightarrow>
          (let selected = loadSelected (sTag s)
           in if sTag s \<noteq> '''' \<and> selected \<noteq> '''' \<and> selected \<in> set (sOutbounds s) then Some selected
              else None))"

definition selector_Start ::
  "(string \<Rightarrow> bool) \<Rightarrow> (string \<Rightarrow> string) option \<Rightarrow> StartStage \<Rightarrow> selector \<Rightarrow> selector_error option \<times> selector" where
  "selector_Start known cache stage s =
     (if stage \<noteq> StartStateStart then (None, s)
      else case load_outbounds known 0 (sTags s) s of
             (Some e, s1) \<Rightarrow> (Some e, s1)
           | (None, s1) \<Rightarrow>
               (case cached_choice cache s1 of
                  Some selected \<Rightarrow> (None, s1\<lparr>sSelected := Some selected\<rparr>)
                | None \<Rightarrow>
                    if sDefaultTag s1 \<noteq> '''' then
                      (if sDefaultTag s1 \<in> set (sOutbounds s1)
                       then (None, s1\<lparr>sSelected := Some (sDefaultTag s1)\<rparr>)
                       else (Some (DefaultOutboundNotFound (sDefaultTag s1)), s1))
                    else (case sTags s1 of
                            [] \<Rightarrow> (Some IndexOutOfRange, s1)
                          | tag # _ \<Rightarrow> (None, s1\<lparr>sSelected := Some tag\<rparr>))))"

definition selector_References :: "selector \<Rightarrow> string list" where
  "selector_References s =
     (case sSelected s of None \<Rightarrow> take 1 (sTags s) | Some selected \<Rightarrow> [selected])"

text \<open>
  A successful \<^verbatim>\<open>StoreSelected\<close> changes the cache; a failing one (\<open>stored\<close> false) is only
  logged. The events are those of a URL test group; \<open>has_history\<close> says whether there is
  a history storage to notify.
\<close>

definition SelectOutbound ::
  "bool \<Rightarrow> bool \<Rightarrow> string \<Rightarrow> selector \<times> (string \<Rightarrow> string) option
   \<Rightarrow> bool \<times> (selector \<times> (string \<Rightarrow> string) option) \<times> group_event list" where
  "SelectOutbound stored has_history tag sc =
     (let (s, cache) = sc
      in if tag \<notin> set (sOutbounds s) then (False, sc, [])
         else if sSelected s = Some tag then (True, sc, [])
         else
           (True,
            (s\<lparr>sSelected := Some tag\<rparr>,
             if sTag s \<noteq> '''' \<and> stored then map_option (\<lambda>c. c(sTag s := tag)) cache else cache),
            [ReachabilityInvalidated, Interrupted] @ (if has_history then [HistoryUpdated] else [])))"

subsection \<open>What a group points at\<close>

text \<open>
  A leaf has its networks and dependencies. The other two are groups; a URL test group comes with
  the state of its \<^verbatim>\<open>URLTestGroup\<close>, which exists from its start on.
\<close>

datatype outbound_object =
    LeafOutbound "string list" "string list"
  | SelectorOutbound selector
  | URLTestOutbound "string list" urltest_group

type_synonym box = "string \<Rightarrow> outbound_object option"

fun isGroup :: "outbound_object option \<Rightarrow> bool" where
  "isGroup (Some (SelectorOutbound s)) = True"
| "isGroup (Some (URLTestOutbound tags g)) = True"
| "isGroup _ = False"

fun group_All :: "outbound_object \<Rightarrow> string list" where
  "group_All (SelectorOutbound s) = sTags s"
| "group_All (URLTestOutbound tags g) = tags"
| "group_All (LeafOutbound network deps) = []"

primrec traverse :: "('a \<Rightarrow> 'b option) \<Rightarrow> 'a list \<Rightarrow> 'b list option" where
  "traverse f [] = Some []"
| "traverse f (x # xs) = Option.bind (f x) (\<lambda>y. Option.bind (traverse f xs) (\<lambda>ys. Some (y # ys)))"

lemma traverse_mono [partial_function_mono]:
  assumes "\<And>x. mono_option (\<lambda>f. B f x)"
  shows "mono_option (\<lambda>f. traverse (B f) xs)"
  by (induction xs) (auto intro!: partial_function_mono assms)

text \<open>
  \<^verbatim>\<open>URLTest.Selected\<close>. The fallback \<open>Select\<close> reads the history under the real tags of the members,
  which \<open>real\<close> computes. The tag of the last pick is in the box when the manager
  resolves it.
\<close>

definition URLTest_Selected ::
  "(string \<Rightarrow> string option) \<Rightarrow> box \<Rightarrow> string \<Rightarrow> urltest_group \<Rightarrow> string option option" where
  "URLTest_Selected real box network g =
     (if gBalancer g \<noteq> None \<and> box (gLastSelected g) \<noteq> None then Some (Some (gLastSelected g))
      else case (if network = ''udp'' then gSelectedUDP g else gSelectedTCP g) of
             Some n \<Rightarrow> Some (Some (nTag n))
           | None \<Rightarrow>
               Option.bind (traverse (\<lambda>n. real (nTag n)) (gOutbounds g)) (\<lambda>tags.
                 Some (map_option nTag (fst (Select
                   (\<lambda>_ n. case map_of (zip (gOutbounds g) tags) n of None \<Rightarrow> nTag n | Some t \<Rightarrow> t)
                   network g)))))"

lemma URLTest_Selected_mono [partial_function_mono]:
  assumes "\<And>t. mono_option (\<lambda>f. B f t)"
  shows "mono_option (\<lambda>f. URLTest_Selected (B f) box network g)"
  unfolding URLTest_Selected_def by (cases "if network = ''udp'' then gSelectedUDP g else gSelectedTCP g")
    (auto intro!: partial_function_mono assms)

fun group_Selected ::
  "(string \<Rightarrow> string option) \<Rightarrow> box \<Rightarrow> string \<Rightarrow> outbound_object \<Rightarrow> string option option" where
  "group_Selected real box network (SelectorOutbound s) = Some (sSelected s)"
| "group_Selected real box network (URLTestOutbound tags g) = URLTest_Selected real box network g"
| "group_Selected real box network (LeafOutbound net deps) = Some None"

lemma group_Selected_mono [partial_function_mono]:
  assumes "\<And>t. mono_option (\<lambda>f. B f t)"
  shows "mono_option (\<lambda>f. group_Selected (B f) box network ob)"
  by (cases ob) (auto intro!: partial_function_mono assms)

partial_function (option) RealTag :: "box \<Rightarrow> string \<Rightarrow> string \<Rightarrow> string option" where
  "RealTag box network tag =
     (if \<not> isGroup (box tag) then Some tag
      else Option.bind (group_Selected (RealTag box network) box network (the (box tag))) (\<lambda>selected.
             case selected of None \<Rightarrow> Some '''' | Some detour \<Rightarrow> RealTag box network detour))"

definition Selected :: "box \<Rightarrow> string \<Rightarrow> outbound_object \<Rightarrow> string option option" where
  "Selected box network ob = group_Selected (RealTag box network) box network ob"

definition GroupNow :: "box \<Rightarrow> outbound_object \<Rightarrow> string option" where
  "GroupNow box ob =
     Option.bind (Selected box ''tcp'' ob) (\<lambda>tcp.
       case tcp of
         Some t \<Rightarrow> Some t
       | None \<Rightarrow> Option.bind (Selected box ''udp'' ob) (\<lambda>udp.
           Some (case udp of None \<Rightarrow> '''' | Some t \<Rightarrow> t)))"

definition ActiveTags :: "box \<Rightarrow> string list \<Rightarrow> urltest_group \<Rightarrow> string list option" where
  "ActiveTags box tags g =
     (case map_option poolTags (gBalancer g) of
        Some (t # ts) \<Rightarrow> Some (t # ts)
      | _ \<Rightarrow> Option.bind (GroupNow box (URLTestOutbound tags g)) (\<lambda>now.
               Some (if now \<noteq> '''' then [now] else [])))"

definition URLTest_References :: "urltest_group option \<Rightarrow> string list" where
  "URLTest_References gr =
     (case gr of
        None \<Rightarrow> []
      | Some g \<Rightarrow>
          (case gSelectedTCP g of None \<Rightarrow> [] | Some n \<Rightarrow> [nTag n]) @
          (case gSelectedUDP g of None \<Rightarrow> [] | Some n \<Rightarrow> if gSelectedTCP g = Some n then [] else [nTag n]) @
          poolReferences (gBalancer g))"

subsection \<open>The chain of a connection\<close>

datatype resolve_error = NotSupported string string

definition leaf_Network :: "outbound_object option \<Rightarrow> string list" where
  "leaf_Network ob = (case ob of Some (LeafOutbound network deps) \<Rightarrow> network | _ \<Rightarrow> [])"

partial_function (option) resolve_loop ::
  "box \<Rightarrow> string \<Rightarrow> string list \<Rightarrow> string \<Rightarrow> (resolve_error + string list) option" where
  "resolve_loop box network chain outbound =
     (if \<not> isGroup (box outbound) then
        Some (if network \<in> set (leaf_Network (box outbound)) then Inr chain
              else Inl (NotSupported network outbound))
      else Option.bind (Selected box network (the (box outbound))) (\<lambda>selected.
             case selected of
               None \<Rightarrow> Some (Inl (NotSupported network outbound))
             | Some detour \<Rightarrow> resolve_loop box network (chain @ [detour]) detour))"

definition resolveOutbound :: "box \<Rightarrow> string \<Rightarrow> string \<Rightarrow> (resolve_error + string list) option" where
  "resolveOutbound box outbound network = resolve_loop box network [outbound] outbound"

fun isPerConnection :: "outbound_object option \<Rightarrow> bool" where
  "isPerConnection (Some (URLTestOutbound tags g)) = True"
| "isPerConnection _ = False"

fun cut_chain :: "box \<Rightarrow> string list \<Rightarrow> string list" where
  "cut_chain box [] = []"
| "cut_chain box [t] = [t]"
| "cut_chain box (t # u # ts) = (if isPerConnection (box t) then [t] else t # cut_chain box (u # ts))"

definition resolveOutboundLx :: "box \<Rightarrow> string \<Rightarrow> string \<Rightarrow> (resolve_error + string list) option" where
  "resolveOutboundLx box outbound network =
     map_option (map_sum id (cut_chain box)) (resolveOutbound box outbound network)"

subsection \<open>Following selections ends\<close>

fun selection_ok :: "box \<Rightarrow> outbound_object \<Rightarrow> bool" where
  "selection_ok box (SelectorOutbound s) \<longleftrightarrow> set_option (sSelected s) \<subseteq> set (sTags s)"
| "selection_ok box (URLTestOutbound tags g) \<longleftrightarrow>
     nTag ` (set (gOutbounds g) \<union> set_option (gSelectedTCP g) \<union> set_option (gSelectedUDP g)) \<subseteq> set tags \<and>
     (gBalancer g \<noteq> None \<and> box (gLastSelected g) \<noteq> None \<longrightarrow> gLastSelected g \<in> set tags)"
| "selection_ok box (LeafOutbound network deps) \<longleftrightarrow> True"

text \<open>
  A box made of the outbounds \<open>xs\<close>: the members of a group are the dependencies it was created
  with, and it points at one of them.
\<close>

definition box_of :: "'x adapter_scheme list \<Rightarrow> box \<Rightarrow> bool" where
  "box_of xs box \<longleftrightarrow> box '''' = None \<and> (\<forall>t ob. box t = Some ob \<and> isGroup (Some ob) \<longrightarrow>
     selection_ok box ob \<and>
     (\<forall>x\<in>set xs. adapterTag x = t \<longrightarrow> set (adapterDependencies x) = set (group_All ob)))"

lemma traverse_Some: "(\<And>x. x \<in> set xs \<Longrightarrow> f x \<noteq> None) \<Longrightarrow> \<exists>ys. traverse f xs = Some ys \<and> length ys = length xs"
proof (induction xs)
  case (Cons x xs)
  then obtain y ys where "f x = Some y" "traverse f xs = Some ys" "length ys = length xs" by fastforce
  then show ?case by simp
qed simp

lemma Select_member:
  assumes "Select rt network g = (Some n, e)"
  shows "n \<in> set (gOutbounds g) \<or> selected_for network g = Some n"
proof -
  have scan: "snd (select_scan tol history network ns d best) = Some n \<Longrightarrow> n \<in> set ns \<or> best = Some n"
    for tol history ns d best
    by (induction ns arbitrary: d best) (auto split: if_splits option.splits)
  from assms show ?thesis
    by (auto simp: Select_def find_Some_iff split: option.splits prod.splits dest!: scan)
qed

lemma group_Selected_member:
  assumes "selection_ok box ob" and "\<forall>t \<in> set (group_All ob). real t \<noteq> None"
  shows "\<exists>sel. group_Selected real box network ob = Some sel \<and> set_option sel \<subseteq> set (group_All ob)"
proof (cases ob)
  case (URLTestOutbound tags g)
  let ?cur = "if network = ''udp'' then gSelectedUDP g else gSelectedTCP g"
  have "real (nTag n) \<noteq> None" if "n \<in> set (gOutbounds g)" for n
    using assms that URLTestOutbound by auto
  with traverse_Some [of "gOutbounds g" "\<lambda>n. real (nTag n)"]
  obtain ys where tr: "traverse (\<lambda>n. real (nTag n)) (gOutbounds g) = Some ys" by blast
  have "nTag n \<in> set tags" if "fst (Select rt network g) = Some n" for rt n
    using Select_member [of rt network g n] that assms(1) URLTestOutbound
    by (cases "Select rt network g") (auto simp: selected_for_def split: if_splits)
  moreover have "nTag n \<in> set tags" if "?cur = Some n" for n
    using that assms(1) URLTestOutbound by (auto split: if_splits)
  ultimately show ?thesis
    using assms(1) URLTestOutbound tr by (auto simp: URLTest_Selected_def split: option.split)
qed (use assms in auto)


fun follows :: "box \<Rightarrow> string \<Rightarrow> string list \<Rightarrow> bool" where
  "follows box network [] \<longleftrightarrow> False"
| "follows box network [t] \<longleftrightarrow> \<not> isGroup (box t)"
| "follows box network (t # u # ts) \<longleftrightarrow>
     isGroup (box t) \<and> Selected box network (the (box t)) = Some (Some u) \<and> follows box network (u # ts)"

definition resolves :: "box \<Rightarrow> string \<Rightarrow> string list \<Rightarrow> string \<Rightarrow> bool" where
  "resolves box network chain t \<longleftrightarrow>
     (\<exists>r. RealTag box network t = Some r \<and> \<not> isGroup (box r) \<and>
       (if network \<in> set (leaf_Network (box r))
        then \<exists>ts. resolve_loop box network chain t = Some (Inr (chain @ ts)) \<and>
               follows box network (t # ts) \<and> last (t # ts) = r
        else \<exists>u. resolve_loop box network chain t = Some (Inl (NotSupported network u))))"

lemma resolves_startable:
  assumes "startable xs t" and "box_of xs box"
  shows "resolves box network chain t"
  using assms(1)
proof (induction arbitrary: chain rule: startable.induct)
  case (1 x)
  show ?case
  proof (cases "isGroup (box (adapterTag x))")
    case True
    then obtain ob where ob: "box (adapterTag x) = Some ob" by (cases "box (adapterTag x)") auto
    with True assms(2) 1(1) have ok: "selection_ok box ob" "set (group_All ob) = set (adapterDependencies x)"
      by (auto simp: box_of_def)
    have "\<forall>d \<in> set (group_All ob). RealTag box network d \<noteq> None"
      using 1(3) ok(2) by (fastforce simp: resolves_def)
    from group_Selected_member [OF ok(1) this, of network]
    obtain sel where sel: "group_Selected (RealTag box network) box network ob = Some sel"
        "set_option sel \<subseteq> set (adapterDependencies x)" unfolding ok(2) by blast
    show ?thesis
    proof (cases sel)
      case None
      have "RealTag box network (adapterTag x) = Some ''''"
        using None sel True ob by (subst RealTag.simps) simp
      moreover have "resolve_loop box network chain (adapterTag x) = Some (Inl (NotSupported network (adapterTag x)))"
        using None sel True ob by (subst resolve_loop.simps) (simp add: Selected_def)
      moreover have "box '''' = None" using assms(2) by (simp add: box_of_def)
      ultimately show ?thesis by (simp add: resolves_def leaf_Network_def)
    next
      case (Some d)
      have "RealTag box network (adapterTag x) = RealTag box network d"
        using Some sel True ob by (subst RealTag.simps) simp
      moreover have "resolve_loop box network chain (adapterTag x) = resolve_loop box network (chain @ [d]) d"
        using Some sel True ob by (subst resolve_loop.simps) (simp add: Selected_def)
      moreover have "Selected box network (the (box (adapterTag x))) = Some (Some d)"
        using Some sel ob by (simp add: Selected_def)
      moreover have "resolves box network (chain @ [d]) d" using 1(3) Some sel(2) by simp
      ultimately show ?thesis using True by (fastforce simp: resolves_def)
    qed
  next
    case False
    have "RealTag box network (adapterTag x) = Some (adapterTag x)" "resolve_loop box network chain (adapterTag x) =
        Some (if network \<in> set (leaf_Network (box (adapterTag x))) then Inr chain
              else Inl (NotSupported network (adapterTag x)))"
      using False by (subst RealTag.simps resolve_loop.simps, simp)+
    with False show ?thesis by (auto simp: resolves_def)
  qed
qed

lemma resolve_loop_follows:
  assumes "resolve_loop box network chain t = Some r" and "r = Inr c"
  shows "\<exists>ts. c = chain @ ts \<and> follows box network (t # ts) \<and> network \<in> set (leaf_Network (box (last (t # ts))))"
proof -
  have "\<forall>ch. r = Inr ch \<longrightarrow>
      (\<exists>ts. ch = chain @ ts \<and> follows box network (t # ts) \<and> network \<in> set (leaf_Network (box (last (t # ts)))))"
    by (rule resolve_loop.raw_induct [OF _ assms(1)]) (fastforce split: if_splits option.splits bind_splits)
  with assms(2) show ?thesis by blast
qed

lemma startOutbounds_startable:
  assumes "distinct (map adapterTag xs)" and "startOutbounds L start xs st = (Inr started, st')"
  shows "\<forall>x\<in>set xs. startable xs (adapterTag x)"
  using start_rounds_contract [OF assms(1) assms(2) [unfolded startOutbounds_def]]
  by (simp add: start_contract_def)

lemma cut_chain_spec:
  "chain \<noteq> [] \<Longrightarrow> prefix (cut_chain box chain) chain \<and> cut_chain box chain \<noteq> [] \<and>
    (\<forall>u\<in>set (butlast (cut_chain box chain)). \<not> isPerConnection (box u)) \<and>
    (cut_chain box chain = chain \<or> isPerConnection (box (last (cut_chain box chain))))"
  by (induction box chain rule: cut_chain.induct) auto

text \<open>
  C21: Following the selections of groups ends and agrees. In a box whose outbounds the
  manager has started, \<open>RealTag\<close> returns for every outbound and network, and what it returns is no
  group. The router resolves the same outbound through the same members: it refuses the connection exactly
  when that node lacks the network, and otherwise gets the chain of selections down to it,
  of which the connection is given the part up to the first group that picks per connection.
\<close>

theorem resolve_started:
  assumes "distinct (map adapterTag xs)" and "startOutbounds L start xs st = (Inr started, st')"
    and "box_of xs box" and "t \<in> adapterTag ` set xs"
  shows "\<exists>r. RealTag box network t = Some r \<and> \<not> isGroup (box r) \<and>
    (if network \<in> set (leaf_Network (box r))
     then \<exists>chain cut. resolveOutbound box t network = Some (Inr chain) \<and> hd chain = t \<and> last chain = r \<and>
       follows box network chain \<and> resolveOutboundLx box t network = Some (Inr cut) \<and> prefix cut chain \<and>
       (\<forall>u\<in>set (butlast cut). \<not> isPerConnection (box u)) \<and>
       (cut = chain \<or> isPerConnection (box (last cut)))
     else \<exists>u. resolveOutboundLx box t network = Some (Inl (NotSupported network u)))"
proof -
  from startOutbounds_startable [OF assms(1,2)] assms(4) have "startable xs t" by auto
  from resolves_startable [OF this assms(3), of network "[t]"]
  obtain r where r: "RealTag box network t = Some r" "\<not> isGroup (box r)"
    and run: "if network \<in> set (leaf_Network (box r))
      then \<exists>ts. resolveOutbound box t network = Some (Inr (t # ts)) \<and> follows box network (t # ts) \<and> last (t # ts) = r
      else \<exists>u. resolveOutbound box t network = Some (Inl (NotSupported network u))"
    unfolding resolves_def resolveOutbound_def append_Cons append_Nil by blast
  show ?thesis
  proof (cases "network \<in> set (leaf_Network (box r))")
    case True
    with run obtain ts where ts: "resolveOutbound box t network = Some (Inr (t # ts))"
      "follows box network (t # ts)" "last (t # ts) = r" by auto
    moreover have "resolveOutboundLx box t network = Some (Inr (cut_chain box (t # ts)))"
      using ts(1) by (simp add: resolveOutboundLx_def)
    ultimately show ?thesis
      using True r cut_chain_spec [of "t # ts" box] by (intro exI [of _ r]) (auto simp del: cut_chain.simps)
  next
    case False
    with run r show ?thesis by (auto simp: resolveOutboundLx_def)
  qed
qed

definition sample_box :: box where
  "sample_box = [''s'' \<mapsto> SelectorOutbound \<lparr>sTag = ''s'', sTags = [''g'', ''a''], sDefaultTag = '''',
       sOutbounds = [''g'', ''a''], sSelected = Some ''g''\<rparr>,
     ''g'' \<mapsto> URLTestOutbound [''a'', ''b'', ''c''] (two_nodes 50 120 90),
     ''a'' \<mapsto> LeafOutbound [''tcp''] [], ''b'' \<mapsto> LeafOutbound [''tcp''] [], ''c'' \<mapsto> LeafOutbound [''tcp''] []]"

definition sample_outbounds :: "outbound list" where
  "sample_outbounds = [sample_outbound ''s'' [''g'', ''a''], sample_outbound ''g'' [''a'', ''b'', ''c''],
     sample_outbound ''a'' [], sample_outbound ''b'' [], sample_outbound ''c'' []]"

theorem resolve_started_witness:
  "RealTag sample_box ''tcp'' ''s'' = Some ''a'' \<and>
   (\<exists>chain. resolveOutbound sample_box ''s'' ''tcp'' = Some (Inr chain) \<and> hd chain = ''s'' \<and> last chain = ''a'' \<and>
      follows sample_box ''tcp'' chain)"
proof -
  have "fst (startOutbounds sample_lib sample_start sample_outbounds sample_state) =
    Inr [''a'', ''b'', ''c'', ''g'', ''s'']" by code_simp
  then obtain st' where run: "startOutbounds sample_lib sample_start sample_outbounds sample_state =
    (Inr [''a'', ''b'', ''c'', ''g'', ''s''], st')" by (metis prod.collapse)
  have box: "box_of sample_outbounds sample_box"
    by (auto simp: box_of_def sample_box_def sample_outbounds_def sample_outbound_def two_nodes_simps
        split: if_splits)
  have a: "RealTag sample_box ''tcp'' ''a'' = Some ''a''"
    by (subst RealTag.simps) (simp add: sample_box_def)
  have g: "RealTag sample_box ''tcp'' ''g'' = Some ''a''"
    using a by (subst RealTag.simps) (simp add: sample_box_def URLTest_Selected_def two_nodes_simps)
  have "RealTag sample_box ''tcp'' ''s'' = Some ''a''"
    using g by (subst RealTag.simps) (simp add: sample_box_def)
  moreover have "distinct (map adapterTag sample_outbounds)" "''s'' \<in> adapterTag ` set sample_outbounds"
    by (simp_all add: sample_outbounds_def sample_outbound_def)
  ultimately show ?thesis
    using resolve_started [OF _ run box, of "''s''" "''tcp''"] by (auto simp: sample_box_def leaf_Network_def)
qed

subsection \<open>The choice of a selector\<close>

lemma load_outbounds_ok:
  "load_outbounds known i tags s = (None, s1) \<Longrightarrow>
    s1 = s\<lparr>sOutbounds := fold List.insert tags (sOutbounds s)\<rparr> \<and> (\<forall>t\<in>set tags. known t)"
proof (induction tags arbitrary: i s)
  case (Cons t ts)
  then have "known t" "load_outbounds known (i + 1) ts (s\<lparr>sOutbounds := List.insert t (sOutbounds s)\<rparr>) = (None, s1)"
    by (auto split: if_splits)
  with Cons.IH [OF this(2)] show ?case by simp
qed simp

lemma set_fold_insert [simp]: "set (fold List.insert xs ys) = set xs \<union> set ys"
  by (induction xs arbitrary: ys) auto

definition loaded :: "selector \<Rightarrow> selector" where
  "loaded s = s\<lparr>sOutbounds := fold List.insert (sTags s) (sOutbounds s)\<rparr>"

text \<open>The calls of a client, each with the history present or not, all stored.\<close>

definition select_all :: "(bool \<times> string) list \<Rightarrow> selector \<times> (string \<Rightarrow> string) option \<Rightarrow> selector \<times> (string \<Rightarrow> string) option" where
  "select_all calls sc = fold (\<lambda>(h, tag) sc. fst (snd (SelectOutbound True h tag sc))) calls sc"

text \<open>What the selector would choose on a start with the cache as it is.\<close>

definition restarts_as :: "(string \<Rightarrow> bool) \<Rightarrow> selector \<Rightarrow> selector \<times> (string \<Rightarrow> string) option \<Rightarrow> bool" where
  "restarts_as known s0 sc \<longleftrightarrow> snd sc \<noteq> None \<and>
     fst sc = (loaded s0)\<lparr>sSelected := sSelected (fst sc)\<rparr> \<and>
     set_option (sSelected (fst sc)) \<subseteq> set (sTags s0) \<and> sSelected (fst sc) \<noteq> None \<and>
     selector_Start known (snd sc) StartStateStart s0 = (None, fst sc)"

lemma selector_Start_restarts:
  assumes "NewSelector tag options = Inr s0" and "selector_Start known (Some cache) StartStateStart s0 = (None, s1)"
  shows "restarts_as known s0 (s1, Some cache)"
proof -
  from assms(1) have s0: "sOutbounds s0 = []" "sTags s0 \<noteq> []"
    by (auto simp: NewSelector_def split: if_splits option.splits)
  from assms(2) obtain s' where "load_outbounds known 0 (sTags s0) s0 = (None, s')"
    by (auto simp: selector_Start_def split: prod.splits option.splits)
  moreover from load_outbounds_ok [OF this] have "s' = loaded s0" by (simp add: loaded_def)
  ultimately have load: "load_outbounds known 0 (sTags s0) s0 = (None, loaded s0)" by simp
  have "set (sOutbounds (loaded s0)) = set (sTags s0)" "sTags (loaded s0) = sTags s0"
    using s0 by (simp_all add: loaded_def)
  with assms(2) s0 load obtain x where "s1 = (loaded s0)\<lparr>sSelected := Some x\<rparr>" "x \<in> set (sTags s0)"
    by (auto simp: selector_Start_def cached_choice_def Let_def split: option.splits if_splits list.splits)
  with assms(2) show ?thesis by (simp add: restarts_as_def)
qed

lemma SelectOutbound_restarts:
  assumes "restarts_as known s0 sc" and "sOutbounds s0 = []" and "sTag s0 \<noteq> ''''" and "\<not> known ''''"
  shows "restarts_as known s0 (fst (snd (SelectOutbound True h tag sc)))"
proof -
  obtain s c where sc: "sc = (s, Some c)" using assms(1) by (cases sc) (auto simp: restarts_as_def)
  note r = assms(1) [unfolded restarts_as_def sc fst_conv snd_conv]
  have load: "load_outbounds known 0 (sTags s0) s0 = (None, loaded s0)" and kn: "\<forall>t\<in>set (sTags s0). known t"
    using r load_outbounds_ok [of known 0 "sTags s0" s0]
    by (auto simp: selector_Start_def loaded_def split: prod.splits option.splits)
  have L: "set (sOutbounds (loaded s0)) = set (sTags s0)" "sTag (loaded s0) = sTag s0"
    using assms(2) by (simp_all add: loaded_def)
  obtain x where sx: "s = (loaded s0)\<lparr>sSelected := x\<rparr>" using r by blast
  have s: "set (sOutbounds s) = set (sTags s0)" "sTag s = sTag s0" using L by (simp_all add: sx)
  show ?thesis
  proof (cases "tag \<in> set (sOutbounds s) \<and> sSelected s \<noteq> Some tag")
    case True
    then have "tag \<noteq> ''''" using s kn assms(4) by auto
    with True s L assms(3) load
    have "selector_Start known (Some (c(sTag s := tag))) StartStateStart s0 = (None, (loaded s0)\<lparr>sSelected := Some tag\<rparr>)"
      by (simp add: selector_Start_def cached_choice_def)
    with True s assms(3) show ?thesis by (simp add: restarts_as_def sc SelectOutbound_def sx)
  next
    case False
    with assms(1) sc show ?thesis by (auto simp: SelectOutbound_def)
  qed
qed

lemma SelectOutbound_selected:
  "restarts_as known s0 sc \<Longrightarrow> sOutbounds s0 = [] \<Longrightarrow> sSelected (fst (fst (snd (SelectOutbound True h tag sc)))) =
    (if tag \<in> set (sTags s0) then Some tag else sSelected (fst sc))"
proof -
  assume r: "restarts_as known s0 sc" and s0: "sOutbounds s0 = []"
  then obtain x where "fst sc = (loaded s0)\<lparr>sSelected := x\<rparr>" unfolding restarts_as_def by blast
  then have "set (sOutbounds (fst sc)) = set (sTags s0)" using s0 by (simp add: loaded_def)
  then show ?thesis by (cases sc) (simp add: SelectOutbound_def)
qed

lemma select_all_restarts:
  assumes "restarts_as known s0 sc" and "sOutbounds s0 = []" and "sTag s0 \<noteq> ''''" and "\<not> known ''''"
  shows "restarts_as known s0 (select_all calls sc) \<and>
    sSelected (fst (select_all calls sc)) = (case filter (\<lambda>t. t \<in> set (sTags s0)) (map snd calls) of
      [] \<Rightarrow> sSelected (fst sc) | t # ts \<Rightarrow> Some (last (t # ts)))"
  using assms(1)
proof (induction calls arbitrary: sc)
  case (Cons c calls)
  let ?sc = "fst (snd (SelectOutbound True (fst c) (snd c) sc))"
  have step: "select_all (c # calls) sc = select_all calls ?sc" by (simp add: select_all_def case_prod_beta)
  from SelectOutbound_restarts [OF Cons.prems assms(2-4)] have "restarts_as known s0 ?sc" .
  from Cons.IH [OF this] SelectOutbound_selected [OF Cons.prems assms(2), of "fst c" "snd c"]
  show ?case unfolding step by (auto split: list.splits)
qed (simp add: select_all_def)

text \<open>
  C29: A selector remembers its choice. After it was started and clients have called
  \<open>SelectOutbound\<close> any number of times, a new start of the same selector with the cache file as it is
  then comes up in the same state; its choice is one of the configured members, the
  member asked for last if there was one.
\<close>

theorem selector_restart:
  assumes "NewSelector tag options = Inr s0" and "tag \<noteq> ''''" and "\<not> known ''''"
    and "selector_Start known (Some cache) StartStateStart s0 = (None, s1)"
    and "select_all calls (s1, Some cache) = (s2, cache2)"
  shows "selector_Start known cache2 StartStateStart s0 = (None, s2) \<and>
    sSelected s2 = (case filter (\<lambda>t. t \<in> set (soOutbounds options)) (map snd calls) of
      [] \<Rightarrow> sSelected s1 | t # ts \<Rightarrow> Some (last (t # ts))) \<and>
    sSelected s2 \<in> Some ` set (soOutbounds options)"
proof -
  from assms(1) have s0: "sOutbounds s0 = []" "sTag s0 = tag" "sTags s0 = soOutbounds options"
    by (auto simp: NewSelector_def split: if_splits option.splits)
  from select_all_restarts [OF selector_Start_restarts [OF assms(1,4)] s0(1) _ assms(3), of calls, unfolded fst_conv] assms(2,5) s0
  have "restarts_as known s0 (s2, cache2)" and sel: "sSelected s2 =
    (case filter (\<lambda>t. t \<in> set (soOutbounds options)) (map snd calls) of
      [] \<Rightarrow> sSelected s1 | t # ts \<Rightarrow> Some (last (t # ts)))" by auto
  then have "selector_Start known cache2 StartStateStart s0 = (None, s2)" "sSelected s2 \<in> Some ` set (soOutbounds options)"
    using s0 by (auto simp: restarts_as_def)
  with sel show ?thesis by simp
qed

theorem selector_restart_witness:
  "let known = (\<lambda>t. t \<in> {''a'', ''b''}); cache = Some (\<lambda>_. '''');
       s0 = \<lparr>sTag = ''s'', sTags = [''a'', ''b''], sDefaultTag = '''', sOutbounds = [], sSelected = None\<rparr>;
       (s2, cache2) = select_all [(True, ''b''), (True, ''x'')] (snd (selector_Start known cache StartStateStart s0), cache)
   in selector_Start known cache2 StartStateStart s0 = (None, s2) \<and> sSelected s2 = Some ''b''"
proof -
  let ?known = "\<lambda>t. t \<in> {''a'', ''b''}" and ?cache = "\<lambda>_ :: string. '''' :: string"
  let ?s0 = "\<lparr>sTag = ''s'', sTags = [''a'', ''b''], sDefaultTag = '''', sOutbounds = [], sSelected = None\<rparr>"
  let ?s1 = "snd (selector_Start ?known (Some ?cache) StartStateStart ?s0)"
  have "NewSelector ''s'' \<lparr>soOutbounds = [''a'', ''b''], soDefault = ''''\<rparr> = Inr ?s0"
    by (simp add: NewSelector_def)
  moreover have "selector_Start ?known (Some ?cache) StartStateStart ?s0 = (None, ?s1)"
    by (simp add: selector_Start_def cached_choice_def)
  moreover obtain s2 cache2 where
    run: "select_all [(True, ''b''), (True, ''x'')] (?s1, Some ?cache) = (s2, cache2)" by (meson surj_pair)
  ultimately have "selector_Start ?known cache2 StartStateStart ?s0 = (None, s2)" "sSelected s2 = Some ''b''"
    using selector_restart [OF _ _ _ _ run, of "''s''" "\<lparr>soOutbounds = [''a'', ''b''], soDefault = ''''\<rparr>" ?s0 ?known]
    by simp_all
  then show ?thesis unfolding Let_def run by simp
qed

end
