(* ===== verification/ReferenceManager.thy ===== *)
theory ReferenceManager
  imports RuleReferences OutboundGroups
begin

text \<open>
  The reference manager (\<^verbatim>\<open>route/reference.go\<close>): which outbounds and DNS servers are in use, found from the rules,
  the static references and the references of the objects themselves, and the calls that
  tell each object whether to keep idle connections.

  \<^item> An object is seen as a \<open>ref_node\<close>. Its identity is a number, since the manager remembers objects and not
    tags; a replaced outbound is another object.
  \<^item> \<open>ref_loop\<close> is the work list of \<^verbatim>\<open>update\<close>, for servers and for outbounds. \<open>ref_reach\<close> is its
    specification.
  \<^item> \<open>update\<close> returns the calls it makes; \<open>apply_calls\<close> is what an object remembers of them.
\<close>

subsection \<open>Objects\<close>

record ref_node =
  nd_Id :: nat
  nd_Tag :: string
  nd_Dependencies :: "string list"
  nd_References :: "string list option"
  nd_Keeper :: bool

text \<open>
  What the managers of the box answer during one update. \<open>bvOutbound\<close> and \<open>bvTransport\<close> are the lookups by tag;
  the lookup of outbounds also finds endpoints. The references of inbounds, services and the
  HTTP client manager are \<^term>\<open>None\<close> for those that are no \<^verbatim>\<open>Referrer\<close>.
\<close>

record box_view =
  bvMode :: string
  bvOutbounds :: "ref_node list"
  bvOutbound :: "(string \<times> ref_node) list"
  bvDefaultOutbound :: "string option"
  bvEndpoints :: "string list"
  bvReferrers :: "string list option list"
  bvTransports :: "ref_node list"
  bvTransport :: "(string \<times> ref_node) list"
  bvDefaultTransport :: "string option"
  bvDomainResolver :: string

record reference_manager =
  rmRules :: "(route_options, route_action) rule_options list"
  rmDNSRules :: "(dns_options, dns_rule_action) rule_options list"
  rmStaticOutbounds :: "string list"
  rmStaticTransports :: "string list"
  rmKeepIdle :: "nat \<Rightarrow> bool option"
  rmUnreferenced :: "string list option"

text \<open>
  \<open>raw\<close> is \<^term>\<open>None\<close> for options without dialer options, and otherwise the server of the domain resolver, if there
  is one. \<open>ntp\<close> are the flag and the detour of the NTP options.
\<close>

definition appendDomainResolver :: "string list \<Rightarrow> string option option \<Rightarrow> string list" where
  "appendDomainResolver transports raw =
     (case raw of
        None \<Rightarrow> transports
      | Some None \<Rightarrow> transports
      | Some (Some server) \<Rightarrow> if server = '''' then transports else transports @ [server])"

definition NewReferenceManager ::
  "(bool \<times> string) option \<Rightarrow> string option option list \<Rightarrow> string option option list
   \<Rightarrow> (route_options, route_action) rule_options list option \<Rightarrow> (dns_options, dns_rule_action) rule_options list option
   \<Rightarrow> reference_manager" where
  "NewReferenceManager ntp outs eps route dns =
     \<lparr>rmRules = (case route of None \<Rightarrow> [] | Some rules \<Rightarrow> rules),
      rmDNSRules = (case dns of None \<Rightarrow> [] | Some rules \<Rightarrow> rules),
      rmStaticOutbounds =
        (case ntp of None \<Rightarrow> [] | Some (enabled, detour) \<Rightarrow> if enabled \<and> detour \<noteq> '''' then [detour] else []),
      rmStaticTransports = foldl appendDomainResolver (foldl appendDomainResolver [] outs) eps,
      rmKeepIdle = (\<lambda>_. None), rmUnreferenced = None\<rparr>"

subsection \<open>The work list\<close>

text \<open>
  \<open>succs\<close> gives the tags an object appends to the queue and those it appends to the other queue.
\<close>

function ref_loop ::
  "(string \<times> 'n) list \<Rightarrow> ('n \<Rightarrow> string list \<times> string list) \<Rightarrow> string list \<Rightarrow> string list \<Rightarrow> string list
   \<Rightarrow> string list \<times> string list" where
  "ref_loop objs succs [] referenced other = (referenced, other)"
| "ref_loop objs succs (tag # queue) referenced other =
     (if tag = '''' \<or> tag \<in> set referenced then ref_loop objs succs queue referenced other
      else case map_of objs tag of
             None \<Rightarrow> ref_loop objs succs queue referenced other
           | Some obj \<Rightarrow>
               ref_loop objs succs (queue @ fst (succs obj)) (tag # referenced) (other @ snd (succs obj)))"
  by pat_completeness auto
termination
proof (relation "measures [\<lambda>(objs, succs, queue, referenced, other). card (fst ` set objs - set referenced),
    \<lambda>(objs, succs, queue, referenced, other). length queue]", goal_cases)
  case (4 objs succs tag queue referenced other obj)
  then have "tag \<in> fst ` set objs" by (auto dest!: map_of_SomeD intro: rev_image_eqI)
  with 4 have "fst ` set objs - set (tag # referenced) \<subset> fst ` set objs - set referenced" by auto
  then have "card (fst ` set objs - set (tag # referenced)) < card (fst ` set objs - set referenced)"
    by (intro psubset_card_mono) auto
  then show ?case by simp
qed auto

definition transport_succs :: "ref_node \<Rightarrow> string list \<times> string list" where
  "transport_succs n = (nd_Dependencies n, case nd_References n of None \<Rightarrow> [] | Some tags \<Rightarrow> tags)"

definition outbound_succs :: "ref_node \<Rightarrow> string list \<times> string list" where
  "outbound_succs n = (case nd_References n of None \<Rightarrow> nd_Dependencies n | Some tags \<Rightarrow> tags, [])"

definition transport_queue :: "reference_manager \<Rightarrow> box_view \<Rightarrow> string list" where
  "transport_queue rm v =
     (let (shadowed, queue) = collectDNSRuleReferences (rmDNSRules rm) (bvMode v) (rmStaticTransports rm);
          queue = (if shadowed then queue else queue @ (case bvDefaultTransport v of None \<Rightarrow> [] | Some tag \<Rightarrow> [tag]))
      in queue @ [bvDomainResolver v])"

text \<open>Both queues before the work lists start.\<close>

definition queues :: "reference_manager \<Rightarrow> box_view \<Rightarrow> string list \<times> string list" where
  "queues rm v =
     (let (shadowed, outs, transports) =
            collectRuleReferences (rmRules rm) (bvMode v) (rmStaticOutbounds rm) (transport_queue rm v);
          outs = (if shadowed then outs else outs @ (case bvDefaultOutbound v of None \<Rightarrow> [] | Some tag \<Rightarrow> [tag]));
          outs = outs @ bvEndpoints v;
          outs = outs @ concat (map (\<lambda>r. case r of None \<Rightarrow> [] | Some tags \<Rightarrow> tags) (bvReferrers v))
      in (outs, transports))"

definition referenced_sets :: "reference_manager \<Rightarrow> box_view \<Rightarrow> string list \<times> string list" where
  "referenced_sets rm v =
     (let (outs, transports) = queues rm v;
          (referencedTransports, outs) = ref_loop (bvTransport v) transport_succs transports [] outs;
          (referencedOutbounds, _) = ref_loop (bvOutbound v) outbound_succs outs [] []
      in (referencedOutbounds, referencedTransports))"

subsection \<open>Telling the objects\<close>

datatype idle_call = SetKeepIdleConnections nat bool | Reset nat | CloseIdleConnections_call nat

definition applyKeepIdle ::
  "(nat \<Rightarrow> bool option) \<Rightarrow> ref_node \<Rightarrow> bool \<Rightarrow> (nat \<Rightarrow> bool option) \<times> idle_call list \<Rightarrow> (nat \<Rightarrow> bool option) \<times> idle_call list" where
  "applyKeepIdle previous n keep ks =
     (let (keepIdle, calls) = ks
      in (keepIdle(nd_Id n \<mapsto> keep),
          if previous (nd_Id n) = Some keep then calls else calls @ [SetKeepIdleConnections (nd_Id n) keep]))"

fun keep_outbounds ::
  "(nat \<Rightarrow> bool option) \<Rightarrow> string list \<Rightarrow> ref_node list \<Rightarrow> (nat \<Rightarrow> bool option) \<times> idle_call list
   \<Rightarrow> (nat \<Rightarrow> bool option) \<times> idle_call list" where
  "keep_outbounds previous referenced [] ks = ks"
| "keep_outbounds previous referenced (n # ns) ks =
     (if \<not> nd_Keeper n then keep_outbounds previous referenced ns ks
      else keep_outbounds previous referenced ns (applyKeepIdle previous n (nd_Tag n \<in> set referenced) ks))"

fun keep_transports ::
  "(nat \<Rightarrow> bool option) \<Rightarrow> string list option \<Rightarrow> string list \<Rightarrow> ref_node list
   \<Rightarrow> (nat \<Rightarrow> bool option) \<times> idle_call list \<Rightarrow> string list \<Rightarrow> ((nat \<Rightarrow> bool option) \<times> idle_call list) \<times> string list" where
  "keep_transports previous wasUnreferenced referenced [] ks unreferenced = (ks, unreferenced)"
| "keep_transports previous wasUnreferenced referenced (n # ns) ks unreferenced =
     (let tag = nd_Tag n; isReferenced = (tag \<in> set referenced)
      in if nd_Keeper n then
           keep_transports previous wasUnreferenced referenced ns (applyKeepIdle previous n isReferenced ks) unreferenced
         else if isReferenced then keep_transports previous wasUnreferenced referenced ns ks unreferenced
         else keep_transports previous wasUnreferenced referenced ns
           (case wasUnreferenced of
              None \<Rightarrow> ks
            | Some tags \<Rightarrow> if tag \<in> set tags then ks else (fst ks, snd ks @ [Reset (nd_Id n)]))
           (unreferenced @ [tag]))"

definition update :: "box_view \<Rightarrow> reference_manager \<Rightarrow> reference_manager \<times> idle_call list" where
  "update v rm =
     (let (referencedOutbounds, referencedTransports) = referenced_sets rm v;
          ks = keep_outbounds (rmKeepIdle rm) referencedOutbounds (bvOutbounds v) (\<lambda>_. None, []);
          ((keepIdle, calls), unreferenced) =
            keep_transports (rmKeepIdle rm) (rmUnreferenced rm) referencedTransports (bvTransports v) ks []
      in (rm\<lparr>rmKeepIdle := keepIdle, rmUnreferenced := Some unreferenced\<rparr>, calls))"

definition rm_CloseIdleConnections :: "box_view \<Rightarrow> idle_call list" where
  "rm_CloseIdleConnections v =
     map (\<lambda>n. CloseIdleConnections_call (nd_Id n)) (filter nd_Keeper (bvOutbounds v @ bvTransports v))"

subsection \<open>The work list computes a closure\<close>

inductive_set ref_reach :: "(string \<times> 'n) list \<Rightarrow> ('n \<Rightarrow> string list \<times> string list) \<Rightarrow> string set \<Rightarrow> string set"
  for objs succs seeds where
  seed: "t \<in> seeds \<Longrightarrow> t \<noteq> '''' \<Longrightarrow> map_of objs t = Some obj \<Longrightarrow> t \<in> ref_reach objs succs seeds"
| succ: "u \<in> ref_reach objs succs seeds \<Longrightarrow> map_of objs u = Some obj' \<Longrightarrow> t \<in> set (fst (succs obj')) \<Longrightarrow> t \<noteq> '''' \<Longrightarrow>
    map_of objs t = Some obj \<Longrightarrow> t \<in> ref_reach objs succs seeds"

definition emitted :: "(string \<times> 'n) list \<Rightarrow> ('n \<Rightarrow> string list \<times> string list) \<Rightarrow> string set \<Rightarrow> string set" where
  "emitted objs succs T = (\<Union>t\<in>T. case map_of objs t of None \<Rightarrow> {} | Some obj \<Rightarrow> set (snd (succs obj)))"

definition covered :: "(string \<times> 'n) list \<Rightarrow> ('n \<Rightarrow> string list \<times> string list) \<Rightarrow> string set \<Rightarrow> string set \<Rightarrow> bool" where
  "covered objs succs T Q \<longleftrightarrow> (\<forall>u obj' t. u \<in> T \<and> map_of objs u = Some obj' \<and> t \<in> set (fst (succs obj')) \<and> t \<noteq> '''' \<and>
     map_of objs t \<noteq> None \<longrightarrow> t \<in> T \<or> t \<in> Q)"

lemma ref_loop_spec:
  assumes "covered objs succs (set referenced) (set queue)" "set referenced \<subseteq> ref_reach objs succs S"
    "\<forall>t\<in>set queue. t \<noteq> '''' \<and> map_of objs t \<noteq> None \<longrightarrow> t \<in> ref_reach objs succs S"
    "\<forall>t\<in>S. t \<noteq> '''' \<and> map_of objs t \<noteq> None \<longrightarrow> t \<in> set referenced \<union> set queue"
    "set other = X \<union> emitted objs succs (set referenced)"
  shows "set (fst (ref_loop objs succs queue referenced other)) = ref_reach objs succs S \<and>
    set (snd (ref_loop objs succs queue referenced other)) = X \<union> emitted objs succs (ref_reach objs succs S)"
  using assms
proof (induction objs succs queue referenced other rule: ref_loop.induct)
  case (1 objs succs referenced other)
  have "t \<in> set referenced" if "t \<in> ref_reach objs succs S" for t
    using that by (induction rule: ref_reach.induct) (use 1 in \<open>force simp: covered_def\<close>)+
  then have "set referenced = ref_reach objs succs S" using 1 by blast
  then show ?case using 1 by simp
next
  case (2 objs succs tag queue referenced other)
  show ?case
  proof (cases "tag = '''' \<or> tag \<in> set referenced \<or> map_of objs tag = None")
    case True
    have "covered objs succs (set referenced) (set queue)"
      using "2.prems"(1) True unfolding covered_def by (metis set_ConsD)
    moreover have "\<forall>t\<in>S. t \<noteq> '''' \<and> map_of objs t \<noteq> None \<longrightarrow> t \<in> set referenced \<union> set queue"
      using "2.prems"(4) True by fastforce
    moreover have "ref_loop objs succs (tag # queue) referenced other = ref_loop objs succs queue referenced other"
      using True by auto
    ultimately show ?thesis
      using "2.IH"(1,2) "2.prems" True by (cases "tag = '''' \<or> tag \<in> set referenced") simp_all
  next
    case False
    then obtain obj where obj: "tag \<noteq> ''''" "tag \<notin> set referenced" "map_of objs tag = Some obj" by auto
    then have tag: "tag \<in> ref_reach objs succs S" using "2.prems"(3) by simp
    have "ref_loop objs succs (tag # queue) referenced other =
        ref_loop objs succs (queue @ fst (succs obj)) (tag # referenced) (other @ snd (succs obj))"
      using obj by simp
    moreover have "covered objs succs (set (tag # referenced)) (set (queue @ fst (succs obj)))"
      using "2.prems"(1) obj by (auto simp: covered_def)
    moreover have "\<forall>t\<in>set (queue @ fst (succs obj)). t \<noteq> '''' \<and> map_of objs t \<noteq> None \<longrightarrow> t \<in> ref_reach objs succs S"
      using "2.prems"(3) tag obj(3) ref_reach.succ by fastforce
    moreover have "set (other @ snd (succs obj)) = X \<union> emitted objs succs (set (tag # referenced))"
      using "2.prems"(5) obj(3) by (auto simp: emitted_def)
    moreover have "\<forall>t\<in>S. t \<noteq> '''' \<and> map_of objs t \<noteq> None \<longrightarrow>
        t \<in> set (tag # referenced) \<union> set (queue @ fst (succs obj))"
      using "2.prems"(4) by auto
    ultimately show ?thesis
      using "2.IH"(3) [OF _ obj(3)] "2.prems"(2) obj tag by simp
  qed
qed

lemma ref_loop_closure:
  "set (fst (ref_loop objs succs queue [] other)) = ref_reach objs succs (set queue)"
  "set (snd (ref_loop objs succs queue [] other)) = set other \<union> emitted objs succs (ref_reach objs succs (set queue))"
proof -
  have q: "\<forall>t\<in>set queue. t \<noteq> '''' \<and> map_of objs t \<noteq> None \<longrightarrow> t \<in> ref_reach objs succs (set queue)"
    by (auto intro: ref_reach.seed)
  from ref_loop_spec [of objs succs "[]" queue "set queue" other "set other"] q
  show "set (fst (ref_loop objs succs queue [] other)) = ref_reach objs succs (set queue)"
    "set (snd (ref_loop objs succs queue [] other)) = set other \<union> emitted objs succs (ref_reach objs succs (set queue))"
    by (simp_all add: covered_def emitted_def)
qed

text \<open>
  C11: What is referenced. After an update the referenced servers are exactly those that can be reached from the queue
  of servers over dependencies, and the referenced outbounds exactly those that can be reached, over
  references of groups and dependencies of other outbounds, from the queue of outbounds together
  with what the referenced servers refer to; empty and unknown tags lead nowhere. The work lists
  always end, also when the objects refer to each other in a cycle.
\<close>

theorem referenced_closure:
  "(set (fst (referenced_sets rm v)), set (snd (referenced_sets rm v))) =
     (let servers = ref_reach (bvTransport v) transport_succs (set (snd (queues rm v)))
      in (ref_reach (bvOutbound v) outbound_succs (set (fst (queues rm v)) \<union> emitted (bvTransport v) transport_succs servers),
          servers))"
  by (simp add: referenced_sets_def Let_def case_prod_beta ref_loop_closure)

subsection \<open>What the objects are told\<close>

fun apply_call :: "idle_call \<Rightarrow> (nat \<Rightarrow> bool option) \<Rightarrow> nat \<Rightarrow> bool option" where
  "apply_call (SetKeepIdleConnections i keep) kept = kept(i \<mapsto> keep)"
| "apply_call _ kept = kept"

definition apply_calls :: "idle_call list \<Rightarrow> (nat \<Rightarrow> bool option) \<Rightarrow> nat \<Rightarrow> bool option" where
  "apply_calls calls kept = fold apply_call calls kept"

text \<open>The calls of \<^verbatim>\<open>loop\<close> over the views of the box at the times of its updates.\<close>

fun run_updates :: "box_view list \<Rightarrow> reference_manager \<times> (nat \<Rightarrow> bool option) \<Rightarrow> reference_manager \<times> (nat \<Rightarrow> bool option)" where
  "run_updates [] x = x"
| "run_updates (v # vs) (rm, kept) = (let (rm', calls) = update v rm in run_updates vs (rm', apply_calls calls kept))"

definition told :: "(nat \<Rightarrow> bool option) \<Rightarrow> (nat \<Rightarrow> bool option) \<times> idle_call list \<Rightarrow> bool" where
  "told kept ks \<longleftrightarrow> apply_calls (snd ks) kept = kept ++ fst ks"

abbreviation keeper_ids :: "ref_node list \<Rightarrow> nat list" where
  "keeper_ids ns \<equiv> map nd_Id (filter nd_Keeper ns)"

lemma applyKeepIdle_told:
  assumes "told kept ks" "previous \<subseteq>\<^sub>m kept" "fst ks (nd_Id n) = None"
  shows "told kept (applyKeepIdle previous n keep ks)"
    "fst (applyKeepIdle previous n keep ks) = (fst ks)(nd_Id n \<mapsto> keep)"
proof -
  obtain K calls where ks: "ks = (K, calls)" by (cases ks)
  have "kept (nd_Id n) = Some keep" if "previous (nd_Id n) = Some keep"
    using assms(2) that by (auto simp: map_le_def dom_def)
  then show "told kept (applyKeepIdle previous n keep ks)"
    using assms(1,3) ks by (auto simp: told_def applyKeepIdle_def apply_calls_def map_add_def fun_eq_iff)
  show "fst (applyKeepIdle previous n keep ks) = (fst ks)(nd_Id n \<mapsto> keep)"
    using ks by (simp add: applyKeepIdle_def)
qed

lemma told_reset: "told kept (K, calls) \<Longrightarrow> told kept (K, calls @ [Reset i])"
  by (simp add: told_def apply_calls_def)

definition keep_map :: "string list \<Rightarrow> ref_node list \<Rightarrow> nat \<Rightarrow> bool option" where
  "keep_map referenced ns = map_of (map (\<lambda>n. (nd_Id n, nd_Tag n \<in> set referenced)) (filter nd_Keeper ns))"

lemma keep_map_dom: "dom (keep_map referenced ns) = set (keeper_ids ns)"
  by (auto simp: keep_map_def dom_map_of_conv_image_fst image_image)

lemma keep_map_add:
  assumes "nd_Keeper n" "nd_Id n \<notin> set (keeper_ids ns)"
  shows "K ++ keep_map referenced (n # ns) = K(nd_Id n \<mapsto> nd_Tag n \<in> set referenced) ++ keep_map referenced ns"
  using assms map_add_upd_left [of "nd_Id n" "keep_map referenced ns" K] by (simp add: keep_map_dom) (simp add: keep_map_def)

lemma keep_map_skip: "\<not> nd_Keeper n \<Longrightarrow> keep_map referenced (n # ns) = keep_map referenced ns"
  by (simp add: keep_map_def)

lemma keep_map_keeper:
  assumes "n \<in> set ns" "nd_Keeper n" "distinct (keeper_ids ns)"
  shows "keep_map referenced ns (nd_Id n) = Some (nd_Tag n \<in> set referenced)"
  unfolding keep_map_def by (rule map_of_is_SomeI) (use assms in \<open>auto simp: comp_def\<close>)

lemma keep_outbounds_told:
  assumes "previous \<subseteq>\<^sub>m kept"
  shows "told kept ks \<Longrightarrow> distinct (keeper_ids ns) \<Longrightarrow> dom (fst ks) \<inter> set (keeper_ids ns) = {} \<Longrightarrow>
    told kept (keep_outbounds previous referenced ns ks) \<and>
    fst (keep_outbounds previous referenced ns ks) = fst ks ++ keep_map referenced ns"
proof (induction ns arbitrary: ks)
  case (Cons n ns)
  show ?case
  proof (cases "nd_Keeper n")
    case True
    let ?ks = "applyKeepIdle previous n (nd_Tag n \<in> set referenced) ks"
    have none: "fst ks (nd_Id n) = None" using Cons.prems(3) True by (auto simp: dom_def)
    note ap = applyKeepIdle_told [OF Cons.prems(1) assms none, of "nd_Tag n \<in> set referenced"]
    have d: "dom (fst ?ks) \<inter> set (keeper_ids ns) = {}" "distinct (keeper_ids ns)" "nd_Id n \<notin> set (keeper_ids ns)"
      using Cons.prems(2,3) True ap(2) by auto
    from Cons.IH [OF ap(1) d(2,1)] True show ?thesis
      by (simp only: keep_map_add [OF True d(3)] ap(2) keep_outbounds.simps keep_transports.simps Let_def if_True not_True_eq_False if_False)
  next
    case False
    then show ?thesis using Cons by (simp add: keep_map_skip)
  qed
qed (simp add: keep_map_def)

lemma keep_transports_told:
  assumes "previous \<subseteq>\<^sub>m kept"
  shows "told kept ks \<Longrightarrow> distinct (keeper_ids ns) \<Longrightarrow> dom (fst ks) \<inter> set (keeper_ids ns) = {} \<Longrightarrow>
    told kept (fst (keep_transports previous was referenced ns ks unreferenced)) \<and>
    fst (fst (keep_transports previous was referenced ns ks unreferenced)) = fst ks ++ keep_map referenced ns"
proof (induction ns arbitrary: ks unreferenced)
  case (Cons n ns)
  show ?case
  proof (cases "nd_Keeper n")
    case True
    let ?ks = "applyKeepIdle previous n (nd_Tag n \<in> set referenced) ks"
    have none: "fst ks (nd_Id n) = None" using Cons.prems(3) True by (auto simp: dom_def)
    note ap = applyKeepIdle_told [OF Cons.prems(1) assms none, of "nd_Tag n \<in> set referenced"]
    have d: "dom (fst ?ks) \<inter> set (keeper_ids ns) = {}" "distinct (keeper_ids ns)" "nd_Id n \<notin> set (keeper_ids ns)"
      using Cons.prems(2,3) True ap(2) by auto
    from Cons.IH [OF ap(1) d(2,1)] True show ?thesis
      by (simp only: keep_map_add [OF True d(3)] ap(2) keep_outbounds.simps keep_transports.simps Let_def if_True not_True_eq_False if_False)
  next
    case False
    have reset: "told kept (fst ks, snd ks @ [Reset (nd_Id n)])"
      using told_reset [of kept "fst ks" "snd ks"] Cons.prems(1) by simp
    show ?thesis
      using False Cons.IH [OF Cons.prems(1)] Cons.IH [OF reset] Cons.prems(2,3)
      by (cases was) (simp_all add: keep_map_skip Let_def)
  qed
qed (simp add: keep_map_def)

text \<open>The objects of a view that keep idle connections are different objects.\<close>

definition keepers_ok :: "box_view \<Rightarrow> bool" where
  "keepers_ok v \<longleftrightarrow> distinct (keeper_ids (bvOutbounds v @ bvTransports v))"

lemma update_told:
  assumes "keepers_ok v" "rmKeepIdle rm \<subseteq>\<^sub>m kept" "update v rm = (rm', calls)"
  shows "apply_calls calls kept = kept ++ rmKeepIdle rm'"
    "rmKeepIdle rm' = keep_map (fst (referenced_sets rm v)) (bvOutbounds v) ++ keep_map (snd (referenced_sets rm v)) (bvTransports v)"
    "referenced_sets rm' = referenced_sets rm"
proof -
  obtain RO RT where R: "referenced_sets rm v = (RO, RT)" by (cases "referenced_sets rm v")
  define ks where "ks = keep_outbounds (rmKeepIdle rm) RO (bvOutbounds v) (\<lambda>_. None, [])"
  obtain K un where T: "keep_transports (rmKeepIdle rm) (rmUnreferenced rm) RT (bvTransports v) ks [] = ((K, calls), un)"
      and rm': "rm' = rm\<lparr>rmKeepIdle := K, rmUnreferenced := Some un\<rparr>"
    using assms(3) R by (auto simp: update_def ks_def Let_def split: prod.splits)
  have "told kept (\<lambda>_. None, [])" by (simp add: told_def apply_calls_def)
  from keep_outbounds_told [OF assms(2) this, of "bvOutbounds v" RO] assms(1)
  have o: "told kept ks" "fst ks = keep_map RO (bvOutbounds v)" by (simp_all add: ks_def keepers_ok_def)
  have "dom (fst ks) \<inter> set (keeper_ids (bvTransports v)) = {}"
    using assms(1) by (auto simp: o(2) keep_map_dom keepers_ok_def)
  from keep_transports_told [OF assms(2) o(1) _ this, of "rmUnreferenced rm" RT "[]"] assms(1) T
  show "apply_calls calls kept = kept ++ rmKeepIdle rm'"
    "rmKeepIdle rm' = keep_map (fst (referenced_sets rm v)) (bvOutbounds v) ++ keep_map (snd (referenced_sets rm v)) (bvTransports v)"
    by (simp_all add: told_def rm' R o(2) keepers_ok_def)
  show "referenced_sets rm' = referenced_sets rm"
    by (rule ext) (simp add: referenced_sets_def queues_def transport_queue_def rm')
qed

lemma run_updates_told:
  assumes "list_all keepers_ok vs" "rmKeepIdle rm \<subseteq>\<^sub>m kept" "run_updates vs (rm, kept) = (rm', kept')"
  shows "rmKeepIdle rm' \<subseteq>\<^sub>m kept' \<and> referenced_sets rm' = referenced_sets rm"
  using assms
proof (induction vs arbitrary: rm kept)
  case (Cons v vs)
  obtain rm1 calls where u: "update v rm = (rm1, calls)" by (cases "update v rm")
  note t = update_told [OF _ Cons.prems(2) u]
  have "rmKeepIdle rm1 \<subseteq>\<^sub>m apply_calls calls kept" using Cons.prems(1) t(1) by simp
  from Cons.IH [OF _ this] Cons.prems(1,3) t(3) u show ?case by simp
qed simp

lemma run_updates_append: "run_updates (vs @ ws) x = run_updates ws (run_updates vs x)"
  by (induction vs x rule: run_updates.induct) (simp_all add: Let_def case_prod_beta)

lemma last_update_told:
  assumes "list_all keepers_ok (vs @ [v])" "rmKeepIdle rm \<subseteq>\<^sub>m kept" "run_updates (vs @ [v]) (rm, kept) = (rm', kept')"
    "referenced_sets rm v = (RO, RT)"
  shows "n \<in> set (bvOutbounds v) \<Longrightarrow> nd_Keeper n \<Longrightarrow> kept' (nd_Id n) = Some (nd_Tag n \<in> set RO)"
    "n \<in> set (bvTransports v) \<Longrightarrow> nd_Keeper n \<Longrightarrow> kept' (nd_Id n) = Some (nd_Tag n \<in> set RT)"
proof -
  obtain rm1 kept1 where r1: "run_updates vs (rm, kept) = (rm1, kept1)" by (cases "run_updates vs (rm, kept)")
  have i: "rmKeepIdle rm1 \<subseteq>\<^sub>m kept1" "referenced_sets rm1 = referenced_sets rm"
    using run_updates_told [OF _ assms(2) r1] assms(1) by auto
  obtain calls where u: "update v rm1 = (rm', calls)" "kept' = apply_calls calls kept1"
    using assms(3) r1 by (auto simp: run_updates_append Let_def split: prod.splits)
  have ok: "keepers_ok v" using assms(1) by simp
  note t = update_told [OF ok i(1) u(1)]
  have kept': "kept' = kept1 ++ (keep_map RO (bvOutbounds v) ++ keep_map RT (bvTransports v))"
    using t(1,2) u(2) i(2) assms(4) by simp
  show "kept' (nd_Id n) = Some (nd_Tag n \<in> set RO)" if "n \<in> set (bvOutbounds v)" "nd_Keeper n"
  proof -
    have "nd_Id n \<notin> dom (keep_map RT (bvTransports v))"
      using ok that by (auto simp: keep_map_dom keepers_ok_def)
    then show ?thesis
      using keep_map_keeper [OF that, of RO] ok by (simp add: kept' map_add_def keepers_ok_def domIff)
  qed
  show "kept' (nd_Id n) = Some (nd_Tag n \<in> set RT)" if "n \<in> set (bvTransports v)" "nd_Keeper n"
    using keep_map_keeper [OF that, of RT] ok by (simp add: kept' map_add_def keepers_ok_def)
qed

text \<open>
  C16: What the objects are told is what is referenced. Start the manager and let any number of updates run while
  outbounds and servers come, go and are replaced, in any order. After the last update every outbound and
  every server that keeps idle connections has been told last to keep them exactly if it is referenced now,
  although the manager only calls objects whose state it thinks has changed.
\<close>

theorem idle_flags_exact:
  assumes "list_all keepers_ok (vs @ [v])" "rm = NewReferenceManager ntp outs eps route dns"
    "run_updates (vs @ [v]) (rm, kept) = (rm', kept')"
  shows "(\<forall>n\<in>set (bvOutbounds v). nd_Keeper n \<longrightarrow> kept' (nd_Id n) = Some (nd_Tag n \<in> set (fst (referenced_sets rm v)))) \<and>
    (\<forall>n\<in>set (bvTransports v). nd_Keeper n \<longrightarrow> kept' (nd_Id n) = Some (nd_Tag n \<in> set (snd (referenced_sets rm v))))"
proof -
  have "rmKeepIdle rm \<subseteq>\<^sub>m kept" by (simp add: assms(2) NewReferenceManager_def)
  from last_update_told [OF assms(1) this assms(3)] show ?thesis by (cases "referenced_sets rm v") auto
qed

subsection \<open>Connections use referenced outbounds\<close>

fun object_view :: "outbound_object \<Rightarrow> ref_node \<Rightarrow> bool" where
  "object_view (SelectorOutbound s) n \<longleftrightarrow> nd_References n = Some (selector_References s)"
| "object_view (URLTestOutbound tags g) n \<longleftrightarrow> nd_References n = Some (URLTest_References (Some g))"
| "object_view (LeafOutbound network deps) n \<longleftrightarrow> nd_References n = None \<and> nd_Dependencies n = deps"

text \<open>The lookup of a view finds the outbounds of a box.\<close>

definition view_of_box :: "box \<Rightarrow> box_view \<Rightarrow> bool" where
  "view_of_box box v \<longleftrightarrow> box '''' = None \<and>
     (\<forall>t ob. box t = Some ob \<longrightarrow> (\<exists>n. map_of (bvOutbound v) t = Some n \<and> object_view ob n))"

lemma box_known:
  assumes "follows box network (t # ts)" "network \<in> set (leaf_Network (box (last (t # ts))))"
  shows "box t \<noteq> None"
proof (cases ts)
  case Nil
  then show ?thesis using assms(2) by (cases "box t") (auto simp: leaf_Network_def)
next
  case (Cons u us)
  then show ?thesis using assms(1) by (cases "box t") auto
qed

lemma view_known:
  assumes "view_of_box box v" "box t = Some ob"
  obtains n where "map_of (bvOutbound v) t = Some n" "object_view ob n" "t \<noteq> ''''"
  using assms unfolding view_of_box_def by (metis option.distinct(1))

lemma reach_seed:
  assumes "view_of_box box v" "t \<in> seeds" "box t \<noteq> None"
  shows "t \<in> ref_reach (bvOutbound v) succs seeds"
proof -
  obtain ob where "box t = Some ob" using assms(3) by auto
  with view_known [OF assms(1)] obtain n where "map_of (bvOutbound v) t = Some n" "t \<noteq> ''''" by metis
  then show ?thesis using assms(2) by (blast intro: ref_reach.seed)
qed

lemma reach_succ:
  assumes "view_of_box box v" "t \<in> ref_reach (bvOutbound v) outbound_succs seeds" "box t = Some ob"
    "\<And>n. object_view ob n \<Longrightarrow> u \<in> set (fst (outbound_succs n))" "box u \<noteq> None"
  shows "u \<in> ref_reach (bvOutbound v) outbound_succs seeds"
proof -
  obtain ob' where ob': "box u = Some ob'" using assms(5) by auto
  obtain n where "map_of (bvOutbound v) t = Some n" "object_view ob n" by (rule view_known [OF assms(1,3)])
  moreover obtain n' where "map_of (bvOutbound v) u = Some n'" "u \<noteq> ''''" by (rule view_known [OF assms(1) ob'])
  ultimately show ?thesis using assms(2,4) by (blast intro: ref_reach.succ)
qed

lemma cut_chain_referenced:
  assumes "view_of_box box v" "follows box network chain" "network \<in> set (leaf_Network (box (last chain)))"
    "hd chain \<in> ref_reach (bvOutbound v) outbound_succs seeds"
  shows "set (cut_chain box chain) \<subseteq> ref_reach (bvOutbound v) outbound_succs seeds"
  using assms
proof (induction box chain rule: cut_chain.induct)
  case (3 box t u ts)
  show ?case
  proof (cases "isPerConnection (box t)")
    case True
    with 3(5) show ?thesis by simp
  next
    case False
    with 3(3) obtain s where s: "box t = Some (SelectorOutbound s)"
      by (cases "box t" rule: isGroup.cases) auto
    have "sSelected s = Some u" using 3(3) s by (simp add: Selected_def)
    then have "u \<in> set (fst (outbound_succs n))" if "object_view (SelectorOutbound s) n" for n
      using that by (simp add: outbound_succs_def selector_References_def)
    moreover have "box u \<noteq> None" using box_known [of box network u ts] 3(3,4) by simp
    ultimately have "u \<in> ref_reach (bvOutbound v) outbound_succs seeds"
      using reach_succ [OF 3(2) _ s] 3(5) by simp
    with 3 False show ?thesis by simp
  qed
qed auto

text \<open>The outbound a selected action, or none, sends a connection to.\<close>

definition routed_to :: "box_view \<Rightarrow> route_action option \<Rightarrow> string \<Rightarrow> bool" where
  "routed_to v res t \<longleftrightarrow> (case res of None \<Rightarrow> bvDefaultOutbound v = Some t | Some a \<Rightarrow> t \<in> set (fst (action_targets a)))"

lemma routed_queued:
  assumes "installed (route_builder L) F (rmRules rm) rules" "list_all (decoded proper_route) (rmRules rm)"
    "bvMode v = current_mode E" "matchRule E act rules m = Some res" "routed_to v res t"
  shows "t \<in> set (fst (queues rm v))"
proof -
  obtain sh outs ts where c: "collectRuleReferences (rmRules rm) (current_mode E) (rmStaticOutbounds rm) (transport_queue rm v) =
      (sh, outs, ts)" by (metis surj_pair)
  from matchRule_collected(1) [OF assms(1,2) c assms(4)] assms(3,5) c show ?thesis
    by (cases res) (auto simp: queues_def routed_to_def)
qed

text \<open>
  C23: Connections use outbounds that keep their idle connections. Let the route rules be built from the options the
  manager has, none of them just \<^verbatim>\<open>invert\<close>, and run any updates. For every connection that arrives under the Clash mode, the
  selections and the members of groups of the last update, all outbounds of the chain the router resolves
  for it, from the outbound of the matched rule or the default outbound down to the first
  group that picks per connection, and the dependencies of the node at its end, are told to keep idle connections.
\<close>

theorem connection_outbounds_kept:
  assumes "installed (route_builder L) F rules_options rules" "list_all (decoded proper_route) rules_options"
    and "rm = NewReferenceManager ntp outs eps (Some rules_options) dns"
    and "list_all keepers_ok (vs @ [v])" "run_updates (vs @ [v]) (rm, kept) = (rm', kept')"
    and "bvMode v = current_mode E" "matchRule E act rules m = Some res" "routed_to v res t"
    and "view_of_box box v" "resolveOutboundLx box t network = Some (Inr chain)"
    and "n \<in> set (bvOutbounds v)" "nd_Keeper n"
    and "nd_Tag n \<in> set chain \<or>
      (\<exists>net deps. box (last chain) = Some (LeafOutbound net deps) \<and> nd_Tag n \<in> set deps \<and> box (nd_Tag n) \<noteq> None)"
  shows "kept' (nd_Id n) = Some True"
proof -
  have rm: "rmRules rm = rules_options" "rmKeepIdle rm \<subseteq>\<^sub>m kept" by (simp_all add: assms(3) NewReferenceManager_def)
  let ?R = "ref_reach (bvOutbound v) outbound_succs
    (set (fst (queues rm v)) \<union> emitted (bvTransport v) transport_succs (ref_reach (bvTransport v) transport_succs (set (snd (queues rm v)))))"
  have R: "set (fst (referenced_sets rm v)) = ?R"
    by (simp add: referenced_sets_def Let_def case_prod_beta ref_loop_closure)
  obtain z where z: "resolve_loop box network [t] t = Some z" "map_sum id (cut_chain box) z = Inr chain"
    using assms(10) by (auto simp: resolveOutboundLx_def resolveOutbound_def)
  then obtain full where full: "resolve_loop box network [t] t = Some (Inr full)" "chain = cut_chain box full"
    by (cases z) auto
  obtain ts where ts: "full = t # ts" "follows box network (t # ts)" "network \<in> set (leaf_Network (box (last (t # ts))))"
    using resolve_loop_follows [OF full(1) refl] by auto
  have "t \<in> set (fst (queues rm v))"
    using routed_queued [of L F rm rules v E act m res t] assms(1,2,6-8) rm(1) by simp
  then have "t \<in> ?R" using reach_seed [OF assms(9)] box_known [OF ts(2,3)] by blast
  then have chain: "set chain \<subseteq> ?R" using cut_chain_referenced [OF assms(9) ts(2,3)] full(2) ts(1) by simp
  have "nd_Tag n \<in> ?R"
    using assms(13)
  proof
    assume "\<exists>net deps. box (last chain) = Some (LeafOutbound net deps) \<and> nd_Tag n \<in> set deps \<and> box (nd_Tag n) \<noteq> None"
    then obtain net deps where d: "box (last chain) = Some (LeafOutbound net deps)" "nd_Tag n \<in> set deps" "box (nd_Tag n) \<noteq> None"
      by blast
    have "last chain \<in> ?R" using chain cut_chain_spec [of full box] full(2) ts(1) by auto
    then show ?thesis by (rule reach_succ [OF assms(9) _ d(1) _ d(3)]) (use d(2) in \<open>simp add: outbound_succs_def\<close>)
  qed (use chain in blast)
  then show ?thesis
    using last_update_told(1) [OF assms(4) rm(2) assms(5) _ assms(11,12)] R by (cases "referenced_sets rm v") simp
qed

subsection \<open>A small box\<close>

definition leaf_node :: "nat \<Rightarrow> string \<Rightarrow> ref_node" where
  "leaf_node i tag = \<lparr>nd_Id = i, nd_Tag = tag, nd_Dependencies = [], nd_References = None, nd_Keeper = True\<rparr>"

definition kept_selector :: selector where
  "kept_selector = \<lparr>sTag = ''proxy'', sTags = [''a'', ''b''], sDefaultTag = '''', sOutbounds = [''a'', ''b''], sSelected = Some ''b''\<rparr>"

definition kept_box :: box where
  "kept_box = [''proxy'' \<mapsto> SelectorOutbound kept_selector, ''a'' \<mapsto> LeafOutbound [''tcp''] [], ''b'' \<mapsto> LeafOutbound [''tcp''] []]"

definition kept_view :: box_view where
  "kept_view = \<lparr>bvMode = ''Rule'', bvOutbounds = [leaf_node 1 ''a'', leaf_node 2 ''b''],
     bvOutbound = [(''proxy'', \<lparr>nd_Id = 0, nd_Tag = ''proxy'', nd_Dependencies = [''a'', ''b''],
        nd_References = Some (selector_References kept_selector), nd_Keeper = False\<rparr>),
       (''a'', leaf_node 1 ''a''), (''b'', leaf_node 2 ''b'')],
     bvDefaultOutbound = Some ''a'', bvEndpoints = [], bvReferrers = [None, Some ['''']],
     bvTransports = [leaf_node 3 ''remote'', leaf_node 4 ''local''],
     bvTransport = [(''remote'', leaf_node 3 ''remote''), (''local'', leaf_node 4 ''local'')],
     bvDefaultTransport = Some ''local'', bvDomainResolver = ''''\<rparr>"

definition kept_manager :: reference_manager where
  "kept_manager = NewReferenceManager None [] [] (Some sample_route_options) (Some sample_dns_options)"

lemma kept_sets: "referenced_sets kept_manager kept_view = ([''b'', ''proxy''], [''remote''])"
  by code_simp

lemma kept_ok: "list_all keepers_ok ([kept_view] @ [kept_view])"
  by code_simp

theorem idle_flags_exact_witness:
  "let kept = snd (run_updates [kept_view, kept_view] (kept_manager, \<lambda>_. None))
   in kept 1 = Some False \<and> kept 2 = Some True \<and> kept 3 = Some True \<and> kept 4 = Some False"
proof -
  obtain rm' kept' where r: "run_updates ([kept_view] @ [kept_view]) (kept_manager, \<lambda>_. None) = (rm', kept')"
    by (metis surj_pair)
  from idle_flags_exact [OF kept_ok kept_manager_def r] r show ?thesis
    by (simp add: kept_sets) (simp add: kept_view_def leaf_node_def)
qed

lemma kept_chain: "resolveOutboundLx kept_box ''proxy'' ''tcp'' = Some (Inr [''proxy'', ''b''])"
proof -
  have "resolve_loop kept_box ''tcp'' [''proxy'', ''b''] ''b'' = Some (Inr [''proxy'', ''b''])"
    by (subst resolve_loop.simps) (simp add: kept_box_def leaf_Network_def)
  moreover have "resolve_loop kept_box ''tcp'' [''proxy''] ''proxy'' = resolve_loop kept_box ''tcp'' [''proxy'', ''b''] ''b''"
    by (subst resolve_loop.simps) (simp add: kept_box_def kept_selector_def Selected_def)
  ultimately show ?thesis
    by (simp add: resolveOutboundLx_def resolveOutbound_def kept_box_def)
qed

theorem connection_outbounds_kept_witness:
  "matchRule mode_env (\<lambda>a m. Some m) sample_rules sample_context = Some (Some (RouteAction ''proxy'')) \<and>
   snd (run_updates [kept_view, kept_view] (kept_manager, \<lambda>_. None)) 2 = Some True"
proof -
  obtain rm' kept' where r: "run_updates ([kept_view] @ [kept_view]) (kept_manager, \<lambda>_. None) = (rm', kept')"
    by (metis surj_pair)
  have m: "matchRule mode_env (\<lambda>a m. Some m) sample_rules sample_context = Some (Some (RouteAction ''proxy''))"
    by code_simp
  have d: "list_all (decoded proper_route) sample_route_options" by code_simp
  have mode: "bvMode kept_view = current_mode mode_env" by (simp add: kept_view_def current_mode_def mode_env_def)
  have to: "routed_to kept_view (Some (RouteAction ''proxy'')) ''proxy''" by (simp add: routed_to_def)
  have v: "view_of_box kept_box kept_view"
    by (simp add: view_of_box_def kept_box_def kept_view_def leaf_node_def)
  have "kept' (nd_Id (leaf_node 2 ''b'')) = Some True"
    by (rule connection_outbounds_kept [OF sample_installed d kept_manager_def kept_ok r mode m to v kept_chain])
      (simp_all add: kept_view_def leaf_node_def)
  with m r show ?thesis by (simp add: leaf_node_def)
qed

end
