(* ===== verification/RuleSetRefs.thy ===== *)
theory RuleSetRefs
  imports RuleEngine
begin

text \<open>
  Reference counts of rule-sets: \<^verbatim>\<open>Start\<close> and \<^verbatim>\<open>Close\<close> of \<^verbatim>\<open>RuleSetItem\<close>, and
  \<^verbatim>\<open>IncRef\<close>, \<^verbatim>\<open>DecRef\<close> and \<^verbatim>\<open>Cleanup\<close> of \<^verbatim>\<open>LocalRuleSet\<close>.

  The state is the counter of every rule-set, by tag, and the rule-sets each has loaded; an item's
  state is the list of the tags whose rule-sets it holds (its \<^verbatim>\<open>setList\<close>).  A counter is an
  \<^verbatim>\<open>atomic.Int32\<close>: a word of 32 bits that wraps around and is read with its sign.  A panic is
  \<^const>\<open>None\<close>.
\<close>

subsection \<open>Counters\<close>

type_synonym refs = "string \<Rightarrow> 32 word"

definition IncRef :: "string \<Rightarrow> refs \<Rightarrow> refs" where
  "IncRef t c = c(t := c t + 1)"

definition DecRef :: "string \<Rightarrow> refs \<Rightarrow> refs option" where
  "DecRef t c = (let n = c t - 1 in if sint n < 0 then None else Some (c(t := n)))"

definition Cleanup :: "string \<Rightarrow> refs \<Rightarrow> (string \<Rightarrow> rule list) \<Rightarrow> string \<Rightarrow> rule list" where
  "Cleanup t c loaded = (if c t = 0 then loaded(t := []) else loaded)"

subsection \<open>The item\<close>

fun release :: "string list \<Rightarrow> refs \<Rightarrow> refs option" where
  "release [] c = Some c"
| "release (t # ts) c = (case DecRef t c of None \<Rightarrow> None | Some c' \<Rightarrow> release ts c')"

definition RuleSetItem_Close :: "string list \<Rightarrow> refs \<Rightarrow> (string list \<times> refs) option" where
  "RuleSetItem_Close held c = (case release held c of None \<Rightarrow> None | Some c' \<Rightarrow> Some ([], c'))"

datatype start_error = RuleSetNotFound string

fun start_loop ::
  "(string \<Rightarrow> bool) \<Rightarrow> string list \<Rightarrow> string list \<Rightarrow> refs \<Rightarrow>
   ((start_error + unit) \<times> string list \<times> refs) option" where
  "start_loop router [] held c = Some (Inr (), held, c)"
| "start_loop router (t # ts) held c =
     (if \<not> router t then
        (case RuleSetItem_Close held c of None \<Rightarrow> None
         | Some (held', c') \<Rightarrow> Some (Inl (RuleSetNotFound t), held', c'))
      else start_loop router ts (held @ [t]) (IncRef t c))"

definition RuleSetItem_Start ::
  "(string \<Rightarrow> bool) \<Rightarrow> string list \<Rightarrow> string list \<Rightarrow> refs \<Rightarrow>
   ((start_error + unit) \<times> string list \<times> refs) option" where
  "RuleSetItem_Start router tags held c =
     (case RuleSetItem_Close held c of None \<Rightarrow> None
      | Some (held', c') \<Rightarrow> start_loop router tags held' c')"

subsection \<open>Lemmas\<close>

lemma sint_step:
  "sint w < 2 ^ 31 - 1 \<Longrightarrow> sint (w + 1) = sint w + 1" "0 \<le> sint w \<Longrightarrow> sint (w - 1) = sint w - 1" for w :: "32 word"
proof -
  have "- (2 ^ 31) \<le> sint w" "sint w < 2 ^ 31" using sint_greater_eq [of w] sint_less [of w] by simp_all
  then show "sint w < 2 ^ 31 - 1 \<Longrightarrow> sint (w + 1) = sint w + 1" "0 \<le> sint w \<Longrightarrow> sint (w - 1) = sint w - 1"
    by (simp_all add: sint_word_ariths signed_take_bit_int_eq_self)
qed

text \<open>The references held by others than the item, and whether there is room for more.\<close>

definition others :: "refs \<Rightarrow> string list \<Rightarrow> string \<Rightarrow> int" where
  "others c held = (\<lambda>t. sint (c t) - int (count_list held t))"

definition covers :: "refs \<Rightarrow> string list \<Rightarrow> bool" where
  "covers c held \<longleftrightarrow> (\<forall>t. 0 \<le> others c held t)"

definition room :: "refs \<Rightarrow> string list \<Rightarrow> string list \<Rightarrow> bool" where
  "room c held tags \<longleftrightarrow> (\<forall>t. others c held t + int (count_list tags t) < 2 ^ 31)"

lemma others_Nil [simp]: "others c [] = (\<lambda>t. sint (c t))"
  by (simp add: others_def)

lemma others_dec: "0 \<le> sint (c t) \<Longrightarrow> others (c(t := c t - 1)) ts = others c (t # ts)"
  by (auto simp: others_def sint_step(2) fun_eq_iff)

lemma others_inc: "sint (c t) < 2 ^ 31 - 1 \<Longrightarrow> others (IncRef t c) (held @ [t]) = others c held"
  by (auto simp: others_def IncRef_def sint_step(1) fun_eq_iff)

lemma covers_Cons: "covers c (t # ts) \<Longrightarrow> 1 \<le> sint (c t)"
proof -
  assume "covers c (t # ts)"
  then have "0 \<le> others c (t # ts) t" by (simp add: covers_def)
  then show ?thesis by (simp add: others_def)
qed

lemma release_covers: "covers c held \<Longrightarrow> \<exists>c'. release held c = Some c' \<and> (\<lambda>t. sint (c' t)) = others c held"
proof (induction held arbitrary: c)
  case (Cons t ts)
  note pos = covers_Cons [OF Cons.prems]
  then have o: "others (c(t := c t - 1)) ts = others c (t # ts)" by (simp add: others_dec)
  then have "covers (c(t := c t - 1)) ts" using Cons.prems by (simp add: covers_def)
  from Cons.IH [OF this] obtain c' where "release ts (c(t := c t - 1)) = Some c'" "(\<lambda>t. sint (c' t)) = others c (t # ts)"
    unfolding o by blast
  then show ?case using pos by (simp add: DecRef_def Let_def sint_step(2))
qed simp

lemma Close_covers:
  assumes "covers c held"
  obtains c' where "RuleSetItem_Close held c = Some ([], c')" "others c' [] = others c held"
  using release_covers [OF assms] by (auto simp: RuleSetItem_Close_def)

fun start_outcome :: "(string \<Rightarrow> bool) \<Rightarrow> string list \<Rightarrow> start_error + unit \<Rightarrow> string list \<Rightarrow> bool" where
  "start_outcome router tags (Inr _) held \<longleftrightarrow> held = tags \<and> list_all router tags"
| "start_outcome router tags (Inl (RuleSetNotFound t)) held \<longleftrightarrow>
     held = [] \<and> t \<in> set tags \<and> \<not> router t"

lemma start_loop_outcome:
  "covers c held \<Longrightarrow> list_all router held \<Longrightarrow> room c held (held @ tags) \<Longrightarrow>
   \<exists>res held' c'. start_loop router tags held c = Some (res, held', c') \<and>
     others c' held' = others c held \<and> start_outcome router (held @ tags) res held'"
proof (induction tags arbitrary: held c)
  case (Cons t ts)
  show ?case
  proof (cases "router t")
    case True
    have "others c held t + int (count_list (held @ t # ts) t) < 2 ^ 31" using Cons.prems(3) unfolding room_def by blast
    then have o: "others (IncRef t c) (held @ [t]) = others c held" by (intro others_inc) (simp add: others_def)
    show ?thesis
      using Cons.IH [of "IncRef t c" "held @ [t]"] Cons.prems o True by (simp add: covers_def room_def)
  next
    case False
    obtain c' where "RuleSetItem_Close held c = Some ([], c')" "others c' [] = others c held"
      using Close_covers [OF Cons.prems(1)] .
    then show ?thesis using False by simp
  qed
qed simp

text \<open>
  C31: Starting a rule-set item never panics and balances the counters.  If the counters cover what
  the item already holds, and no counter would pass the largest 32-bit integer with one more reference per
  configured tag, then \<^verbatim>\<open>Start\<close> leaves the references of all others as they were; on
  success the item holds one reference per configured tag, all known to the router; on failure,
  which happens only for an unknown tag, it holds nothing.
\<close>

theorem start_balanced:
  assumes "covers c held" "room c held tags"
  shows "\<exists>res held' c'. RuleSetItem_Start router tags held c = Some (res, held', c') \<and>
    others c' held' = others c held \<and> covers c' held' \<and> start_outcome router tags res held'"
proof -
  obtain c1 where c1: "RuleSetItem_Close held c = Some ([], c1)" "others c1 [] = others c held"
    using Close_covers [OF assms(1)] .
  then have "covers c1 []" "room c1 [] ([] @ tags)" using assms by (simp_all add: covers_def room_def)
  from start_loop_outcome [OF this(1) _ this(2), of router] show ?thesis
    using assms(1) c1 by (auto simp: RuleSetItem_Start_def covers_def)
qed

theorem start_balanced_witness:
  "\<exists>res held' c'. RuleSetItem_Start (\<lambda>t. t = ''a'') [''a'', ''a'', ''b''] [''a'']
      (\<lambda>t. if t = ''a'' then 3 else 0) = Some (res, held', c') \<and> held' = [] \<and> sint (c' ''a'') = 2"
proof -
  let ?c = "\<lambda>t. if t = ''a'' then 3 else 0 :: 32 word"
  have c: "covers ?c [''a'']" "room ?c [''a''] [''a'', ''a'', ''b'']" by (auto simp: covers_def others_def room_def)
  obtain res held' c' where
    *: "RuleSetItem_Start (\<lambda>t. t = ''a'') [''a'', ''a'', ''b''] [''a''] ?c = Some (res, held', c')"
    "others c' held' = others ?c [''a'']"
    "start_outcome (\<lambda>t. t = ''a'') [''a'', ''a'', ''b''] res held'"
    using start_balanced [OF c] by blast
  have "held' = []"
    using *(3) by (cases "((\<lambda>t. t = ''a''), [''a'', ''a'', ''b''], res, held')"
      rule: start_outcome.cases) auto
  moreover have "sint (c' ''a'') = 2"
    using fun_cong [OF *(2), of "''a''"] calculation by (simp add: others_def)
  ultimately show ?thesis using *(1) by blast
qed

end
