(* ===== verification/FakeIP.thy ===== *)
theory FakeIP
  imports Netip
begin

text \<open>
  The fakeip DNS server: \<^verbatim>\<open>dns/transport/fakeip\<close>.

  \<^item> \<open>FakeIPStorage\<close> is the Go interface of the same name, as a record of operations on
    a storage state; \<open>MemoryStorage\<close> and its methods (\<^verbatim>\<open>memory.go\<close>) are one value of it.
  \<^item> \<open>store\<close> is \<^verbatim>\<open>fakeip.Store\<close> (\<^verbatim>\<open>store.go\<close>) with the pool-wrap history of
    \<^verbatim>\<open>store_lx.go\<close>; \<open>Create\<close> is split at the point where it takes the lock, so that
    interleavings of two calls can be stated.
  \<^item> The locale \<open>fakeip_storage\<close> holds what \<open>Create\<close> and \<open>Lookup\<close> need of a
    storage; it is interpreted on \<open>MemoryStorage\<close>.
  \<^item> \<open>Exchange\<close> is the query handler of \<^verbatim>\<open>fakeip.go\<close>.
\<close>

unbundle bit_operations_syntax

subsection \<open>The storage interface\<close>

record metadata =
  md_Inet4Range :: ip_prefix
  md_Inet6Range :: ip_prefix
  md_Inet4Current :: addr
  md_Inet6Current :: addr

datatype fakeip_error =
    MissingIPv4Range
  | MissingIPv6Range
  | OnlyIPQueries
  | DomainTooLong
  | NoRangeSet
  | StorageError string
  | NilDereference
  | IndexOutOfRange

text \<open>The operations of \<^verbatim>\<open>adapter.FakeIPStorage\<close>; a missing error is \<open>None\<close>.\<close>

record 'st FakeIPStorage =
  FakeIPMetadata :: "'st \<Rightarrow> metadata option \<times> 'st"
  FakeIPSaveMetadata :: "metadata \<Rightarrow> 'st \<Rightarrow> fakeip_error option \<times> 'st"
  FakeIPSaveMetadataAsync :: "metadata \<Rightarrow> 'st \<Rightarrow> 'st"
  FakeIPStore :: "addr \<Rightarrow> string \<Rightarrow> 'st \<Rightarrow> fakeip_error option \<times> 'st"
  FakeIPStoreAsync :: "addr \<Rightarrow> string \<Rightarrow> 'st \<Rightarrow> 'st"
  FakeIPLoad :: "addr \<Rightarrow> 'st \<Rightarrow> string option"
  FakeIPLoadDomain :: "string \<Rightarrow> bool \<Rightarrow> 'st \<Rightarrow> addr option"
  FakeIPReset :: "'st \<Rightarrow> fakeip_error option \<times> 'st"

subsection \<open>The memory storage\<close>

record MemoryStorage =
  addressCache :: "addr \<Rightarrow> string option"
  domainCache4 :: "string \<Rightarrow> addr option"
  domainCache6 :: "string \<Rightarrow> addr option"

definition NewMemoryStorage :: MemoryStorage where
  "NewMemoryStorage =
     \<lparr>addressCache = Map.empty, domainCache4 = Map.empty, domainCache6 = Map.empty\<rparr>"

definition memory_Metadata :: "MemoryStorage \<Rightarrow> metadata option \<times> MemoryStorage" where
  "memory_Metadata s = (None, s)"

definition memory_SaveMetadata ::
    "metadata \<Rightarrow> MemoryStorage \<Rightarrow> fakeip_error option \<times> MemoryStorage" where
  "memory_SaveMetadata m s = (None, s)"

definition memory_SaveMetadataAsync :: "metadata \<Rightarrow> MemoryStorage \<Rightarrow> MemoryStorage" where
  "memory_SaveMetadataAsync m s = s"

definition memory_Store ::
    "addr \<Rightarrow> string \<Rightarrow> MemoryStorage \<Rightarrow> fakeip_error option \<times> MemoryStorage" where
  "memory_Store address domain s =
     (let s1 = (case addressCache s address of
                  None \<Rightarrow> s
                | Some oldDomain \<Rightarrow>
                    (if addr_Is4 address
                     then s\<lparr>domainCache4 := (domainCache4 s)(oldDomain := None)\<rparr>
                     else s\<lparr>domainCache6 := (domainCache6 s)(oldDomain := None)\<rparr>));
          s2 = s1\<lparr>addressCache := (addressCache s1)(address \<mapsto> domain)\<rparr>
      in (None,
          if addr_Is4 address
          then s2\<lparr>domainCache4 := (domainCache4 s2)(domain \<mapsto> address)\<rparr>
          else s2\<lparr>domainCache6 := (domainCache6 s2)(domain \<mapsto> address)\<rparr>))"

definition memory_StoreAsync :: "addr \<Rightarrow> string \<Rightarrow> MemoryStorage \<Rightarrow> MemoryStorage" where
  "memory_StoreAsync address domain s = snd (memory_Store address domain s)"

definition memory_Load :: "addr \<Rightarrow> MemoryStorage \<Rightarrow> string option" where
  "memory_Load address s = addressCache s address"

definition memory_LoadDomain :: "string \<Rightarrow> bool \<Rightarrow> MemoryStorage \<Rightarrow> addr option" where
  "memory_LoadDomain domain isIPv6 s =
     (if \<not> isIPv6 then domainCache4 s domain else domainCache6 s domain)"

definition memory_Reset :: "MemoryStorage \<Rightarrow> fakeip_error option \<times> MemoryStorage" where
  "memory_Reset s =
     (None, s\<lparr>addressCache := Map.empty, domainCache4 := Map.empty, domainCache6 := Map.empty\<rparr>)"

definition memory_storage :: "MemoryStorage FakeIPStorage" where
  "memory_storage =
     \<lparr>FakeIPMetadata = memory_Metadata, FakeIPSaveMetadata = memory_SaveMetadata,
      FakeIPSaveMetadataAsync = memory_SaveMetadataAsync, FakeIPStore = memory_Store,
      FakeIPStoreAsync = memory_StoreAsync, FakeIPLoad = memory_Load,
      FakeIPLoadDomain = memory_LoadDomain, FakeIPReset = memory_Reset\<rparr>"

subsection \<open>The pool-wrap history\<close>

text \<open>
  Times are integers (nanoseconds), \<open>None\<close> the zero time; \<^verbatim>\<open>Time.Sub\<close> saturates at
  the bounds of a \<^verbatim>\<open>Duration\<close>.
\<close>

record LxWrap =
  wrap_Count :: "64 word"
  wrap_Last :: "int option"
  wrap_Interval :: int

record lxFamilyWraps =
  passStart :: "int option"
  family_wrap :: LxWrap

record lxStoreWraps =
  wraps_inet4 :: lxFamilyWraps
  wraps_inet6 :: lxFamilyWraps

definition no_family_wraps :: lxFamilyWraps where
  "no_family_wraps =
     \<lparr>passStart = None, family_wrap = \<lparr>wrap_Count = 0, wrap_Last = None, wrap_Interval = 0\<rparr>\<rparr>"

definition no_store_wraps :: lxStoreWraps where
  "no_store_wraps = \<lparr>wraps_inet4 = no_family_wraps, wraps_inet6 = no_family_wraps\<rparr>"

definition time_Sub :: "int \<Rightarrow> int \<Rightarrow> int" where
  "time_Sub t u = max (- (2 ^ 63)) (min (2 ^ 63 - 1) (t - u))"

definition note_wrap :: "int \<Rightarrow> bool \<Rightarrow> lxFamilyWraps \<Rightarrow> lxFamilyWraps" where
  "note_wrap now wrapped f =
     (if \<not> wrapped then f
      else
        (let w = family_wrap f;
             w1 = w\<lparr>wrap_Count := wrap_Count w + 1, wrap_Last := Some now\<rparr>;
             w2 = (case passStart f of
                     None \<Rightarrow> w1
                   | Some t \<Rightarrow> w1\<lparr>wrap_Interval := time_Sub now t\<rparr>)
         in f\<lparr>family_wrap := w2, passStart := Some now\<rparr>))"

subsection \<open>The store\<close>

record 'st store =
  inet4Range :: ip_prefix
  inet6Range :: ip_prefix
  inet4Last :: addr
  inet6Last :: addr
  storage :: "'st option"
  inet4Current :: addr
  inet6Current :: addr
  lxWraps :: "lxStoreWraps option"

text \<open>
  The loop of \<^verbatim>\<open>broadcastAddress\<close>.  \<^verbatim>\<open>raw[i/8] |= 1 << (7 - i%8)\<close> sets bit
  \<open>i\<close> of the sixteen bytes counted from the most significant one, which is bit
  \<open>127 - i\<close> of the word.
\<close>

function broadcast_loop :: "nat \<Rightarrow> 128 word \<Rightarrow> 128 word" where
  "broadcast_loop i raw =
     (if i < 128 then broadcast_loop (Suc i) (raw OR push_bit (127 - i) 1) else raw)"
  by pat_completeness auto
termination
  by (relation "measure (\<lambda>(i, raw). 128 - i)") auto

declare broadcast_loop.simps [simp del]

definition broadcastAddress :: "ip_prefix \<Rightarrow> addr" where
  "broadcastAddress p =
     (let address = prefix_Addr p;
          raw = As16 address;
          bits = prefix_Bits p;
          bits = (if addr_Is4 address then bits + 96 else bits);
          raw = broadcast_loop (nat bits) raw
      in if addr_Is4 address then V4 (ucast raw) else V6 raw)"

definition NewStore :: "ip_prefix \<Rightarrow> ip_prefix \<Rightarrow> 'st store" where
  "NewStore range4 range6 =
     \<lparr>inet4Range = range4, inet6Range = range6,
      inet4Last = (if prefix_IsValid range4 then broadcastAddress range4 else NoAddr),
      inet6Last = (if prefix_IsValid range6 then broadcastAddress range6 else NoAddr),
      storage = None, inet4Current = NoAddr, inet6Current = NoAddr, lxWraps = None\<rparr>"

definition store_metadata :: "'st store \<Rightarrow> metadata" where
  "store_metadata s =
     \<lparr>md_Inet4Range = inet4Range s, md_Inet6Range = inet6Range s,
      md_Inet4Current = inet4Current s, md_Inet6Current = inet6Current s\<rparr>"

text \<open>
  \<^verbatim>\<open>Start\<close> on the storage it selects: the cache file when it keeps fakeip records, a new
  \<open>MemoryStorage\<close> otherwise.
\<close>

definition start_fresh :: "'st FakeIPStorage \<Rightarrow> 'st \<Rightarrow> 'st store \<Rightarrow> 'st store" where
  "start_fresh io st s =
     (let s1 = (if prefix_IsValid (inet4Range s)
                then s\<lparr>inet4Current := addr_Next (prefix_Addr (inet4Range s))\<rparr> else s);
          s2 = (if prefix_IsValid (inet6Range s)
                then s1\<lparr>inet6Current := addr_Next (prefix_Addr (inet6Range s))\<rparr> else s1)
      in s2\<lparr>storage := Some (snd (FakeIPReset io st))\<rparr>)"

definition store_Start :: "'st FakeIPStorage \<Rightarrow> 'st \<Rightarrow> 'st store \<Rightarrow> 'st store" where
  "store_Start io st0 s =
     (let (saved, st) = FakeIPMetadata io st0 in
      case saved of
        None \<Rightarrow> start_fresh io st s
      | Some m \<Rightarrow>
          (if md_Inet4Range m = inet4Range s \<and> md_Inet6Range m = inet6Range s
           then s\<lparr>inet4Current := md_Inet4Current m, inet6Current := md_Inet6Current m,
                  storage := Some st\<rparr>
           else start_fresh io st s))"

definition store_Contains :: "'st store \<Rightarrow> addr \<Rightarrow> bool" where
  "store_Contains s address \<longleftrightarrow>
     prefix_Contains (inet4Range s) address \<or> prefix_Contains (inet6Range s) address"

definition store_Close :: "'st FakeIPStorage \<Rightarrow> 'st store \<Rightarrow> fakeip_error option \<times> 'st store" where
  "store_Close io s =
     (case storage s of
        None \<Rightarrow> (None, s)
      | Some st \<Rightarrow>
          (let (err, st') = FakeIPSaveMetadata io (store_metadata s) st
           in (err, s\<lparr>storage := Some st'\<rparr>)))"

text \<open>
  \<^verbatim>\<open>lxNoteCreate\<close>: the history of a store is created at its first allocation; a family is
  noted when its current address changed, and has wrapped when that address went down.
\<close>

definition lxNoteCreate :: "int \<Rightarrow> addr \<Rightarrow> addr \<Rightarrow> 'st store \<Rightarrow> 'st store" where
  "lxNoteCreate now previous4 previous6 s =
     (let wraps = (case lxWraps s of None \<Rightarrow> no_store_wraps | Some w \<Rightarrow> w);
          w1 = (if inet4Current s \<noteq> previous4
                then wraps\<lparr>wraps_inet4 :=
                  note_wrap now (addr_Less (inet4Current s) previous4) (wraps_inet4 wraps)\<rparr>
                else wraps);
          w2 = (if inet6Current s \<noteq> previous6
                then w1\<lparr>wraps_inet6 :=
                  note_wrap now (addr_Less (inet6Current s) previous6) (wraps_inet6 w1)\<rparr>
                else w1)
      in s\<lparr>lxWraps := Some w2\<rparr>)"

text \<open>The successor of the current address, or the start of the pool.\<close>

definition nextAddress :: "ip_prefix \<Rightarrow> addr \<Rightarrow> addr \<Rightarrow> addr" where
  "nextAddress pool stop current =
     (let next = addr_Next current in
      if next = stop \<or> \<not> prefix_Contains pool next
      then addr_Next (addr_Next (prefix_Addr pool)) else next)"

text \<open>
  \<^verbatim>\<open>Create\<close> from the point where the lock is held and the domain is still unknown:
  the allocation, the record, the saved metadata and the deferred \<^verbatim>\<open>lxNoteCreate\<close>,
  which also runs on the error returns.  An error of the storage is only logged.
\<close>

definition allocate ::
    "'st FakeIPStorage \<Rightarrow> int \<Rightarrow> string \<Rightarrow> bool \<Rightarrow> 'st \<Rightarrow> 'st store
      \<Rightarrow> (fakeip_error + addr) \<times> 'st store" where
  "allocate io now domain isIPv6 st s =
     (let note = lxNoteCreate now (inet4Current s) (inet6Current s);
          save = (\<lambda>address s1.
            (let st1 = snd (FakeIPStore io address domain st);
                 st2 = FakeIPSaveMetadataAsync io (store_metadata s1) st1
             in (Inr address, note (s1\<lparr>storage := Some st2\<rparr>))))
      in
      if \<not> isIPv6 then
        (if \<not> addr_IsValid (inet4Current s) then (Inl MissingIPv4Range, note s)
         else
           (let next = nextAddress (inet4Range s) (inet4Last s) (inet4Current s)
            in save next (s\<lparr>inet4Current := next\<rparr>)))
      else
        (if \<not> addr_IsValid (inet6Current s) then (Inl MissingIPv6Range, note s)
         else
           (let next = nextAddress (inet6Range s) (inet6Last s) (inet6Current s)
            in save next (s\<lparr>inet6Current := next\<rparr>))))"

definition create_locked ::
    "'st FakeIPStorage \<Rightarrow> int \<Rightarrow> string \<Rightarrow> bool \<Rightarrow> 'st store
      \<Rightarrow> (fakeip_error + addr) \<times> 'st store" where
  "create_locked io now domain isIPv6 s =
     (case storage s of
        None \<Rightarrow> (Inl NilDereference, s)
      | Some st \<Rightarrow>
          (case FakeIPLoadDomain io domain isIPv6 st of
             Some address \<Rightarrow> (Inr address, s)
           | None \<Rightarrow> allocate io now domain isIPv6 st s))"

definition store_Create ::
    "'st FakeIPStorage \<Rightarrow> int \<Rightarrow> string \<Rightarrow> bool \<Rightarrow> 'st store
      \<Rightarrow> (fakeip_error + addr) \<times> 'st store" where
  "store_Create io now domain isIPv6 s =
     (case storage s of
        None \<Rightarrow> (Inl NilDereference, s)
      | Some st \<Rightarrow>
          (case FakeIPLoadDomain io domain isIPv6 st of
             Some address \<Rightarrow> (Inr address, s)
           | None \<Rightarrow> create_locked io now domain isIPv6 s))"

definition store_Lookup :: "'st FakeIPStorage \<Rightarrow> 'st store \<Rightarrow> addr \<Rightarrow> string option" where
  "store_Lookup io s address =
     (case storage s of None \<Rightarrow> None | Some st \<Rightarrow> FakeIPLoad io address st)"

definition store_Reset :: "'st FakeIPStorage \<Rightarrow> 'st store \<Rightarrow> fakeip_error option \<times> 'st store" where
  "store_Reset io s =
     (case storage s of
        None \<Rightarrow> (Some NilDereference, s)
      | Some st \<Rightarrow> (let (err, st') = FakeIPReset io st in (err, s\<lparr>storage := Some st'\<rparr>)))"

subsection \<open>Read access for the connection test\<close>

record LxState =
  lx_Inet4Range :: ip_prefix
  lx_Inet6Range :: ip_prefix
  lx_Persisted :: bool
  lx_Inet4Wrap :: LxWrap
  lx_Inet6Wrap :: LxWrap

text \<open>\<open>inMemory\<close> says whether the storage is a \<^verbatim>\<open>*MemoryStorage\<close>.\<close>

definition LxStateOf :: "('st \<Rightarrow> bool) \<Rightarrow> 'st store \<Rightarrow> LxState option" where
  "LxStateOf inMemory s =
     (case storage s of
        None \<Rightarrow> None
      | Some st \<Rightarrow>
          (let wraps = (case lxWraps s of None \<Rightarrow> no_store_wraps | Some w \<Rightarrow> w)
           in Some \<lparr>lx_Inet4Range = inet4Range s, lx_Inet6Range = inet6Range s,
                    lx_Persisted = (\<not> inMemory st),
                    lx_Inet4Wrap = family_wrap (wraps_inet4 wraps),
                    lx_Inet6Wrap = family_wrap (wraps_inet6 wraps)\<rparr>))"

definition LxAddressOf :: "'st FakeIPStorage \<Rightarrow> 'st store \<Rightarrow> string \<Rightarrow> bool \<Rightarrow> addr option" where
  "LxAddressOf io s domain isIPv6 =
     (case storage s of None \<Rightarrow> None | Some st \<Rightarrow> FakeIPLoadDomain io domain isIPv6 st)"

definition LxDomainOf :: "'st FakeIPStorage \<Rightarrow> 'st store \<Rightarrow> addr \<Rightarrow> string option" where
  "LxDomainOf io s address =
     (case storage s of None \<Rightarrow> None | Some st \<Rightarrow> FakeIPLoad io address st)"

subsection \<open>The query handler\<close>

record question =
  q_Name :: string
  q_Qtype :: "16 word"
  q_Qclass :: "16 word"

datatype answer_rr =
    RR_A string "32 word" addr
  | RR_AAAA string "32 word" addr

record reply =
  reply_Id :: "16 word"
  reply_Response :: bool
  reply_Authoritative :: bool
  reply_RecursionDesired :: bool
  reply_RecursionAvailable :: bool
  reply_Rcode :: int
  reply_Question :: "question list"
  reply_Answer :: "answer_rr list"

definition TypeA :: "16 word" where
  "TypeA = 1"

definition TypeAAAA :: "16 word" where
  "TypeAAAA = 28"

definition DefaultDNSTTL :: "32 word" where
  "DefaultDNSTTL = 600"

definition FixedResponseStatus :: "16 word \<Rightarrow> question list \<Rightarrow> int \<Rightarrow> reply" where
  "FixedResponseStatus ident questions rcode =
     \<lparr>reply_Id = ident, reply_Response = True, reply_Authoritative = True,
      reply_RecursionDesired = True, reply_RecursionAvailable = True, reply_Rcode = rcode,
      reply_Question = questions, reply_Answer = []\<rparr>"

fun fixed_answers :: "question \<Rightarrow> 32 word \<Rightarrow> addr list \<Rightarrow> answer_rr list" where
  "fixed_answers q ttl [] = []"
| "fixed_answers q ttl (a # as) =
     (if addr_Is4 a \<and> q_Qtype q = TypeA then [RR_A (q_Name q) ttl a]
      else if addr_Is6 a \<and> q_Qtype q = TypeAAAA then [RR_AAAA (q_Name q) ttl a]
      else []) @ fixed_answers q ttl as"

definition FixedResponse :: "16 word \<Rightarrow> question \<Rightarrow> addr list \<Rightarrow> 32 word \<Rightarrow> reply" where
  "FixedResponse ident q addresses ttl =
     \<lparr>reply_Id = ident, reply_Response = True, reply_Authoritative = True,
      reply_RecursionDesired = True, reply_RecursionAvailable = True, reply_Rcode = 0,
      reply_Question = [q], reply_Answer = fixed_answers q ttl addresses\<rparr>"

text \<open>\<open>IsFqdn\<close> is \<^verbatim>\<open>dns.IsFqdn\<close> of the DNS library.\<close>

definition FqdnToDomain :: "(string \<Rightarrow> bool) \<Rightarrow> string \<Rightarrow> string" where
  "FqdnToDomain IsFqdn fqdn = (if IsFqdn fqdn then take (length fqdn - 1) fqdn else fqdn)"

record 'st transport =
  t_store :: "'st store"
  inet4Enabled :: bool
  inet6Enabled :: bool

definition NewTransport :: "ip_prefix \<Rightarrow> ip_prefix \<Rightarrow> fakeip_error + 'st transport" where
  "NewTransport range4 range6 =
     (if \<not> prefix_IsValid range4 \<and> \<not> prefix_IsValid range6 then Inl NoRangeSet
      else Inr \<lparr>t_store = NewStore range4 range6,
                inet4Enabled = prefix_IsValid range4, inet6Enabled = prefix_IsValid range6\<rparr>)"

definition Exchange ::
    "(string \<Rightarrow> bool) \<Rightarrow> 'st FakeIPStorage \<Rightarrow> int \<Rightarrow> 16 word \<Rightarrow> question list
      \<Rightarrow> 'st transport \<Rightarrow> (fakeip_error + reply) \<times> 'st transport" where
  "Exchange IsFqdn io now ident questions t =
     (case questions of
        [] \<Rightarrow> (Inl IndexOutOfRange, t)
      | q # _ \<Rightarrow>
          if q_Qtype q \<noteq> TypeA \<and> q_Qtype q \<noteq> TypeAAAA then (Inl OnlyIPQueries, t)
          else if q_Qtype q = TypeA \<and> \<not> inet4Enabled t \<or> q_Qtype q = TypeAAAA \<and> \<not> inet6Enabled t
          then (Inr (FixedResponseStatus ident questions 0), t)
          else
            (let domain = FqdnToDomain IsFqdn (q_Name q) in
             if 255 < length domain then (Inl DomainTooLong, t)
             else
               (case store_Create io now domain (q_Qtype q = TypeAAAA) (t_store t) of
                  (Inl err, s) \<Rightarrow> (Inl err, t\<lparr>t_store := s\<rparr>)
                | (Inr address, s) \<Rightarrow>
                    (Inr (FixedResponse ident q [address] DefaultDNSTTL), t\<lparr>t_store := s\<rparr>))))"

subsection \<open>The broadcast address\<close>

lemma mask_split:
  assumes "i < 128"
  shows "mask (128 - i) = push_bit (127 - i) 1 OR (mask (128 - Suc i) :: 128 word)"
proof (rule bit_word_eqI)
  fix j
  have "j < 128 - i \<longleftrightarrow> j = 127 - i \<or> j < 128 - Suc i" using assms by arith
  then show "j < LENGTH(128) \<Longrightarrow>
      bit (mask (128 - i) :: 128 word) j =
      bit (push_bit (127 - i) 1 OR (mask (128 - Suc i) :: 128 word)) j"
    by (auto simp add: bit_mask_iff bit_or_iff push_bit_of_1 bit_exp_iff)
qed
lemma broadcast_loop_mask: "i \<le> 128 \<Longrightarrow> broadcast_loop i raw = raw OR mask (128 - i)"
proof (induction i raw rule: broadcast_loop.induct)
  case (1 i raw)
  show ?case
  proof (cases "i < 128")
    case True
    have "broadcast_loop i raw = broadcast_loop (Suc i) (raw OR push_bit (127 - i) 1)"
      using True by (subst broadcast_loop.simps) (rule if_P)
    also have "\<dots> = (raw OR push_bit (127 - i) 1) OR mask (128 - Suc i)"
      using True by (intro "1.IH") auto
    also have "\<dots> = raw OR mask (128 - i)"
      by (simp only: mask_split [OF True] or.assoc)
    finally show ?thesis .
  next
    case False
    with "1.prems" show ?thesis by (subst broadcast_loop.simps) simp
  qed
qed
lemma ucast_As16_or_mask:
  "n \<le> 32 \<Longrightarrow> ucast (As16 (V4 w) OR mask (32 - n)) = w OR (mask (32 - n) :: 32 word)"
proof -
  have "ucast (mask (32 - n) :: 128 word) = (mask (32 - n) :: 32 word)"
    by (intro bit_word_eqI) (auto simp: bit_simps)
  moreover have "ucast (ucast w :: 128 word) = w"
    by (intro bit_word_eqI) (auto simp: bit_simps)
  moreover have "ucast (push_bit 32 0xffff :: 128 word) = (0 :: 32 word)"
    by (rule bit_word_eqI) (simp only: bit_unsigned_iff bit_push_bit_iff, simp)
  ultimately show ?thesis by (simp only: As16.simps unsigned_or_eq or.left_neutral)
qed

lemma broadcastAddress_V4:
  "n \<le> 32 \<Longrightarrow> broadcastAddress (IPPrefix (V4 w) n) = V4 (w OR mask (32 - n))"
  using ucast_As16_or_mask [of n w]
  by (simp add: broadcastAddress_def broadcast_loop_mask nat_add_distrib)

lemma broadcastAddress_V6:
  "n \<le> 128 \<Longrightarrow> broadcastAddress (IPPrefix (V6 w) n) = V6 (w OR mask (128 - n))"
  by (simp add: broadcastAddress_def broadcast_loop_mask)

lemma drop_bit_mask_word [simp]: "drop_bit k (mask k :: 'a :: len word) = 0"
  by (intro bit_word_eqI) (auto simp: bit_simps)

lemma same_prefix_or_mask:
  assumes "drop_bit k a = drop_bit k (b :: 'a :: len word)"
  shows "a OR mask k = b OR mask k"
proof (rule bit_word_eqI)
  fix i
  assume i: "i < LENGTH('a)"
  have "bit (drop_bit k a) (i - k) = bit (drop_bit k b) (i - k)" using assms by simp
  then show "bit (a OR mask k) i = bit (b OR mask k) i"
    using i by (cases "i < k") (auto simp: bit_simps)
qed

lemma drop_bit_word_mono: "a \<le> b \<Longrightarrow> drop_bit k a \<le> drop_bit k (b :: 'a :: len word)"
  unfolding word_le_nat_alt unat_drop_bit_eq unfolding drop_bit_eq_div by (rule div_le_mono)

lemma prefix_le_broadcast:
  "drop_bit k a = drop_bit k (b :: 'a :: len word) \<Longrightarrow> b \<le> a OR mask k"
  using le_word_or2 [of b "mask k"] same_prefix_or_mask [of k a b] by simp

lemma prefix_step:
  assumes "drop_bit k a = drop_bit k c" and "c < (a OR mask k :: 'a :: len word)"
  shows "c + 1 \<noteq> 0" and "drop_bit k a = drop_bit k (c + 1)" and "unat (c + 1) = Suc (unat c)"
proof -
  have "c + 1 \<noteq> 0"
    using assms(2) by (metis add.inverse_inverse eq_neg_iff_add_eq_0 word_order.extremum_strict)
  then show "c + 1 \<noteq> 0" .
  then have le: "c \<le> c + 1" and up: "unat (c + 1) = Suc (unat c)"
    by (simp_all add: unatSuc word_le_nat_alt add.commute [of c])
  have "c + 1 \<le> a OR mask k"
    using assms(2) up by (simp add: word_less_nat_alt word_le_nat_alt)
  with le show "drop_bit k a = drop_bit k (c + 1)"
    using drop_bit_word_mono [of c "c + 1" k] drop_bit_word_mono [of "c + 1" "a OR mask k" k] assms(1)
    by (simp add: order.antisym)
  show "unat (c + 1) = Suc (unat c)" using up .
qed


subsection \<open>Prefixes as ranges of numbers\<close>

lemmas prefix_cases = prefix_IsValid.simps prefix_Contains_def same_bits.simps
  broadcastAddress_V4 broadcastAddress_V6 drop_bit_xor

lemma contains_cases:
  assumes "prefix_Contains p x"
  obtains (v4) w n v where "p = IPPrefix (V4 w) n" "x = V4 v" "n \<le> 32"
      "drop_bit (32 - n) w = drop_bit (32 - n) v" "broadcastAddress p = V4 (w OR mask (32 - n))"
  | (v6) w n v where "p = IPPrefix (V6 w) n" "x = V6 v" "n \<le> 128"
      "drop_bit (128 - n) w = drop_bit (128 - n) v" "broadcastAddress p = V6 (w OR mask (128 - n))"
  using assms
  by (cases p; cases "prefix_Addr p"; cases x) (auto simp: prefix_cases)

lemma contains_Addr: "prefix_IsValid p \<Longrightarrow> prefix_Contains p (prefix_Addr p)"
  by (cases p) (auto simp: prefix_Contains_def)

lemma contains_le_broadcast: "prefix_Contains p x \<Longrightarrow> addr_val x \<le> addr_val (broadcastAddress p)"
  by (erule contains_cases) (auto simp: word_le_nat_alt [symmetric] intro: prefix_le_broadcast)

lemma contains_inj:
  "prefix_Contains p x \<Longrightarrow> prefix_Contains p y \<Longrightarrow> addr_val x = addr_val y \<Longrightarrow> x = y"
  by (erule contains_cases; erule contains_cases) (auto simp: word_unat_eq_iff)

lemma contains_broadcast: "prefix_IsValid p \<Longrightarrow> prefix_Contains p (broadcastAddress p)"
  by (cases p; cases "prefix_Addr p") (auto simp: prefix_cases)

lemma contains_Next:
  assumes "prefix_Contains p c" and "addr_val c < addr_val (broadcastAddress p)"
  shows "prefix_Contains p (addr_Next c) \<and> addr_val (addr_Next c) = Suc (addr_val c)"
  using assms(1)
proof (cases rule: contains_cases)
  case (v4 w n v)
  then have "v < w OR mask (32 - n)" using assms(2) by (simp add: word_less_nat_alt)
  from prefix_step [OF v4(4) this] v4 show ?thesis by (simp add: prefix_cases)
next
  case (v6 w n v)
  then have "v < w OR mask (128 - n)" using assms(2) by (simp add: word_less_nat_alt)
  from prefix_step [OF v6(4) this] v6 show ?thesis by (simp add: prefix_cases)
qed

lemma contains_family:
  "prefix_Contains p x \<Longrightarrow> addr_Is4 x = addr_Is4 (prefix_Addr p) \<and> BitLen x = BitLen (prefix_Addr p)
     \<and> addr_IsValid x"
  by (erule contains_cases) auto

subsection \<open>The pool of a range\<close>

text \<open>
  The addresses \<^verbatim>\<open>Create\<close> hands out: from the second address after the one the range is
  written with up to the one before the broadcast address.  A range is usable when there is one.
\<close>

definition first_host :: "ip_prefix \<Rightarrow> addr" where
  "first_host p = addr_Next (addr_Next (prefix_Addr p))"

definition usable_range :: "ip_prefix \<Rightarrow> bool" where
  "usable_range p \<longleftrightarrow> prefix_Contains p (first_host p) \<and> first_host p \<noteq> broadcastAddress p"

definition cursor :: "ip_prefix \<Rightarrow> addr \<Rightarrow> bool" where
  "cursor p c \<longleftrightarrow>
     prefix_Contains p c \<and> addr_val (prefix_Addr p) + 1 \<le> addr_val c
     \<and> addr_val c < addr_val (broadcastAddress p)"

definition in_pool :: "ip_prefix \<Rightarrow> addr \<Rightarrow> bool" where
  "in_pool p c \<longleftrightarrow>
     prefix_Contains p c \<and> addr_val (prefix_Addr p) + 2 \<le> addr_val c
     \<and> addr_val c < addr_val (broadcastAddress p)"

definition pool_size :: "ip_prefix \<Rightarrow> nat" where
  "pool_size p = addr_val (broadcastAddress p) - addr_val (prefix_Addr p) - 2"

definition slot :: "ip_prefix \<Rightarrow> addr \<Rightarrow> nat" where
  "slot p a = addr_val a - addr_val (prefix_Addr p) - 2"

lemma in_pool_cursor: "in_pool p c \<Longrightarrow> cursor p c"
  by (simp add: in_pool_def cursor_def)

lemma unat_add_1: "w + 1 \<noteq> 0 \<Longrightarrow> unat (w + 1) = Suc (unat (w :: 'a :: len word))"
  using unatSuc [of w] by (simp add: add.commute)

lemma addr_val_Next: "addr_IsValid (addr_Next c) \<Longrightarrow> addr_val (addr_Next c) = Suc (addr_val c)"
  by (cases c) (auto simp: unat_add_1 split: if_splits)

lemma valid_before_Next: "addr_IsValid (addr_Next c) \<Longrightarrow> addr_IsValid c"
  by (cases c) auto

lemma contains_less_broadcast:
  "prefix_Contains p c \<Longrightarrow> c \<noteq> broadcastAddress p \<Longrightarrow> addr_val c < addr_val (broadcastAddress p)"
  by (metis contains_broadcast contains_inj contains_le_broadcast le_neq_implies_less prefix_Contains_def)

lemma usable_first:
  assumes "usable_range p"
  shows "in_pool p (first_host p) \<and> slot p (first_host p) = 0 \<and> cursor p (addr_Next (prefix_Addr p))"
proof -
  let ?a = "prefix_Addr p"
  have first: "prefix_Contains p (first_host p)" and "first_host p \<noteq> broadcastAddress p"
    using assms by (simp_all add: usable_range_def)
  then have below: "addr_val (first_host p) < addr_val (broadcastAddress p)"
    by (rule contains_less_broadcast)
  have "addr_IsValid (first_host p)" using first by (simp add: contains_family)
  then have "addr_IsValid (addr_Next ?a)" and val: "addr_val (first_host p) = Suc (addr_val (addr_Next ?a))"
    unfolding first_host_def by (auto intro: addr_val_Next valid_before_Next)
  then have "addr_val (addr_Next ?a) = Suc (addr_val ?a)" by (simp add: addr_val_Next)
  moreover have "prefix_Contains p ?a" using first by (intro contains_Addr) (simp add: prefix_Contains_def)
  ultimately show ?thesis
    using first below val contains_Next [of p ?a] by (simp add: in_pool_def slot_def cursor_def)
qed

lemma nextAddress_pool:
  assumes "usable_range p" and "cursor p c"
  shows "nextAddress p (broadcastAddress p) c =
    (if Suc (addr_val c) = addr_val (broadcastAddress p) then first_host p else addr_Next c)"
proof -
  have step: "prefix_Contains p (addr_Next c)" "addr_val (addr_Next c) = Suc (addr_val c)"
    using assms(2) contains_Next [of p c] by (simp_all add: cursor_def)
  then have "addr_Next c = broadcastAddress p \<longleftrightarrow> Suc (addr_val c) = addr_val (broadcastAddress p)"
    by (metis contains_less_broadcast nat_less_le)
  then show ?thesis
    using step(1) by (simp add: nextAddress_def first_host_def)
qed

lemma nextAddress_in_pool:
  assumes "usable_range p" and "cursor p c"
  shows "in_pool p (nextAddress p (broadcastAddress p) c)"
  using assms usable_first [OF assms(1)] contains_Next [of p c]
  by (auto simp: nextAddress_pool in_pool_def cursor_def)

lemma slot_next:
  assumes "usable_range p" and "in_pool p c"
  shows "slot p (nextAddress p (broadcastAddress p) c) = Suc (slot p c) mod pool_size p"
proof -
  have c: "prefix_Contains p c" "addr_val (prefix_Addr p) + 2 \<le> addr_val c"
      "addr_val c < addr_val (broadcastAddress p)"
    using assms(2) by (simp_all add: in_pool_def)
  note step = contains_Next [of p c] nextAddress_pool [OF assms(1) in_pool_cursor [OF assms(2)]]
  show ?thesis
  proof (cases "Suc (addr_val c) = addr_val (broadcastAddress p)")
    case True
    then have "Suc (slot p c) = pool_size p" using c by (simp add: slot_def pool_size_def)
    with True show ?thesis using step usable_first [OF assms(1)] by simp
  next
    case False
    then have "Suc (slot p c) < pool_size p" using c by (simp add: slot_def pool_size_def)
    with False show ?thesis using c step by (simp add: slot_def)
  qed
qed

lemma slot_inj: "in_pool p a \<Longrightarrow> in_pool p b \<Longrightarrow> slot p a = slot p b \<Longrightarrow> a = b"
  by (rule contains_inj [of p]) (auto simp: in_pool_def slot_def)

lemma slot_less: "in_pool p a \<Longrightarrow> slot p a < pool_size p"
  by (auto simp: in_pool_def slot_def pool_size_def)

subsection \<open>What the store needs of a storage\<close>

text \<open>
  The laws of \<^verbatim>\<open>adapter.FakeIPStorage\<close>: a reset forgets every record, a store writes one
  record of an unknown domain, the domain index is the converse of the address index, and
  saving the metadata does not touch the records.
\<close>

locale fakeip_storage =
  fixes io :: "'st FakeIPStorage"
    and ok :: "'st \<Rightarrow> bool"
  assumes ok_reset: "ok (snd (FakeIPReset io st))"
    and load_reset: "FakeIPLoad io a (snd (FakeIPReset io st)) = None"
    and ok_store: "ok st \<Longrightarrow> FakeIPLoadDomain io d (\<not> addr_Is4 a) st = None
      \<Longrightarrow> ok (snd (FakeIPStore io a d st))"
    and load_store: "ok st \<Longrightarrow> FakeIPLoad io b (snd (FakeIPStore io a d st)) =
      (if b = a then Some d else FakeIPLoad io b st)"
    and load_domain_iff: "ok st \<Longrightarrow>
      FakeIPLoadDomain io d v6 st = Some a \<longleftrightarrow> FakeIPLoad io a st = Some d \<and> addr_Is4 a = (\<not> v6)"
    and ok_save_async: "ok st \<Longrightarrow> ok (FakeIPSaveMetadataAsync io m st)"
    and load_save_async: "ok st \<Longrightarrow>
      FakeIPLoad io a (FakeIPSaveMetadataAsync io m st) = FakeIPLoad io a st"

text \<open>A store in use: its ranges are usable, its cursors inside them, its records in the pools.\<close>

definition family_range :: "bool \<Rightarrow> 'st store \<Rightarrow> ip_prefix" where
  "family_range v6 s = (if v6 then inet6Range s else inet4Range s)"

definition family_last :: "bool \<Rightarrow> 'st store \<Rightarrow> addr" where
  "family_last v6 s = (if v6 then inet6Last s else inet4Last s)"

definition family_current :: "bool \<Rightarrow> 'st store \<Rightarrow> addr" where
  "family_current v6 s = (if v6 then inet6Current s else inet4Current s)"

definition family_ok :: "bool \<Rightarrow> 'st store \<Rightarrow> bool" where
  "family_ok v6 s \<longleftrightarrow>
     (if prefix_IsValid (family_range v6 s)
      then usable_range (family_range v6 s)
        \<and> addr_Is4 (prefix_Addr (family_range v6 s)) = (\<not> v6)
        \<and> family_last v6 s = broadcastAddress (family_range v6 s)
        \<and> cursor (family_range v6 s) (family_current v6 s)
      else family_current v6 s = NoAddr)"

definition store_wf :: "'st FakeIPStorage \<Rightarrow> ('st \<Rightarrow> bool) \<Rightarrow> 'st store \<Rightarrow> bool" where
  "store_wf io ok s \<longleftrightarrow>
     family_ok False s \<and> family_ok True s
     \<and> (\<exists>st. storage s = Some st \<and> ok st
          \<and> (\<forall>a d. FakeIPLoad io a st = Some d \<longrightarrow> in_pool (family_range (\<not> addr_Is4 a) s) a))"

lemmas family_defs = family_range_def family_last_def family_current_def

lemma lxNoteCreate_keeps [simp]:
  "inet4Range (lxNoteCreate now p4 p6 s) = inet4Range s"
  "inet6Range (lxNoteCreate now p4 p6 s) = inet6Range s"
  "inet4Last (lxNoteCreate now p4 p6 s) = inet4Last s"
  "inet6Last (lxNoteCreate now p4 p6 s) = inet6Last s"
  "inet4Current (lxNoteCreate now p4 p6 s) = inet4Current s"
  "inet6Current (lxNoteCreate now p4 p6 s) = inet6Current s"
  "storage (lxNoteCreate now p4 p6 s) = storage s"
  by (simp_all add: lxNoteCreate_def Let_def)

lemma lxNoteCreate_family [simp]:
  "family_range v (lxNoteCreate now p4 p6 s) = family_range v s"
  "family_last v (lxNoteCreate now p4 p6 s) = family_last v s"
  "family_current v (lxNoteCreate now p4 p6 s) = family_current v s"
  "family_ok v (lxNoteCreate now p4 p6 s) = family_ok v s"
  by (simp_all add: family_ok_def family_defs)

text \<open>The effect of an allocation on the fields, for both families at once.\<close>

lemma allocate_cases:
  "allocate io now d v6 st s =
     (if \<not> addr_IsValid (family_current v6 s)
      then (Inl (if v6 then MissingIPv6Range else MissingIPv4Range),
            lxNoteCreate now (inet4Current s) (inet6Current s) s)
      else
        (let next = nextAddress (family_range v6 s) (family_last v6 s) (family_current v6 s);
             s1 = (if v6 then s\<lparr>inet6Current := next\<rparr> else s\<lparr>inet4Current := next\<rparr>);
             st1 = FakeIPSaveMetadataAsync io (store_metadata s1) (snd (FakeIPStore io next d st))
         in (Inr next,
             lxNoteCreate now (inet4Current s) (inet6Current s) (s1\<lparr>storage := Some st1\<rparr>))))"
  by (simp add: allocate_def family_defs Let_def)

lemma allocate_fields:
  assumes "addr_IsValid (family_current v6 s)"
  defines "a \<equiv> nextAddress (family_range v6 s) (family_last v6 s) (family_current v6 s)"
  obtains m s' where "allocate io now d v6 st s = (Inr a, s')"
    "storage s' = Some (FakeIPSaveMetadataAsync io m (snd (FakeIPStore io a d st)))"
    "\<And>v. family_range v s' = family_range v s" "\<And>v. family_last v s' = family_last v s"
    "family_current v6 s' = a" "family_current (\<not> v6) s' = family_current (\<not> v6) s"
proof
  show "allocate io now d v6 st s = (Inr a, snd (allocate io now d v6 st s))"
    using assms by (simp add: allocate_cases Let_def)
  show "storage (snd (allocate io now d v6 st s)) = Some (FakeIPSaveMetadataAsync io
      (store_metadata (if v6 then s\<lparr>inet6Current := a\<rparr> else s\<lparr>inet4Current := a\<rparr>))
      (snd (FakeIPStore io a d st)))"
    using assms by (simp add: allocate_cases Let_def)
qed (use assms in \<open>simp_all add: allocate_cases Let_def family_defs\<close>)

text \<open>Sequences of queries, each with its time, domain and family.\<close>

fun creates :: "'st FakeIPStorage \<Rightarrow> (int \<times> string \<times> bool) list \<Rightarrow> 'st store \<Rightarrow> 'st store" where
  "creates io [] s = s"
| "creates io ((now, d, v6) # qs) s = creates io qs (snd (store_Create io now d v6 s))"

context fakeip_storage
begin

lemma load_domain_None:
  "ok st \<Longrightarrow> FakeIPLoadDomain io d v6 st = None \<longleftrightarrow> (\<forall>a. FakeIPLoad io a st = Some d \<longrightarrow> addr_Is4 a = v6)"
  using load_domain_iff [of st d v6] by (metis not_None_eq option.distinct(1))

text \<open>One call of \<^verbatim>\<open>Create\<close> that allocates.\<close>

lemma allocate_effect:
  assumes "store_wf io ok s" and "storage s = Some st" and "FakeIPLoadDomain io d v6 st = None"
    and "prefix_IsValid (family_range v6 s)"
  obtains a s' where "allocate io now d v6 st s = (Inr a, s')" "store_wf io ok s'"
    "a = nextAddress (family_range v6 s) (broadcastAddress (family_range v6 s)) (family_current v6 s)"
    "in_pool (family_range v6 s) a" "addr_Is4 a = (\<not> v6)"
    "family_current v6 s' = a" "family_current (\<not> v6) s' = family_current (\<not> v6) s"
    "\<And>v. family_range v s' = family_range v s"
    "\<And>b. store_Lookup io s' b = (if b = a then Some d else store_Lookup io s b)"
proof -
  let ?p = "family_range v6 s"
  define a where "a = nextAddress ?p (broadcastAddress ?p) (family_current v6 s)"
  have fam: "usable_range ?p" "addr_Is4 (prefix_Addr ?p) = (\<not> v6)"
      "family_last v6 s = broadcastAddress ?p" "cursor ?p (family_current v6 s)"
    using assms(1,4) by (cases v6; simp add: store_wf_def family_ok_def)+
  have ok: "ok st" and pools: "\<And>b e. FakeIPLoad io b st = Some e \<Longrightarrow> in_pool (family_range (\<not> addr_Is4 b) s) b"
    using assms(1,2) by (auto simp: store_wf_def)
  have pool: "in_pool ?p a" unfolding a_def using fam by (intro nextAddress_in_pool)
  then have is4: "addr_Is4 a = (\<not> v6)" using fam(2) contains_family [of ?p a] by (simp add: in_pool_def)
  have valid: "addr_IsValid (family_current v6 s)"
    using fam(4) contains_family [of ?p "family_current v6 s"] by (simp add: cursor_def)
  define st1 where "st1 = snd (FakeIPStore io a d st)"
  have st1: "ok st1" "\<And>b. FakeIPLoad io b st1 = (if b = a then Some d else FakeIPLoad io b st)"
    using ok assms(3) is4 unfolding st1_def by (simp_all add: ok_store load_store)
  obtain m s' where call: "allocate io now d v6 st s = (Inr a, s')"
    and stor: "storage s' = Some (FakeIPSaveMetadataAsync io m st1)"
    and ranges: "\<And>v. family_range v s' = family_range v s" "\<And>v. family_last v s' = family_last v s"
    and cur: "family_current v6 s' = a" "family_current (\<not> v6) s' = family_current (\<not> v6) s"
    using allocate_fields [OF valid, where io = io and now = now and d = d and st = st]
    unfolding fam(3) a_def [symmetric] st1_def [symmetric] by blast
  have look: "store_Lookup io s' b = (if b = a then Some d else store_Lookup io s b)" for b
    using stor st1 assms(2) by (simp add: store_Lookup_def load_save_async)
  have "family_ok v s'" for v
  proof (cases "v = v6")
    case True
    with fam pool cur ranges assms(4) show ?thesis by (simp add: family_ok_def in_pool_cursor)
  next
    case False
    then have "family_current v s' = family_current v s" using cur(2) by (cases v; cases v6) simp_all
    moreover have "family_ok v s" using assms(1) by (cases v) (simp_all add: store_wf_def)
    ultimately show ?thesis using ranges by (simp add: family_ok_def)
  qed
  moreover have "in_pool (family_range (\<not> addr_Is4 b) s') b" if "FakeIPLoad io b st1 = Some e" for b e
    using that st1(2) pool is4 pools ranges by (auto split: if_splits)
  ultimately have "store_wf io ok s'"
    using stor st1(1) by (auto simp: store_wf_def ok_save_async load_save_async)
  with that call pool is4 cur ranges(1) look a_def show thesis by blast
qed


lemma wf_family: "store_wf io ok s \<Longrightarrow> family_ok v s"
  by (cases v) (simp_all add: store_wf_def)

lemma create_eq_locked: "store_Create io now d v6 s = create_locked io now d v6 s"
  by (simp add: store_Create_def create_locked_def split: option.split)

text \<open>
  The four outcomes of \<^verbatim>\<open>Create\<close>: the domain is known, the family has no range, or an
  address is allocated.
\<close>

lemma create_cases:
  assumes "store_wf io ok s"
  obtains
    (hit) a where "store_Create io now d v6 s = (Inr a, s)" "store_Lookup io s a = Some d"
      "addr_Is4 a = (\<not> v6)" "in_pool (family_range v6 s) a"
  | (missing) s' where "\<not> prefix_IsValid (family_range v6 s)"
      "store_Create io now d v6 s = (Inl (if v6 then MissingIPv6Range else MissingIPv4Range), s')"
      "store_wf io ok s'" "\<And>v. family_range v s' = family_range v s"
      "\<And>v. family_current v s' = family_current v s"
      "\<And>b. store_Lookup io s' b = store_Lookup io s b"
  | (new) a s' where "store_Create io now d v6 s = (Inr a, s')" "store_wf io ok s'"
      "\<And>b. store_Lookup io s b = Some d \<Longrightarrow> addr_Is4 b = v6"
      "a = nextAddress (family_range v6 s) (broadcastAddress (family_range v6 s)) (family_current v6 s)"
      "usable_range (family_range v6 s)" "cursor (family_range v6 s) (family_current v6 s)"
      "in_pool (family_range v6 s) a" "addr_Is4 a = (\<not> v6)"
      "family_current v6 s' = a" "family_current (\<not> v6) s' = family_current (\<not> v6) s"
      "\<And>v. family_range v s' = family_range v s"
      "\<And>b. store_Lookup io s' b = (if b = a then Some d else store_Lookup io s b)"
proof -
  obtain st where st: "storage s = Some st" "ok st"
      "\<And>b e. FakeIPLoad io b st = Some e \<Longrightarrow> in_pool (family_range (\<not> addr_Is4 b) s) b"
    using assms by (auto simp: store_wf_def)
  show thesis
  proof (cases "FakeIPLoadDomain io d v6 st")
    case (Some a)
    then have "FakeIPLoad io a st = Some d" "addr_Is4 a = (\<not> v6)" using st by (simp_all add: load_domain_iff)
    with st(3) [of a d] Some show thesis using st(1)
      by (intro hit [of a]) (simp_all add: store_Create_def store_Lookup_def)
  next
    case None
    then have alloc: "store_Create io now d v6 s = allocate io now d v6 st s"
      using st(1) by (simp add: store_Create_def create_locked_def)
    show thesis
    proof (cases "prefix_IsValid (family_range v6 s)")
      case True
      then have "usable_range (family_range v6 s)" "cursor (family_range v6 s) (family_current v6 s)"
        using wf_family [OF assms, of v6] by (simp_all add: family_ok_def)
      moreover have "addr_Is4 b = v6" if "store_Lookup io s b = Some d" for b
        using that None st by (simp add: load_domain_None store_Lookup_def)
      ultimately show thesis
        using allocate_effect [OF assms st(1) None True, where now = now] new alloc by metis
    next
      case False
      then have "family_current v6 s = NoAddr" using wf_family [OF assms, of v6] by (simp add: family_ok_def)
      then have "allocate io now d v6 st s = (Inl (if v6 then MissingIPv6Range else MissingIPv4Range),
          lxNoteCreate now (inet4Current s) (inet6Current s) s)" by (simp add: allocate_cases)
      moreover have "store_wf io ok (lxNoteCreate now (inet4Current s) (inet6Current s) s)"
        using assms by (simp add: store_wf_def)
      ultimately show thesis
        using False alloc by (intro missing [of "lxNoteCreate now (inet4Current s) (inet6Current s) s"]) (simp_all add: store_Lookup_def)
    qed
  qed
qed

lemma create_wf:
  assumes "store_wf io ok s"
  shows "store_wf io ok (snd (store_Create io now d v6 s))
    \<and> family_range v (snd (store_Create io now d v6 s)) = family_range v s"
  by (cases rule: create_cases [OF assms, where now = now and d = d and ?v6.0 = v6]) (simp_all add: assms)

lemma known_domain:
  assumes "store_wf io ok s" and "store_Lookup io s a = Some d" and "addr_Is4 a = (\<not> v6)"
  shows "create_locked io now d v6 s = (Inr a, s)"
proof -
  obtain st where "storage s = Some st" "ok st" using assms(1) by (auto simp: store_wf_def)
  moreover from this have "FakeIPLoadDomain io d v6 st = Some a"
    using assms by (simp add: load_domain_iff store_Lookup_def)
  ultimately show ?thesis by (simp add: create_locked_def)
qed

lemma create_result:
  assumes "store_wf io ok s" and "store_Create io now d v6 s = (r, s')"
  shows "case r of
      Inl e \<Rightarrow> \<not> prefix_IsValid (family_range v6 s)
        \<and> e = (if v6 then MissingIPv6Range else MissingIPv4Range)
    | Inr a \<Rightarrow> in_pool (family_range v6 s) a \<and> addr_Is4 a = (\<not> v6)
        \<and> store_Lookup io s' a = Some d \<and> create_locked io later d v6 s' = (Inr a, s')"
  using assms
  by (cases rule: create_cases [OF assms(1), where now = now and d = d and ?v6.0 = v6])
    (auto simp: known_domain)

text \<open>
  A record survives until its family has been asked for as many new domains as the pool has
  addresses: the cursor is \<open>t\<close> allocations past the address.
\<close>

definition leased :: "bool \<Rightarrow> addr \<Rightarrow> string \<Rightarrow> ip_prefix \<Rightarrow> nat \<Rightarrow> 'st store \<Rightarrow> bool" where
  "leased v6 a d p k s \<longleftrightarrow>
     store_wf io ok s \<and> family_range v6 s = p \<and> usable_range p \<and> store_Lookup io s a = Some d
     \<and> in_pool p a \<and> addr_Is4 a = (\<not> v6) \<and> in_pool p (family_current v6 s)
     \<and> (\<exists>t \<le> k. slot p (family_current v6 s) = (slot p a + t) mod pool_size p)"

lemma leased_step:
  assumes "leased v6 a d p k s" and "v = v6 \<Longrightarrow> Suc k < pool_size p"
  shows "leased v6 a d p (if v = v6 then Suc k else k) (snd (store_Create io now e v s))"
proof -
  have wf: "store_wf io ok s" and a: "in_pool p a" "addr_Is4 a = (\<not> v6)" "family_range v6 s = p"
    using assms(1) by (simp_all add: leased_def)
  from wf show ?thesis
  proof (cases rule: create_cases [where now = now and d = e and ?v6.0 = v])
    case (new b s')
    show ?thesis
    proof (cases "v = v6")
      case True
      obtain t where t: "t \<le> k" "slot p (family_current v6 s) = (slot p a + t) mod pool_size p"
        using assms(1) by (auto simp: leased_def)
      have slot_b: "slot p b = (slot p a + Suc t) mod pool_size p"
        using assms(1) new(4) t(2) True a(3) by (simp add: leased_def slot_next mod_Suc_eq)
      have "Suc t < pool_size p" using t(1) assms(2) True by simp
      then have "slot p b \<noteq> slot p a"
        using slot_b slot_less [OF a(1)] by (simp add: mod_if split: if_splits)
      then have "b \<noteq> a" by blast
      moreover have "\<exists>u \<le> Suc k. slot p b = (slot p a + u) mod pool_size p"
        using slot_b t(1) by (intro exI [of _ "Suc t"]) simp
      ultimately show ?thesis using assms(1) new True by (simp add: leased_def)
    next
      case False
      then have "v = (\<not> v6)" by blast
      then have "b \<noteq> a" using new(8) a(2) by auto
      with new \<open>v = (\<not> v6)\<close> assms(1) show ?thesis by (simp add: leased_def)
    qed
  qed (use assms(1) in \<open>auto simp: leased_def intro: le_SucI\<close>)
qed

lemma leased_creates:
  assumes "leased v6 a d p k s" and "k + length (filter (\<lambda>(_, _, v). v = v6) qs) < pool_size p"
  shows "\<exists>j. leased v6 a d p j (creates io qs s)"
  using assms
proof (induction qs arbitrary: k s)
  case (Cons q qs)
  obtain now e v where q: "q = (now, e, v)" by (cases q)
  have "leased v6 a d p (if v = v6 then Suc k else k) (snd (store_Create io now e v s))"
    using Cons.prems q by (intro leased_step) (auto split: if_splits)
  moreover have "(if v = v6 then Suc k else k) + length (filter (\<lambda>(_, _, v). v = v6) qs) < pool_size p"
    using Cons.prems(2) by (auto simp: q split: if_splits)
  ultimately show ?case unfolding q creates.simps by (rule Cons.IH)
qed auto

lemma lease:
  assumes "store_wf io ok s" and "LxAddressOf io s d v6 = None"
    and "store_Create io now d v6 s = (Inr a, s1)"
    and "length (filter (\<lambda>(_, _, v). v = v6) qs) < pool_size (family_range v6 s)"
  shows "store_Lookup io (creates io qs s1) a = Some d
    \<and> store_Create io later d v6 (creates io qs s1) = (Inr a, creates io qs s1)"
proof -
  have unknown: "addr_Is4 b = v6" if "store_Lookup io s b = Some d" for b
    using that assms(1,2) by (auto simp: store_wf_def store_Lookup_def LxAddressOf_def load_domain_None)
  have "leased v6 a d (family_range v6 s) 0 s1"
    using assms(3) unknown
    by (cases rule: create_cases [OF assms(1), where now = now and d = d and ?v6.0 = v6])
      (auto simp: leased_def slot_less)
  with assms(4) obtain j where "leased v6 a d (family_range v6 s) j (creates io qs s1)"
    using leased_creates [of v6 a d _ 0] by fastforce
  then show ?thesis by (simp add: leased_def create_eq_locked known_domain)
qed

end

subsection \<open>The memory storage keeps the laws\<close>

definition memory_ok :: "MemoryStorage \<Rightarrow> bool" where
  "memory_ok s \<longleftrightarrow>
     (\<forall>a d. domainCache4 s d = Some a \<longleftrightarrow> addressCache s a = Some d \<and> addr_Is4 a)
     \<and> (\<forall>a d. domainCache6 s d = Some a \<longleftrightarrow> addressCache s a = Some d \<and> \<not> addr_Is4 a)"

lemmas memory_defs = memory_storage_def memory_Metadata_def memory_SaveMetadata_def
  memory_SaveMetadataAsync_def memory_Load_def memory_LoadDomain_def memory_Reset_def

lemma memory_Store_fields:
  "addressCache (snd (memory_Store a d s)) = (addressCache s)(a \<mapsto> d)"
  "domainCache4 (snd (memory_Store a d s)) =
     (if addr_Is4 a then (\<lambda>e. if e = d then Some a
        else if addressCache s a = Some e then None else domainCache4 s e) else domainCache4 s)"
  "domainCache6 (snd (memory_Store a d s)) =
     (if addr_Is4 a then domainCache6 s else (\<lambda>e. if e = d then Some a
        else if addressCache s a = Some e then None else domainCache6 s e))"
  by (auto simp: memory_Store_def Let_def fun_eq_iff split: option.splits)

lemma memory_ok_store:
  assumes "memory_ok s" and "memory_LoadDomain d (\<not> addr_Is4 a) s = None"
  shows "memory_ok (snd (memory_Store a d s))"
proof -
  have four: "domainCache4 s e = Some b \<longleftrightarrow> addressCache s b = Some e \<and> addr_Is4 b"
    and six: "domainCache6 s e = Some b \<longleftrightarrow> addressCache s b = Some e \<and> \<not> addr_Is4 b" for e b
    using assms(1) by (simp_all add: memory_ok_def)
  have unknown: "addr_Is4 b \<noteq> addr_Is4 a" if "addressCache s b = Some d" for b
    using assms(2) that four [of d b] six [of d b] by (auto simp: memory_LoadDomain_def)
  have same: "b = c" if "addressCache s b = Some e" "addressCache s c = Some e" "addr_Is4 b = addr_Is4 c"
    for b c e
    using that four [of e b] four [of e c] six [of e b] six [of e c] by (cases "addr_Is4 b") auto
  show ?thesis
    unfolding memory_ok_def memory_Store_fields
    using four six unknown by (auto split: if_splits dest: same)
qed

interpretation memory: fakeip_storage memory_storage memory_ok
proof
  fix st :: MemoryStorage and a b d v6 m
  show "memory_ok (snd (FakeIPReset memory_storage st))"
    by (simp add: memory_defs memory_ok_def)
  show "FakeIPLoad memory_storage a (snd (FakeIPReset memory_storage st)) = None"
    by (simp add: memory_defs)
  assume ok: "memory_ok st"
  show "memory_ok (snd (FakeIPStore memory_storage a d st))"
    if "FakeIPLoadDomain memory_storage d (\<not> addr_Is4 a) st = None"
    using that memory_ok_store [OF ok] by (simp add: memory_storage_def)
  show "FakeIPLoad memory_storage b (snd (FakeIPStore memory_storage a d st)) =
      (if b = a then Some d else FakeIPLoad memory_storage b st)"
    by (simp add: memory_storage_def memory_Load_def memory_Store_fields)
  show "FakeIPLoadDomain memory_storage d v6 st = Some a \<longleftrightarrow>
      FakeIPLoad memory_storage a st = Some d \<and> addr_Is4 a = (\<not> v6)"
    using ok by (simp add: memory_defs memory_ok_def)
  show "memory_ok (FakeIPSaveMetadataAsync memory_storage m st)"
    using ok by (simp add: memory_defs)
  show "FakeIPLoad memory_storage a (FakeIPSaveMetadataAsync memory_storage m st) =
      FakeIPLoad memory_storage a st"
    by (simp add: memory_defs)
qed

subsection \<open>Stores reached from a configuration\<close>

text \<open>A configured range is absent, or of its family and with at least one address to hand out.\<close>

definition configured :: "bool \<Rightarrow> ip_prefix \<Rightarrow> bool" where
  "configured v6 p \<longleftrightarrow>
     (prefix_IsValid p \<longrightarrow> usable_range p \<and> addr_Is4 (prefix_Addr p) = (\<not> v6))"

definition memory_store :: "ip_prefix \<Rightarrow> ip_prefix \<Rightarrow> (int \<times> string \<times> bool) list \<Rightarrow> MemoryStorage store"
  where
  "memory_store r4 r6 qs =
     creates memory_storage qs (store_Start memory_storage NewMemoryStorage (NewStore r4 r6))"

lemma start_wf:
  assumes "configured False r4" and "configured True r6"
  shows "store_wf memory_storage memory_ok
    (store_Start memory_storage NewMemoryStorage (NewStore r4 r6))"
proof -
  let ?s = "store_Start memory_storage NewMemoryStorage (NewStore r4 r6 :: MemoryStorage store)"
  have start: "?s = start_fresh memory_storage NewMemoryStorage (NewStore r4 r6)"
    by (simp add: store_Start_def memory_storage_def memory_Metadata_def)
  have "inet4Range ?s = r4" "inet6Range ?s = r6"
      "inet4Last ?s = (if prefix_IsValid r4 then broadcastAddress r4 else NoAddr)"
      "inet6Last ?s = (if prefix_IsValid r6 then broadcastAddress r6 else NoAddr)"
      "inet4Current ?s = (if prefix_IsValid r4 then addr_Next (prefix_Addr r4) else NoAddr)"
      "inet6Current ?s = (if prefix_IsValid r6 then addr_Next (prefix_Addr r6) else NoAddr)"
    unfolding start by (simp_all add: start_fresh_def NewStore_def Let_def)
  then have "family_ok v ?s" for v
    using assms usable_first [of r4] usable_first [of r6]
    by (cases v) (simp_all add: family_ok_def family_defs configured_def)
  moreover have "storage ?s = Some (snd (FakeIPReset memory_storage NewMemoryStorage))"
    unfolding start by (simp add: start_fresh_def Let_def)
  ultimately show ?thesis
    by (simp add: store_wf_def memory.ok_reset memory.load_reset)
qed

lemma creates_wf:
  "store_wf memory_storage memory_ok s \<Longrightarrow>
    store_wf memory_storage memory_ok (creates memory_storage qs s)
    \<and> family_range v (creates memory_storage qs s) = family_range v s"
  by (induction memory_storage qs s rule: creates.induct)
    (use memory.create_wf in auto)

lemma memory_store_wf:
  "configured False r4 \<Longrightarrow> configured True r6 \<Longrightarrow>
    store_wf memory_storage memory_ok (memory_store r4 r6 qs)"
  unfolding memory_store_def by (intro creates_wf [THEN conjunct1] start_wf)

lemma memory_store_range:
  assumes "configured False r4" and "configured True r6"
  shows "family_range v (memory_store r4 r6 qs) = (if v then r6 else r4)"
proof -
  have "family_range v (memory_store r4 r6 qs) =
      family_range v (store_Start memory_storage NewMemoryStorage (NewStore r4 r6 :: MemoryStorage store))"
    unfolding memory_store_def using creates_wf start_wf assms by blast
  then show ?thesis
    by (simp add: store_Start_def memory_storage_def memory_Metadata_def start_fresh_def
        NewStore_def family_range_def Let_def)
qed

subsection \<open>Properties\<close>

definition sample_range4 :: ip_prefix where
  "sample_range4 = IPPrefix (V4 0xC6120000) 29"

definition sample_range6 :: ip_prefix where
  "sample_range6 = IPPrefix (V6 0xFC000000000000000000000000000000) 18"

lemma sample_configured: "configured False sample_range4 \<and> configured True sample_range6"
  by (simp add: configured_def sample_range4_def sample_range6_def usable_range_def first_host_def
      broadcastAddress_V4 broadcastAddress_V6 prefix_Contains_def mask_eq_exp_minus_1)

lemma sample_broadcast:
  "broadcastAddress sample_range4 = V4 0xC6120007"
  "broadcastAddress sample_range6 = V6 0xFC003FFFFFFFFFFFFFFFFFFFFFFFFFFF"
  by (simp_all add: sample_range4_def sample_range6_def broadcastAddress_V4 broadcastAddress_V6
      mask_eq_exp_minus_1)

lemmas sample_run = memory_store_def store_Start_def start_fresh_def NewStore_def sample_broadcast
  store_Create_def create_locked_def allocate_def nextAddress_def Let_def memory_defs
  memory_Store_def NewMemoryStorage_def LxAddressOf_def LxDomainOf_def store_Lookup_def
  lxNoteCreate_keeps pool_size_def

lemma sample_ranges:
  "prefix_IsValid sample_range4" "prefix_Addr sample_range4 = V4 0xC6120000"
  "prefix_IsValid sample_range6" "prefix_Addr sample_range6 = V6 0xFC000000000000000000000000000000"
  "prefix_Contains sample_range4 (V4 w) \<longleftrightarrow> drop_bit 3 (0xC6120000 XOR w) = 0"
  "prefix_Contains sample_range6 (V6 v) \<longleftrightarrow> drop_bit 110 (0xFC000000000000000000000000000000 XOR v) = 0"
  by (simp_all add: sample_range4_def sample_range6_def prefix_Contains_def)

text \<open>
  C3: \<^verbatim>\<open>Store.Create\<close>, after any sequence of queries to a store on usable ranges, fails
  only for a family without a range; otherwise its address lies in the range of the family, is
  none of the first two addresses and not the broadcast address, \<^verbatim>\<open>Lookup\<close> gives the domain
  back, and a second caller that missed the unlocked check gets the same address and allocates
  nothing.
\<close>

theorem fakeip_create_sound:
  assumes "configured False r4" and "configured True r6"
    and "store_Create memory_storage now d v6 (memory_store r4 r6 qs) = (r, s')"
  shows "case r of
      Inl e \<Rightarrow> \<not> prefix_IsValid (if v6 then r6 else r4)
        \<and> e = (if v6 then MissingIPv6Range else MissingIPv4Range)
    | Inr a \<Rightarrow> in_pool (if v6 then r6 else r4) a \<and> store_Contains s' a \<and> addr_Is4 a = (\<not> v6)
        \<and> store_Lookup memory_storage s' a = Some d
        \<and> create_locked memory_storage later d v6 s' = (Inr a, s')"
proof -
  note wf = memory_store_wf [OF assms(1,2), of qs]
  note range = memory_store_range [OF assms(1,2), of _ qs]
  have "family_range v s' = (if v then r6 else r4)" for v
    using memory.create_wf [OF wf, of now d v6 v] assms(3) range [of v] by simp
  then have "inet4Range s' = r4" "inet6Range s' = r6"
    by (metis family_range_def)+
  then show ?thesis
    using memory.create_result [OF wf assms(3), of later] range [of v6]
    by (auto simp: in_pool_def store_Contains_def split: sum.splits if_splits)
qed

theorem fakeip_create_sound_witness:
  "\<exists>s'. store_Create memory_storage 7 ''b'' False
      (memory_store sample_range4 sample_range6 [(1, ''a'', False), (2, ''a'', True)])
      = (Inr (V4 0xC6120003), s')
    \<and> in_pool sample_range4 (V4 0xC6120003)
    \<and> store_Lookup memory_storage s' (V4 0xC6120003) = Some ''b''"
proof -
  let ?s = "memory_store sample_range4 sample_range6 [(1, ''a'', False), (2, ''a'', True)]"
  obtain r s' where run: "store_Create memory_storage 7 ''b'' False ?s = (r, s')"
    by (cases "store_Create memory_storage 7 ''b'' False ?s")
  have "fst (store_Create memory_storage 7 ''b'' False ?s) = Inr (V4 0xC6120003)"
    by (simp add: sample_run sample_ranges)
  then have "r = Inr (V4 0xC6120003)" using run by simp
  then show ?thesis
    using fakeip_create_sound [OF sample_configured [THEN conjunct1] sample_configured [THEN conjunct2] run]
      run by auto
qed

text \<open>
  C13: a fakeip record is kept for a full turn of the pool.  Once \<^verbatim>\<open>Create\<close> has allocated an
  address for an unknown domain, fewer further queries of that family than the pool has
  addresses, with any number of queries of the other family in between, leave the address with
  that domain, and the domain with that address.
\<close>

theorem fakeip_lease:
  assumes "configured False r4" and "configured True r6"
    and "LxAddressOf memory_storage (memory_store r4 r6 before) d v6 = None"
    and "store_Create memory_storage now d v6 (memory_store r4 r6 before) = (Inr a, s)"
    and "length (filter (\<lambda>(_, _, v). v = v6) qs) < pool_size (if v6 then r6 else r4)"
  shows "store_Lookup memory_storage (creates memory_storage qs s) a = Some d
    \<and> store_Create memory_storage later d v6 (creates memory_storage qs s)
      = (Inr a, creates memory_storage qs s)"
  using memory.lease [OF memory_store_wf [OF assms(1,2)] assms(3,4)] assms(5)
  by (simp add: memory_store_range [OF assms(1,2)])

theorem fakeip_lease_witness:
  "\<exists>s. store_Create memory_storage 1 ''a'' False (memory_store sample_range4 sample_range6 [])
      = (Inr (V4 0xC6120002), s)
    \<and> store_Lookup memory_storage
        (creates memory_storage [(2, ''b'', False), (3, ''c'', False), (4, ''a'', True), (5, ''d'', False)] s)
        (V4 0xC6120002) = Some ''a''"
proof -
  let ?s = "memory_store sample_range4 sample_range6 []"
  let ?qs = "[(2, ''b'', False), (3, ''c'', False), (4, ''a'', True), (5, ''d'', False)]"
  obtain r s where run: "store_Create memory_storage 1 ''a'' False ?s = (r, s)"
    by (cases "store_Create memory_storage 1 ''a'' False ?s")
  have "fst (store_Create memory_storage 1 ''a'' False ?s) = Inr (V4 0xC6120002)" by (simp add: sample_run sample_ranges)
  then have r: "store_Create memory_storage 1 ''a'' False ?s = (Inr (V4 0xC6120002), s)" using run by simp
  have "LxAddressOf memory_storage ?s ''a'' False = None" by (simp add: sample_run sample_ranges)
  moreover have "length (filter (\<lambda>(_, _, v). v = False) ?qs) < pool_size (if False then sample_range6 else sample_range4)"
    by (simp add: sample_run sample_ranges)
  ultimately show ?thesis
    using fakeip_lease [OF sample_configured [THEN conjunct1] sample_configured [THEN conjunct2] _ r]
      r by blast
qed

text \<open>
  C32: the address index and the domain indexes of a reached store are converse to each other:
  \<^verbatim>\<open>FakeIPLoadDomain\<close> finds an address exactly when \<^verbatim>\<open>FakeIPLoad\<close> finds the domain there,
  so two domains never share an address and a domain has at most one address per family.
\<close>

theorem fakeip_indexes_converse:
  assumes "configured False r4" and "configured True r6"
  shows "LxAddressOf memory_storage (memory_store r4 r6 qs) d v6 = Some a \<longleftrightarrow>
    LxDomainOf memory_storage (memory_store r4 r6 qs) a = Some d \<and> addr_Is4 a = (\<not> v6)"
proof -
  obtain st where "storage (memory_store r4 r6 qs) = Some st" "memory_ok st"
    using memory_store_wf [OF assms, of qs] by (auto simp: store_wf_def)
  then show ?thesis by (simp add: LxAddressOf_def LxDomainOf_def memory.load_domain_iff)
qed

theorem fakeip_indexes_converse_witness:
  "LxAddressOf memory_storage (memory_store sample_range4 sample_range6 [(1, ''a'', False)]) ''a'' False
     = Some (V4 0xC6120002)
   \<and> LxDomainOf memory_storage (memory_store sample_range4 sample_range6 [(1, ''a'', False)]) (V4 0xC6120002)
     = Some ''a''"
proof -
  have "LxAddressOf memory_storage (memory_store sample_range4 sample_range6 [(1, ''a'', False)]) ''a'' False
     = Some (V4 0xC6120002)" by (simp add: sample_run sample_ranges)
  then show ?thesis
    using fakeip_indexes_converse [OF sample_configured [THEN conjunct1] sample_configured [THEN conjunct2],
        of "[(1, ''a'', False)]" "''a''" False "V4 0xC6120002"] by blast
qed

text \<open>
  a range of one address has no pool.  The store still starts on it, and every address
  \<^verbatim>\<open>Create\<close> hands out is the second one after it, outside the range, which
  \<^verbatim>\<open>Contains\<close> does not recognise.
\<close>

theorem fakeip_single_address_range:
  assumes "w + 1 \<noteq> 0" and "w + 2 \<noteq> 0"
  shows "let s = store_Start memory_storage NewMemoryStorage (NewStore (IPPrefix (V4 w) 32) NoPrefix) in
    fst (store_Create memory_storage now d False s) = Inr (V4 (w + 2))
    \<and> \<not> store_Contains (snd (store_Create memory_storage now d False s)) (V4 (w + 2))"
proof -
  define s0 where "s0 = store_Start memory_storage NewMemoryStorage (NewStore (IPPrefix (V4 w) 32) NoPrefix)"
  have next_addr: "addr_Next (V4 (w + 1)) = V4 (w + 2)" using assms(2) by (simp add: add.assoc)
  have outside: "\<not> prefix_Contains (IPPrefix (V4 w) 32) (V4 (w + 2))"
    by (simp add: prefix_Contains_def)
  have s0: "s0 = start_fresh memory_storage NewMemoryStorage (NewStore (IPPrefix (V4 w) 32) NoPrefix)"
    by (simp add: s0_def store_Start_def memory_storage_def memory_Metadata_def)
  have fields: "inet4Range s0 = IPPrefix (V4 w) 32" "inet6Range s0 = NoPrefix"
      "inet4Current s0 = V4 (w + 1)" "storage s0 = Some NewMemoryStorage"
    using assms(1) by (simp_all add: s0 start_fresh_def NewStore_def Let_def memory_defs NewMemoryStorage_def)
  have "nextAddress (IPPrefix (V4 w) 32) (inet4Last s0) (V4 (w + 1)) = V4 (w + 2)"
    using assms(1) outside next_addr by (simp add: nextAddress_def Let_def)
  then show ?thesis
    unfolding Let_def s0_def [symmetric]
    using outside by (simp add: store_Create_def create_locked_def allocate_def fields Let_def memory_defs
        NewMemoryStorage_def store_Contains_def prefix_Contains_def [of NoPrefix])
qed

theorem fakeip_single_address_range_witness:
  "fst (store_Create memory_storage 1 ''a'' False
      (store_Start memory_storage NewMemoryStorage (NewStore (IPPrefix (V4 0x0A000001) 32) NoPrefix)))
    = Inr (V4 0x0A000003)"
  using fakeip_single_address_range [of "0x0A000001" 1 "''a''"] by (simp add: Let_def)

text \<open>The number of wraps the history of a store has counted for a family.\<close>

definition wrap_count :: "bool \<Rightarrow> 'st store \<Rightarrow> 64 word" where
  "wrap_count v6 s =
     (case lxWraps s of
        None \<Rightarrow> 0
      | Some w \<Rightarrow> wrap_Count (family_wrap (if v6 then wraps_inet6 w else wraps_inet4 w)))"

lemma wrap_count_updates [simp]:
  "wrap_count v6 (s\<lparr>inet4Current := a\<rparr>) = wrap_count v6 s"
  "wrap_count v6 (s\<lparr>inet6Current := a\<rparr>) = wrap_count v6 s"
  "wrap_count v6 (s\<lparr>storage := st\<rparr>) = wrap_count v6 s"
  by (simp_all add: wrap_count_def)

lemma note_wrap_count:
  "wrap_Count (family_wrap (note_wrap now wrapped f)) =
     wrap_Count (family_wrap f) + (if wrapped then 1 else 0)"
  by (simp add: note_wrap_def Let_def split: option.splits)

lemma lxNoteCreate_count:
  "wrap_count v6 (lxNoteCreate now p4 p6 s) =
     wrap_count v6 s + (if addr_Less (family_current v6 s) (if v6 then p6 else p4) then 1 else 0)"
proof -
  have "\<not> addr_Less a a" for a by (simp add: addr_Less_def)
  then show ?thesis
    by (auto simp: wrap_count_def lxNoteCreate_def Let_def note_wrap_count family_current_def
        no_store_wraps_def no_family_wraps_def split: option.splits)
qed

lemma next_Less_iff:
  assumes "usable_range p" and "cursor p c" and "2 \<le> pool_size p"
  shows "addr_Less (nextAddress p (broadcastAddress p) c) c \<longleftrightarrow>
    Suc (addr_val c) = addr_val (broadcastAddress p)"
proof -
  have "prefix_Contains p c" "prefix_Contains p (first_host p)" "prefix_Contains p (addr_Next c)"
      "addr_val (addr_Next c) = Suc (addr_val c)"
      "addr_val (first_host p) = addr_val (prefix_Addr p) + 2"
    using assms(2) usable_first [OF assms(1)] contains_Next [of p c]
    by (auto simp: cursor_def in_pool_def slot_def)
  then show ?thesis
    using contains_family [of p c] contains_family [of p "first_host p"]
      contains_family [of p "addr_Next c"] assms(3)
    by (auto simp: nextAddress_pool [OF assms(1,2)] addr_Less_def pool_size_def)
qed

text \<open>
  the pool-wrap counter of \<^verbatim>\<open>store_lx.go\<close> counts the turns of the pool.  On a pool of at
  least two addresses an allocation adds one (modulo the width of the counter) exactly when it
  came after the last address before the broadcast address, that is when it jumped to the start.
\<close>

theorem fakeip_wrap_counted:
  assumes "configured False r4" and "configured True r6"
    and "prefix_IsValid (if v6 then r6 else r4)" and "2 \<le> pool_size (if v6 then r6 else r4)"
    and "LxAddressOf memory_storage (memory_store r4 r6 qs) d v6 = None"
  shows "wrap_count v6 (snd (store_Create memory_storage now d v6 (memory_store r4 r6 qs))) =
    wrap_count v6 (memory_store r4 r6 qs) +
      (if Suc (addr_val (family_current v6 (memory_store r4 r6 qs))) =
          addr_val (broadcastAddress (if v6 then r6 else r4)) then 1 else 0)"
proof -
  let ?s = "memory_store r4 r6 qs" and ?p = "if v6 then r6 else r4"
  obtain st where st: "storage ?s = Some st"
    using memory_store_wf [OF assms(1,2), of qs] by (auto simp: store_wf_def)
  have p: "family_range v6 ?s = ?p" by (rule memory_store_range [OF assms(1,2)])
  have fam: "usable_range ?p" "family_last v6 ?s = broadcastAddress ?p" "cursor ?p (family_current v6 ?s)"
    using memory.wf_family [OF memory_store_wf [OF assms(1,2), of qs], of v6] assms(3)
    by (simp_all only: family_ok_def p if_True)
  have "addr_IsValid (family_current v6 ?s)"
    using fam(3) contains_family [of ?p "family_current v6 ?s"] by (simp only: cursor_def)
  then have run: "snd (store_Create memory_storage now d v6 ?s) = snd (allocate memory_storage now d v6 st ?s)"
    using assms(5) st by (simp add: store_Create_def create_locked_def LxAddressOf_def)
  show ?thesis
    unfolding run next_Less_iff [OF fam(1,3) assms(4), symmetric]
    using \<open>addr_IsValid (family_current v6 ?s)\<close> p fam(2)
    by (auto simp: allocate_cases lxNoteCreate_count Let_def family_current_def)
qed

theorem fakeip_wrap_counted_witness:
  "wrap_count False (snd (store_Create memory_storage 9 ''f'' False
      (memory_store sample_range4 sample_range6
        [(1, ''a'', False), (2, ''b'', False), (3, ''c'', False), (4, ''d'', False), (5, ''e'', False)])))
   = wrap_count False
      (memory_store sample_range4 sample_range6
        [(1, ''a'', False), (2, ''b'', False), (3, ''c'', False), (4, ''d'', False), (5, ''e'', False)]) + 1"
proof -
  let ?qs = "[(1, ''a'', False), (2, ''b'', False), (3, ''c'', False), (4, ''d'', False), (5, ''e'', False)]"
  have "LxAddressOf memory_storage (memory_store sample_range4 sample_range6 ?qs) ''f'' False = None"
    by (simp add: sample_run sample_ranges)
  moreover have "Suc (addr_val (family_current False (memory_store sample_range4 sample_range6 ?qs))) =
      addr_val (broadcastAddress sample_range4)"
    by (simp add: sample_run sample_ranges family_current_def)
  moreover have "2 \<le> pool_size sample_range4" by (simp add: sample_run sample_ranges)
  ultimately show ?thesis
    using fakeip_wrap_counted [OF sample_configured [THEN conjunct1] sample_configured [THEN conjunct2],
        of False ?qs "''f''" 9] by (simp add: sample_ranges)
qed

text \<open>
  the fakeip server on a query.  Types other than A and AAAA are refused; a family without
  range gets an empty successful answer; a name over 255 bytes is refused; every other query is
  answered by one record of the query's own name and type, with the default lifetime, whose
  address is in the range and looks up to the name without its final dot.
\<close>

theorem fakeip_exchange:
  assumes "configured False r4" and "configured True r6"
    and "Exchange IsFqdn memory_storage now ident (q # qs)
      \<lparr>t_store = memory_store r4 r6 before, inet4Enabled = prefix_IsValid r4,
       inet6Enabled = prefix_IsValid r6\<rparr> = (r, t)"
  shows "if q_Qtype q \<noteq> TypeA \<and> q_Qtype q \<noteq> TypeAAAA then r = Inl OnlyIPQueries
    else if \<not> prefix_IsValid (if q_Qtype q = TypeAAAA then r6 else r4)
      then r = Inr (FixedResponseStatus ident (q # qs) 0)
    else if 255 < length (FqdnToDomain IsFqdn (q_Name q)) then r = Inl DomainTooLong
    else \<exists>a. r = Inr \<lparr>reply_Id = ident, reply_Response = True, reply_Authoritative = True,
        reply_RecursionDesired = True, reply_RecursionAvailable = True, reply_Rcode = 0,
        reply_Question = [q],
        reply_Answer = [if q_Qtype q = TypeA then RR_A (q_Name q) 600 a else RR_AAAA (q_Name q) 600 a]\<rparr>
      \<and> in_pool (if q_Qtype q = TypeAAAA then r6 else r4) a
      \<and> store_Lookup memory_storage (t_store t) a = Some (FqdnToDomain IsFqdn (q_Name q))"
proof -
  let ?v6 = "q_Qtype q = TypeAAAA" and ?d = "FqdnToDomain IsFqdn (q_Name q)"
  obtain res s where run: "store_Create memory_storage now ?d ?v6 (memory_store r4 r6 before) = (res, s)"
    by (cases "store_Create memory_storage now ?d ?v6 (memory_store r4 r6 before)")
  have res: "case res of Inl e \<Rightarrow> \<not> prefix_IsValid (if ?v6 then r6 else r4)
      | Inr a \<Rightarrow> in_pool (if ?v6 then r6 else r4) a \<and> addr_Is4 a = (\<not> ?v6)
          \<and> store_Lookup memory_storage s a = Some ?d"
    using memory.create_result [OF memory_store_wf [OF assms(1,2)] run]
    by (auto simp: memory_store_range [OF assms(1,2)] split: sum.splits)
  have types: "TypeA \<noteq> TypeAAAA" by (simp add: TypeA_def TypeAAAA_def)
  have is6: "addr_Is6 a \<longleftrightarrow> \<not> addr_Is4 a" if "in_pool p a" for a p
    using that contains_family [of p a] by (cases a) (auto simp: in_pool_def)
  show ?thesis
  proof (cases res)
    case (Inl e)
    with res run assms(3) types show ?thesis
      by (auto simp: Exchange_def Let_def split: if_splits)
  next
    case (Inr a)
    with res run assms(3) types is6 [of "if ?v6 then r6 else r4" a] show ?thesis
      by (auto simp: Exchange_def Let_def FixedResponse_def DefaultDNSTTL_def split: if_splits)
  qed
qed

theorem fakeip_exchange_witness:
  "\<exists>t. Exchange (\<lambda>s. s \<noteq> [] \<and> last s = CHR ''.'') memory_storage 1 77
      [\<lparr>q_Name = ''a.b.'', q_Qtype = TypeA, q_Qclass = 1\<rparr>]
      \<lparr>t_store = memory_store sample_range4 sample_range6 [], inet4Enabled = prefix_IsValid sample_range4,
       inet6Enabled = prefix_IsValid sample_range6\<rparr>
     = (Inr (FixedResponse 77 \<lparr>q_Name = ''a.b.'', q_Qtype = TypeA, q_Qclass = 1\<rparr> [V4 0xC6120002] 600), t)
   \<and> store_Lookup memory_storage (t_store t) (V4 0xC6120002) = Some ''a.b''"
proof -
  let ?f = "\<lambda>s. s \<noteq> [] \<and> last s = CHR ''.''"
  let ?q = "\<lparr>q_Name = ''a.b.'', q_Qtype = TypeA, q_Qclass = 1\<rparr>"
  let ?t = "\<lparr>t_store = memory_store sample_range4 sample_range6 [], inet4Enabled = prefix_IsValid sample_range4,
       inet6Enabled = prefix_IsValid sample_range6\<rparr>"
  obtain r t where run: "Exchange ?f memory_storage 1 77 [?q] ?t = (r, t)"
    by (cases "Exchange ?f memory_storage 1 77 [?q] ?t")
  have "fst (Exchange ?f memory_storage 1 77 [?q] ?t) = Inr (FixedResponse 77 ?q [V4 0xC6120002] 600)"
    by (simp add: Exchange_def FqdnToDomain_def DefaultDNSTTL_def TypeA_def TypeAAAA_def sample_run sample_ranges)
  then have "r = Inr (FixedResponse 77 ?q [V4 0xC6120002] 600)" using run by simp
  then show ?thesis
    using fakeip_exchange [OF sample_configured [THEN conjunct1] sample_configured [THEN conjunct2] run] run
    by (auto simp: TypeA_def TypeAAAA_def FqdnToDomain_def sample_ranges FixedResponse_def)
qed

end
