(* ===== verification/TransportManager.thy ===== *)
theory TransportManager
  imports OutboundManager
begin

text \<open>
  The manager of DNS servers: \<^verbatim>\<open>dns/transport_manager.go\<close>, and the constructors of the adapter
  that the servers embed (\<^verbatim>\<open>dns/transport_adapter.go\<close>).  It shares the start loop of
  \<open>StartOrder\<close> with the outbounds; its error search looks a dependency up in
  \<^verbatim>\<open>transportByTag\<close>.
\<close>

subsection \<open>Servers\<close>

record dns_transport = adapter +
  transportReferences :: "string list"
  transportOutboundTag :: string

definition NewTransportAdapter :: "string \<Rightarrow> string \<Rightarrow> string list \<Rightarrow> dns_transport" where
  "NewTransportAdapter transportType transportTag dependencies =
     \<lparr>adapterType = transportType, adapterTag = transportTag, adapterNetwork = [],
      adapterDependencies = dependencies, transportReferences = [], transportOutboundTag = []\<rparr>"

text \<open>\<open>domainResolver\<close> is the server of the resolver options, if there are any.\<close>

definition NewTransportAdapterWithLocalOptions ::
    "string \<Rightarrow> string \<Rightarrow> string option \<Rightarrow> string \<Rightarrow> dns_transport" where
  "NewTransportAdapterWithLocalOptions transportType transportTag domainResolver detour =
     \<lparr>adapterType = transportType, adapterTag = transportTag, adapterNetwork = [],
      adapterDependencies =
        (case domainResolver of None \<Rightarrow> [] | Some server \<Rightarrow> if server \<noteq> [] then [server] else []),
      transportReferences = (if detour \<noteq> [] then [detour] else []),
      transportOutboundTag = detour\<rparr>"

definition NewTransportAdapterWithRemoteOptions ::
    "string \<Rightarrow> string \<Rightarrow> string option \<Rightarrow> string \<Rightarrow> dns_transport" where
  "NewTransportAdapterWithRemoteOptions transportType transportTag domainResolver detour =
     \<lparr>adapterType = transportType, adapterTag = transportTag, adapterNetwork = [],
      adapterDependencies =
        (case domainResolver of None \<Rightarrow> [] | Some server \<Rightarrow> if server \<noteq> [] then [server] else []),
      transportReferences = (if detour \<noteq> [] then [detour] else []),
      transportOutboundTag = detour\<rparr>"

definition DNSTypeFakeIP :: string where
  "DNSTypeFakeIP = ''fakeip''"

subsection \<open>The manager\<close>

record transport_manager =
  tm_defaultTag :: string
  transports :: "dns_transport list"
  transportByTag :: "(string \<times> dns_transport) list"
  defaultTransport :: "dns_transport option"
  fakeIPTransport :: "dns_transport option"

datatype 'e transport_error =
    TransportInvalid
  | TransportRegistryError 'e
  | DuplicateServerTag string
  | DefaultServerNotFound string
  | DefaultCannotBeFakeIP
  | MultipleFakeIP
  | ServerFallbackError 'e
  | ServerError 'e
  | ServerDependencyError "'e start_failure"

definition NewTransportManager :: "string \<Rightarrow> transport_manager" where
  "NewTransportManager tag =
     \<lparr>tm_defaultTag = tag, transports = [], transportByTag = [], defaultTransport = None,
      fakeIPTransport = None\<rparr>"

text \<open>An error after the duplicate check leaves the server in the list and in the index.\<close>

definition transport_Create ::
    "(string \<Rightarrow> string \<Rightarrow> 'ob \<Rightarrow> 'e + dns_transport) \<Rightarrow> string \<Rightarrow> string \<Rightarrow> 'ob
      \<Rightarrow> transport_manager \<Rightarrow> 'e transport_error option \<times> transport_manager" where
  "transport_Create registry tag transportType options mg =
     (if tag = [] then (Some TransportInvalid, mg)
      else
        (case registry tag transportType options of
           Inl e \<Rightarrow> (Some (TransportRegistryError e), mg)
         | Inr x \<Rightarrow>
             (if map_of (transportByTag mg) tag \<noteq> None then (Some (DuplicateServerTag tag), mg)
              else
                (let mg1 = mg\<lparr>transports := transports mg @ [x],
                              transportByTag := AList.update tag x (transportByTag mg)\<rparr>;
                     isDefault = (tag = tm_defaultTag mg1
                                  \<or> tm_defaultTag mg1 = [] \<and> defaultTransport mg1 = None)
                 in if isDefault \<and> adapterType x = DNSTypeFakeIP then (Some DefaultCannotBeFakeIP, mg1)
                    else
                      (let mg2 = (if isDefault then mg1\<lparr>defaultTransport := Some x\<rparr> else mg1)
                       in if adapterType x = DNSTypeFakeIP
                          then (if fakeIPTransport mg2 \<noteq> None then (Some MultipleFakeIP, mg2)
                                else (None, mg2\<lparr>fakeIPTransport := Some x\<rparr>))
                          else (None, mg2))))))"

definition manager_Transport :: "transport_manager \<Rightarrow> string \<Rightarrow> dns_transport option" where
  "manager_Transport mg tag = map_of (transportByTag mg) tag"

definition transport_name :: "dns_transport \<Rightarrow> string" where
  "transport_name x = ''dns/'' @ adapterType x @ ''['' @ adapterTag x @ '']''"

fun start_transport ::
    "'e err_lib \<Rightarrow> (dns_transport, 'f, 'e, 'w) start_method \<Rightarrow> dns_transport
      \<Rightarrow> (dns_transport, 'f) scope \<times> 'w \<Rightarrow> 'e option \<times> (dns_transport, 'f) scope \<times> 'w" where
  "start_transport L start x (sc, w) =
     scope_Start L start (transport_name x) x StartStateStart sc w"

definition startTransports ::
    "'e err_lib \<Rightarrow> (dns_transport, 'f, 'e, 'w) start_method \<Rightarrow> transport_manager
      \<Rightarrow> dns_transport list \<Rightarrow> (dns_transport, 'f) scope \<times> 'w
      \<Rightarrow> ('e start_failure + string list) \<times> (dns_transport, 'f) scope \<times> 'w" where
  "startTransports L start mg xs st =
     start_rounds (start_transport L start) (transportByTag mg) xs [] st"

fun start_each_transport ::
    "'e err_lib \<Rightarrow> (dns_transport, 'f, 'e, 'w) start_method \<Rightarrow> StartStage \<Rightarrow> dns_transport list
      \<Rightarrow> (dns_transport, 'f) scope \<times> 'w \<Rightarrow> 'e option \<times> (dns_transport, 'f) scope \<times> 'w" where
  "start_each_transport L start stage [] st = (None, st)"
| "start_each_transport L start stage (x # xs) st =
     (case scope_Start L start (transport_name x) x stage (fst st) (snd st) of
        (Some e, st') \<Rightarrow> (Some e, st')
      | (None, st') \<Rightarrow> start_each_transport L start stage xs st')"

definition initialize_server ::
    "('e + dns_transport) \<Rightarrow> transport_manager \<Rightarrow> 'e transport_error + transport_manager" where
  "initialize_server fallback mg =
     (if tm_defaultTag mg \<noteq> [] \<and> defaultTransport mg = None
      then Inl (DefaultServerNotFound (tm_defaultTag mg))
      else if defaultTransport mg = None
      then (case fallback of
              Inl e \<Rightarrow> Inl (ServerFallbackError e)
            | Inr x \<Rightarrow>
                Inr (mg\<lparr>transports := transports mg @ [x],
                        transportByTag := AList.update (adapterTag x) x (transportByTag mg),
                        defaultTransport := Some x\<rparr>))
      else Inr mg)"

definition transport_Start ::
    "'e err_lib \<Rightarrow> (dns_transport, 'f, 'e, 'w) start_method \<Rightarrow> ('e + dns_transport) \<Rightarrow> StartStage
      \<Rightarrow> transport_manager \<Rightarrow> (dns_transport, 'f) scope \<times> 'w
      \<Rightarrow> 'e transport_error option \<times> transport_manager \<times> (dns_transport, 'f) scope \<times> 'w" where
  "transport_Start L start fallback stage mg st =
     (case (if stage = StartStateInitialize then initialize_server fallback mg else Inr mg) of
        Inl e \<Rightarrow> (Some e, mg, st)
      | Inr mg1 \<Rightarrow>
          (if stage = StartStateStart then
             (case startTransports L start mg1 (transports mg1) st of
                (Inl f, st') \<Rightarrow> (Some (ServerDependencyError f), mg1, st')
              | (Inr started, st') \<Rightarrow> (None, mg1, st'))
           else
             (case start_each_transport L start stage (transports mg1) st of
                (err, st') \<Rightarrow> (map_option ServerError err, mg1, st'))))"

subsection \<open>Lemmas\<close>

text \<open>Creating the configured servers: the first error ends it.\<close>

fun create_servers ::
    "(string \<Rightarrow> string \<Rightarrow> 'ob \<Rightarrow> 'e + dns_transport) \<Rightarrow> (string \<times> string \<times> 'ob) list
      \<Rightarrow> transport_manager \<Rightarrow> 'e transport_error + transport_manager" where
  "create_servers registry [] mg = Inr mg"
| "create_servers registry ((tag, ty, ob) # cs) mg =
     (case transport_Create registry tag ty ob mg of
        (Some e, mg') \<Rightarrow> Inl e
      | (None, mg') \<Rightarrow> create_servers registry cs mg')"

definition is_fakeip :: "dns_transport \<Rightarrow> bool" where
  "is_fakeip x \<longleftrightarrow> adapterType x = DNSTypeFakeIP"

definition servers_ok :: "transport_manager \<Rightarrow> bool" where
  "servers_ok mg \<longleftrightarrow>
     map_of (transportByTag mg) = map_of (by_tag (transports mg))
     \<and> distinct (map adapterTag (transports mg))
     \<and> defaultTransport mg =
         (if tm_defaultTag mg = [] then (if transports mg = [] then None else Some (hd (transports mg)))
          else map_of (transportByTag mg) (tm_defaultTag mg))
     \<and> (\<forall>x. defaultTransport mg = Some x \<longrightarrow> \<not> is_fakeip x)
     \<and> filter is_fakeip (transports mg) = (case fakeIPTransport mg of None \<Rightarrow> [] | Some x \<Rightarrow> [x])"

lemma transport_Create_new:
  assumes "transport_Create registry tag ty ob mg = (None, mg')"
    and "\<And>x. registry tag ty ob = Inr x \<Longrightarrow> adapterTag x = tag"
  obtains x where "registry tag ty ob = Inr x" "tag \<noteq> []" "map_of (transportByTag mg) tag = None"
    "adapterTag x = tag"
    "let isDefault = (tag = tm_defaultTag mg \<or> tm_defaultTag mg = [] \<and> defaultTransport mg = None)
     in \<not> (isDefault \<and> is_fakeip x) \<and> \<not> (is_fakeip x \<and> fakeIPTransport mg \<noteq> None)
      \<and> mg' = mg\<lparr>transports := transports mg @ [x],
            transportByTag := AList.update tag x (transportByTag mg),
            defaultTransport := (if isDefault then Some x else defaultTransport mg),
            fakeIPTransport := (if is_fakeip x then Some x else fakeIPTransport mg)\<rparr>"
  using assms
  by (auto simp: transport_Create_def Let_def is_fakeip_def split: if_splits sum.splits)

lemma transport_Create_ok:
  assumes "servers_ok mg" and "transport_Create registry tag ty ob mg = (None, mg')"
    and "\<And>x. registry tag ty ob = Inr x \<Longrightarrow> adapterTag x = tag"
  shows "servers_ok mg' \<and> tm_defaultTag mg' = tm_defaultTag mg"
proof -
  obtain x where x: "registry tag ty ob = Inr x" "tag \<noteq> []" "map_of (transportByTag mg) tag = None"
    "adapterTag x = tag"
    "let isDefault = (tag = tm_defaultTag mg \<or> tm_defaultTag mg = [] \<and> defaultTransport mg = None)
     in \<not> (isDefault \<and> is_fakeip x) \<and> \<not> (is_fakeip x \<and> fakeIPTransport mg \<noteq> None)
      \<and> mg' = mg\<lparr>transports := transports mg @ [x],
            transportByTag := AList.update tag x (transportByTag mg),
            defaultTransport := (if isDefault then Some x else defaultTransport mg),
            fakeIPTransport := (if is_fakeip x then Some x else fakeIPTransport mg)\<rparr>"
    using transport_Create_new [OF assms(2,3)] by blast
  have new: "adapterTag x \<notin> adapterTag ` set (transports mg)"
    using assms(1) x(3,4) by (simp add: servers_ok_def map_of_by_tag_None)
  have default: "defaultTransport mg = None \<longleftrightarrow> transports mg = []" if "tm_defaultTag mg = []"
    using assms(1) that by (simp add: servers_ok_def)
  show ?thesis
    using x(2-) assms(1) new default
    by (auto simp: servers_ok_def Let_def map_of_by_tag_snoc [OF new] update_conv' split: if_splits option.splits)
qed

lemma create_servers_ok:
  assumes "keeps_tag registry"
  shows "create_servers registry cs mg = Inr mg' \<Longrightarrow> servers_ok mg \<Longrightarrow>
    servers_ok mg' \<and> tm_defaultTag mg' = tm_defaultTag mg"
proof (induction cs arbitrary: mg)
  case (Cons c cs)
  obtain tag ty ob where c: "c = (tag, ty, ob)" by (cases c)
  obtain mg1 where run: "transport_Create registry tag ty ob mg = (None, mg1)"
      "create_servers registry cs mg1 = Inr mg'"
    using Cons.prems(1) by (auto simp: c split: prod.splits option.splits)
  from transport_Create_ok [OF Cons.prems(2) run(1)] assms [unfolded keeps_tag_def] Cons.IH [OF run(2)] show ?case by auto
qed simp

lemma NewTransportManager_ok: "servers_ok (NewTransportManager tag)"
  by (simp add: servers_ok_def NewTransportManager_def)

lemma initialize_server_index:
  assumes "servers_ok mg" and "initialize_server fallback mg = Inr mg1"
  shows "map_of (transportByTag mg1) = map_of (by_tag (transports mg1))
    \<and> distinct (map adapterTag (transports mg1)) \<and> defaultTransport mg1 \<noteq> None"
proof (cases "defaultTransport mg")
  case None
  then have "tm_defaultTag mg = []" "transports mg = []"
    using assms by (auto simp: initialize_server_def servers_ok_def split: if_splits)
  then show ?thesis
    using assms None
    by (auto simp: initialize_server_def servers_ok_def update_conv' split: sum.splits)
next
  case (Some x)
  then have "mg1 = mg" using assms(2) by (simp add: initialize_server_def)
  moreover have "map_of (transportByTag mg) = map_of (by_tag (transports mg))"
      "distinct (map adapterTag (transports mg))"
    using assms(1) by (simp_all add: servers_ok_def)
  ultimately show ?thesis using Some by simp
qed

lemma startTransports_by_tag:
  assumes "map_of (transportByTag mg) = map_of (by_tag xs)"
  shows "startTransports L start mg xs st = start_rounds (start_transport L start) (by_tag xs) xs [] st"
  unfolding startTransports_def using start_rounds_cong [OF assms] .

subsection \<open>Properties\<close>

text \<open>
  when every configured DNS server has been created, their tags are distinct, the lookup by
  tag finds exactly the created servers, the default server is the first one or the one with the
  configured tag and never the fakeip server, and the fakeip server is the only one of its type.
\<close>

theorem transport_manager_created:
  assumes "keeps_tag registry"
    and "create_servers registry cs (NewTransportManager dt) = Inr mg"
  shows "distinct (map adapterTag (transports mg))
    \<and> (\<forall>t x. manager_Transport mg t = Some x \<longleftrightarrow> x \<in> set (transports mg) \<and> adapterTag x = t)
    \<and> defaultTransport mg =
        (if dt = [] then (if transports mg = [] then None else Some (hd (transports mg)))
         else manager_Transport mg dt)
    \<and> (\<forall>x. defaultTransport mg = Some x \<longrightarrow> \<not> is_fakeip x)
    \<and> filter is_fakeip (transports mg) = (case fakeIPTransport mg of None \<Rightarrow> [] | Some x \<Rightarrow> [x])"
proof -
  have "servers_ok mg \<and> tm_defaultTag mg = tm_defaultTag (NewTransportManager dt)"
    by (rule create_servers_ok [OF assms(1,2) NewTransportManager_ok])
  then have ok: "servers_ok mg" "tm_defaultTag mg = dt" by (simp_all add: NewTransportManager_def)
  then have "distinct (map fst (by_tag (transports mg)))"
    by (simp add: servers_ok_def by_tag_def comp_def)
  then have "map_of (by_tag (transports mg)) t = Some x \<longleftrightarrow> x \<in> set (transports mg) \<and> adapterTag x = t"
    for t x
    by (auto simp: by_tag_def)
  with ok show ?thesis by (simp add: servers_ok_def manager_Transport_def)
qed

definition sample_registry :: "string \<Rightarrow> string \<Rightarrow> string list \<Rightarrow> string + dns_transport" where
  "sample_registry tag ty deps = Inr (NewTransportAdapter ty tag deps)"

definition sample_servers :: "(string \<times> string \<times> string list) list" where
  "sample_servers =
     [(''a'', ''udp'', [''c'']), (''b'', ''fakeip'', []), (''c'', ''local'', [])]"

definition sample_start_server :: "(dns_transport, unit, string, string list) start_method" where
  "sample_start_server c stage s w = (None, s, w @ [adapterTag c])"

lemma sample_registry_tag: "keeps_tag sample_registry"
  by (auto simp: keeps_tag_def sample_registry_def NewTransportAdapter_def)

theorem transport_manager_created_witness:
  "\<exists>mg. create_servers sample_registry sample_servers (NewTransportManager []) = Inr mg
     \<and> defaultTransport mg = Some (NewTransportAdapter ''udp'' ''a'' [''c''])
     \<and> fakeIPTransport mg = Some (NewTransportAdapter ''fakeip'' ''b'' [])
     \<and> distinct (map adapterTag (transports mg))"
proof -
  have "\<exists>mg. create_servers sample_registry sample_servers (NewTransportManager []) = Inr mg
     \<and> defaultTransport mg = Some (NewTransportAdapter ''udp'' ''a'' [''c''])
     \<and> fakeIPTransport mg = Some (NewTransportAdapter ''fakeip'' ''b'' [])"
    by (simp add: sample_registry_def sample_servers_def NewTransportManager_def
        NewTransportAdapter_def transport_Create_def Let_def DNSTypeFakeIP_def)
  then show ?thesis
    using transport_manager_created [OF sample_registry_tag, of sample_servers "[]"] by blast
qed

text \<open>
  once the servers are created and the first stage has passed, a default server exists and
  \<^verbatim>\<open>startTransports\<close> keeps the contract of the start loop: all servers started, each once
  and after the servers it depends on, or a failure that names a real cycle or a missing server.
\<close>

theorem transport_start_order:
  assumes "keeps_tag registry"
    and "create_servers registry cs (NewTransportManager dt) = Inr mg"
    and "initialize_server fallback mg = Inr mg1"
    and "startTransports L start mg1 (transports mg1) st = (r, st')"
  shows "defaultTransport mg1 \<noteq> None
    \<and> start_contract (start_transport L start) (transports mg1) st r st'"
proof -
  have "servers_ok mg"
    by (rule create_servers_ok [OF assms(1,2) NewTransportManager_ok, THEN conjunct1])
  from initialize_server_index [OF this assms(3)] show ?thesis
    using start_rounds_contract startTransports_by_tag assms(4) by metis
qed

theorem transport_start_order_witness:
  "\<exists>mg. create_servers sample_registry sample_servers (NewTransportManager []) = Inr mg
     \<and> fst (startTransports sample_lib sample_start_server mg (transports mg) (NewScope False, []))
       = Inr [''b'', ''c'', ''a'']
     \<and> (\<exists>ns :: dns_transport list. map adapterTag ns = [''b'', ''c'', ''a''] \<and> starts_in_order [] ns)"
proof -
  obtain mg where mg: "create_servers sample_registry sample_servers (NewTransportManager []) = Inr mg"
    and dflt: "defaultTransport mg = Some (NewTransportAdapter ''udp'' ''a'' [''c''])"
    by (simp add: sample_registry_def sample_servers_def NewTransportManager_def
        NewTransportAdapter_def transport_Create_def Let_def DNSTypeFakeIP_def)
  have "case create_servers sample_registry sample_servers (NewTransportManager []) of
      Inl e \<Rightarrow> False
    | Inr mg \<Rightarrow> fst (startTransports sample_lib sample_start_server mg (transports mg)
        (NewScope False, [])) = Inr [''b'', ''c'', ''a'']"
    by code_simp
  then have run: "fst (startTransports sample_lib sample_start_server mg (transports mg) (NewScope False, []))
      = Inr [''b'', ''c'', ''a'']" by (simp add: mg)
  have "initialize_server (Inl ''x'') mg = Inr mg" using dflt by (simp add: initialize_server_def)
  moreover obtain st where "startTransports sample_lib sample_start_server mg (transports mg)
      (NewScope False, []) = (Inr [''b'', ''c'', ''a''], st)"
    using run by (metis prod.collapse)
  ultimately have "start_contract (start_transport sample_lib sample_start_server) (transports mg)
      (NewScope False, []) (Inr [''b'', ''c'', ''a'']) st"
    using transport_start_order [OF sample_registry_tag mg] by blast
  then obtain ns :: "dns_transport list" where "[''b'', ''c'', ''a''] = map adapterTag ns" "starts_in_order [] ns"
    unfolding start_contract_def sum.case by (elim conjE exE) (rule that)
  with mg run show ?thesis by metis
qed

end
