(* ===== verification/Reachability.thy ===== *)
theory Reachability
  imports OutboundGroups
begin

text \<open>
  Reachability from the active routing tree (\<^verbatim>\<open>route/reachability_lx.go\<close>): which outbounds traffic
  can take at the moment, and how many edges of the tree lead to each. The idle tick suspends
  endpoints that are not reachable.

  \<^item> A \<open>route_view\<close> is what the walk sees of an outbound: the active tags of a URL test group, the
    choice of a selector, or the dependencies of an ordinary outbound. \<open>views_of\<close> takes
    them from a box of outbounds.
  \<^item> \<open>walk_edges\<close> is the recursion of \<^verbatim>\<open>walkReachable\<close> over the edges it still has to follow,
    depth first. \<open>walk_edges_spec\<close> is its specification.
  \<^item> \<open>reach_step\<close> are the steps of the cache of the walk, with any number of goroutines that read it;
    a walk is not one step but one for the seeds and one for every outbound it looks at.
\<close>

subsection \<open>The walk\<close>

datatype route_view =
    ActiveView "string list"
  | NowView string
  | DependencyView "string list"

text \<open>The edges out of an outbound; the flag is set for the manual ones.\<close>

fun view_edges :: "route_view option \<Rightarrow> (string \<times> bool) list" where
  "view_edges None = []"
| "view_edges (Some (ActiveView tags)) = map (\<lambda>t. (t, False)) tags"
| "view_edges (Some (NowView tag)) = [(tag, True)]"
| "view_edges (Some (DependencyView deps)) = map (\<lambda>t. (t, False)) deps"

fun view_of :: "box \<Rightarrow> outbound_object \<Rightarrow> route_view option" where
  "view_of box (URLTestOutbound tags g) = map_option ActiveView (ActiveTags box tags g)"
| "view_of box (SelectorOutbound s) = map_option NowView (GroupNow box (SelectorOutbound s))"
| "view_of box (LeafOutbound network deps) = Some (DependencyView deps)"

definition views_of :: "(string \<times> outbound_object) list \<Rightarrow> (string \<times> route_view) list option" where
  "views_of obs = traverse (\<lambda>(t, ob). map_option (Pair t) (view_of (map_of obs) ob)) obs"

record reachability =
  reachable :: "string list"
  refs :: "string \<times> bool \<Rightarrow> nat"

definition count_edge :: "string \<Rightarrow> bool \<Rightarrow> reachability \<Rightarrow> reachability" where
  "count_edge tag manual r = r\<lparr>refs := (refs r)((tag, manual) := refs r (tag, manual) + 1)\<rparr>"

definition mark :: "string \<Rightarrow> reachability \<Rightarrow> reachability" where
  "mark tag r = r\<lparr>reachable := reachable r @ [tag]\<rparr>"

lemma count_mark_simps [simp]:
  "reachable (count_edge t m r) = reachable r" "reachable (mark t r) = reachable r @ [t]"
  "refs (mark t r) = refs r" "refs (count_edge t m r) = (refs r)((t, m) := refs r (t, m) + 1)"
  by (simp_all add: count_edge_def mark_def)

function walk_edges :: "(string \<times> route_view) list \<Rightarrow> (string \<times> bool) list \<Rightarrow> reachability \<Rightarrow> reachability" where
  "walk_edges views [] r = r"
| "walk_edges views ((tag, manual) # es) r =
     (if tag = '''' then walk_edges views es r
      else let r1 = count_edge tag manual r
           in if tag \<in> set (reachable r1) then walk_edges views es r1
              else walk_edges views es (walk_edges views (view_edges (map_of views tag)) (mark tag r1)))"
  by pat_completeness auto

lemma walk_edges_grows:
  "walk_edges_dom (views, es, r) \<Longrightarrow> set (reachable r) \<subseteq> set (reachable (walk_edges views es r))"
  by (induction views es r rule: walk_edges.pinduct) (force simp: walk_edges.psimps Let_def)+

definition unseen :: "(string \<times> route_view) list \<Rightarrow> reachability \<Rightarrow> nat" where
  "unseen views r = card (fst ` set views - set (reachable r))"

lemma unseen_mono: "set (reachable r) \<subseteq> set (reachable r') \<Longrightarrow> unseen views r' \<le> unseen views r"
  by (auto simp: unseen_def intro!: card_mono)

lemma unseen_mark:
  assumes "tag \<notin> set (reachable r)" and "view_edges (map_of views tag) \<noteq> []"
  shows "unseen views (mark tag r) < unseen views r"
proof -
  have "tag \<in> fst ` set views" using assms(2) by (cases "map_of views tag") (auto dest!: map_of_SomeD intro: rev_image_eqI)
  with assms(1) have "fst ` set views - set (reachable (mark tag r)) \<subset> fst ` set views - set (reachable r)"
    by auto
  then show ?thesis unfolding unseen_def by (intro psubset_card_mono) auto
qed

lemma unseen_count [simp]: "unseen views (count_edge t m r) = unseen views r"
  by (simp add: unseen_def)

lemma unseen_mark_le: "unseen views (mark t r) \<le> unseen views r"
  by (rule unseen_mono) auto

lemma walk_measure:
  "tag \<notin> set (reachable r) \<Longrightarrow> unseen views (mark tag r) < unseen views r \<or>
    unseen views (mark tag r) = unseen views r \<and> view_edges (map_of views tag) = []"
  using unseen_mark [of tag r views] unseen_mark_le [of views tag r] by (auto simp: le_less)

lemma walk_measure_nested:
  "walk_edges_dom (views, es, mark tag r) \<Longrightarrow>
    unseen views (walk_edges views es (mark tag r)) < unseen views r \<or>
    unseen views (walk_edges views es (mark tag r)) = unseen views r"
  using unseen_mono [OF walk_edges_grows, of views es "mark tag r" views] unseen_mark_le [of views tag r] by auto

termination walk_edges
proof (relation "measures [\<lambda>(views, es, r). unseen views r, \<lambda>(views, es, r). length es]", goal_cases)
  case (4 views tag manual es r r1)
  then show ?case using walk_measure [of tag r1 views] by auto
next
  case (5 views tag manual es r r1)
  then show ?case
    using walk_measure_nested [of views "view_edges (map_of views tag)" tag r1] by auto
qed auto

declare walk_edges.simps [simp del]

definition walkReachable :: "string \<Rightarrow> bool \<Rightarrow> reachability \<Rightarrow> (string \<times> route_view) list \<Rightarrow> reachability" where
  "walkReachable tag manual result views = walk_edges views [(tag, manual)] result"

definition walkReachability ::
  "string list \<Rightarrow> string list \<Rightarrow> (string \<times> route_view) list \<Rightarrow> reachability" where
  "walkReachability manualSeeds autoSeeds views =
     fold (\<lambda>seed result. walkReachable seed False result views) autoSeeds
       (fold (\<lambda>seed result. walkReachable seed True result views) manualSeeds
          \<lparr>reachable = [], refs = (\<lambda>_. 0)\<rparr>)"

text \<open>The actions of rules, as far as \<^verbatim>\<open>ruleOutboundTags\<close> looks at them.\<close>

datatype rule_target = RouteTarget string | BypassTarget string | NoTarget

fun ruleOutboundTags :: "rule_target \<Rightarrow> string list" where
  "ruleOutboundTags (RouteTarget outbound) = (if outbound \<noteq> '''' then [outbound] else [])"
| "ruleOutboundTags (BypassTarget outbound) = (if outbound \<noteq> '''' then [outbound] else [])"
| "ruleOutboundTags NoTarget = []"

text \<open>
  The routing tree: the default outbound, the targets of the rules in order, the detours of
  the DNS servers (empty for a server without one), and the outbounds.
\<close>

record routing_tree =
  rtDefault :: "string option"
  rtRules :: "rule_target list"
  rtDetours :: "string list"
  rtViews :: "(string \<times> route_view) list"

definition manual_seeds :: "routing_tree \<Rightarrow> string list" where
  "manual_seeds tree =
     (case rtDefault tree of None \<Rightarrow> [] | Some t \<Rightarrow> [t]) @ concat (map ruleOutboundTags (rtRules tree))"

definition auto_seeds :: "routing_tree \<Rightarrow> string list" where
  "auto_seeds tree = filter (\<lambda>t. t \<noteq> '''') (rtDetours tree)"

definition computeReachability :: "routing_tree \<Rightarrow> reachability" where
  "computeReachability tree = walkReachability (manual_seeds tree) (auto_seeds tree) (rtViews tree)"

subsection \<open>What the walk computes\<close>

lemma walk_edges_append: "walk_edges views (es @ fs) r = walk_edges views fs (walk_edges views es r)"
  by (induction views es r rule: walk_edges.induct) (auto simp: walk_edges.simps Let_def)

lemma walk_edges_fold:
  "fold (\<lambda>s r. walkReachable s m r views) ts r = walk_edges views (map (\<lambda>t. (t, m)) ts) r"
proof (induction ts arbitrary: r)
  case (Cons t ts)
  then show ?case
    using walk_edges_append [of views "[(t, m)]" "map (\<lambda>t. (t, m)) ts" r] by (simp add: walkReachable_def)
qed (simp add: walk_edges.simps)

text \<open>The number of edges to \<open>t\<close> of class \<open>m\<close> in a list, and out of the outbounds in a list of tags.\<close>

definition edge_count :: "(string \<times> bool) list \<Rightarrow> string \<Rightarrow> bool \<Rightarrow> nat" where
  "edge_count es t m = count_list es (t, m)"

definition edges_into :: "(string \<times> route_view) list \<Rightarrow> string list \<Rightarrow> string \<Rightarrow> bool \<Rightarrow> nat" where
  "edges_into views us t m = (\<Sum>u\<leftarrow>us. edge_count (view_edges (map_of views u)) t m)"

lemma edge_count_simps [simp]:
  "edge_count [] t m = 0" "edge_count (es @ fs) t m = edge_count es t m + edge_count fs t m"
  "edge_count (e # es) t m = (if e = (t, m) then 1 else 0) + edge_count es t m"
  by (auto simp: edge_count_def)

lemma edges_into_simps [simp]:
  "edges_into views [] t m = 0"
  "edges_into views (us @ vs) t m = edges_into views us t m + edges_into views vs t m"
  "edges_into views (u # us) t m = edge_count (view_edges (map_of views u)) t m + edges_into views us t m"
  by (simp_all add: edges_into_def)

text \<open>The outbounds that the edges \<open>es\<close> lead to, directly or further down the tree.\<close>

inductive_set tree_reach :: "(string \<times> route_view) list \<Rightarrow> (string \<times> bool) list \<Rightarrow> string set"
  for views es where
  seed: "(t, m) \<in> set es \<Longrightarrow> t \<noteq> '''' \<Longrightarrow> t \<in> tree_reach views es"
| down: "u \<in> tree_reach views es \<Longrightarrow> (t, m) \<in> set (view_edges (map_of views u)) \<Longrightarrow> t \<noteq> '''' \<Longrightarrow>
    t \<in> tree_reach views es"

lemma tree_reach_sub:
  assumes "\<forall>(t, m)\<in>set es. t \<noteq> '''' \<longrightarrow> t \<in> tree_reach views fs"
  shows "tree_reach views es \<subseteq> tree_reach views fs"
proof
  fix t assume "t \<in> tree_reach views es"
  then show "t \<in> tree_reach views fs"
    by (induction rule: tree_reach.induct) (use assms in \<open>auto intro: tree_reach.down\<close>)
qed

definition leads_into :: "(string \<times> bool) list \<Rightarrow> string set \<Rightarrow> bool" where
  "leads_into es T \<longleftrightarrow> (\<forall>(t, m)\<in>set es. t \<noteq> '''' \<longrightarrow> t \<in> T)"

lemma leads_into_simps [simp]:
  "leads_into [] T" "leads_into ((t, m) # es) T \<longleftrightarrow> (t \<noteq> '''' \<longrightarrow> t \<in> T) \<and> leads_into es T"
  by (auto simp: leads_into_def)

lemma leads_into_mono: "leads_into es T \<Longrightarrow> T \<subseteq> U \<Longrightarrow> leads_into es U"
  by (auto simp: leads_into_def)

definition walked ::
  "(string \<times> route_view) list \<Rightarrow> (string \<times> bool) list \<Rightarrow> reachability \<Rightarrow> reachability \<Rightarrow> string list \<Rightarrow> bool" where
  "walked views es r r' new \<longleftrightarrow>
     reachable r' = reachable r @ new \<and>
     (distinct (reachable r) \<longrightarrow> distinct (reachable r')) \<and>
     (\<forall>t m. t \<noteq> '''' \<longrightarrow> refs r' (t, m) = refs r (t, m) + edge_count es t m + edges_into views new t m) \<and>
     set new \<subseteq> tree_reach views es \<and> leads_into es (set (reachable r')) \<and>
     (\<forall>u\<in>set new. leads_into (view_edges (map_of views u)) (set (reachable r')))"

lemma walkedD:
  assumes "walked views es r r' new"
  shows "reachable r' = reachable r @ new" "distinct (reachable r) \<Longrightarrow> distinct (reachable r')"
    "t \<noteq> '''' \<Longrightarrow> refs r' (t, m) = refs r (t, m) + edge_count es t m + edges_into views new t m"
    "set new \<subseteq> tree_reach views es" "leads_into es (set (reachable r'))"
    "u \<in> set new \<Longrightarrow> leads_into (view_edges (map_of views u)) (set (reachable r'))"
  using assms unfolding walked_def by blast+

lemma walkedI:
  assumes "reachable r' = reachable r @ new" "distinct (reachable r) \<Longrightarrow> distinct (reachable r')"
    "\<And>t m. t \<noteq> '''' \<Longrightarrow> refs r' (t, m) = refs r (t, m) + edge_count es t m + edges_into views new t m"
    "set new \<subseteq> tree_reach views es" "leads_into es (set (reachable r'))"
    "\<And>u. u \<in> set new \<Longrightarrow> leads_into (view_edges (map_of views u)) (set (reachable r'))"
  shows "walked views es r r' new"
  using assms unfolding walked_def by blast

lemma tree_reach_Cons: "tree_reach views es \<subseteq> tree_reach views (e # es)"
  by (rule tree_reach_sub) (auto intro: tree_reach.seed)

lemma walked_skip:
  assumes "walked views es r r' new"
  shows "walked views (('''', m) # es) r r' new"
proof (rule walkedI, goal_cases)
  case 4
  then show ?case using walkedD(4) [OF assms] tree_reach_Cons by blast
qed (use walkedD [OF assms] in auto)

lemma walked_seen:
  assumes "walked views es (count_edge tag m r) r' new" and "tag \<in> set (reachable r)"
  shows "walked views ((tag, m) # es) r r' new"
proof (rule walkedI, goal_cases)
  case 4
  then show ?case using walkedD(4) [OF assms(1)] tree_reach_Cons by blast
next
  case 5
  then show ?case using walkedD(1,5) [OF assms(1)] assms(2) by auto
qed (use walkedD [OF assms(1)] in auto)

lemma walked_new:
  assumes "walked views (view_edges (map_of views tag)) (mark tag (count_edge tag m r)) r1 new1"
    and "walked views es r1 r2 new2" and "tag \<noteq> ''''" and "tag \<notin> set (reachable r)"
  shows "walked views ((tag, m) # es) r r2 (tag # new1 @ new2)"
proof -
  let ?es = "(tag, m) # es"
  note D1 = walkedD [OF assms(1)] and D2 = walkedD [OF assms(2)]
  have tag: "tag \<in> tree_reach views ?es" using assms(3) by (auto intro: tree_reach.seed)
  have down: "tree_reach views (view_edges (map_of views tag)) \<subseteq> tree_reach views ?es"
    by (rule tree_reach_sub) (use tag in \<open>auto intro: tree_reach.intros\<close>)
  have sub: "set (reachable r1) \<subseteq> set (reachable r2)" using D2(1) by auto
  show ?thesis
  proof (rule walkedI, goal_cases)
    case 4
    then show ?case using tag down tree_reach_Cons [of views es "(tag, m)"] D1(4) D2(4) by auto
  next
    case (6 u)
    then consider "u = tag" | "u \<in> set new1" | "u \<in> set new2" by auto
    then show ?case using D1(5,6) D2(6) leads_into_mono [OF _ sub] by cases auto
  qed (use D1(1,2,3) D2(1,2,3,5) assms(4) in auto)
qed

lemma walk_edges_spec: "\<exists>new. walked views es r (walk_edges views es r) new"
proof (induction views es r rule: walk_edges.induct)
  case (2 views tag manual es r)
  note IH = 2
  let ?r = "count_edge tag manual r"
  consider "tag = ''''" | "tag \<noteq> ''''" "tag \<in> set (reachable r)" | "tag \<noteq> ''''" "tag \<notin> set (reachable r)"
    by blast
  then show ?case
  proof cases
    case 1
    with IH(1) show ?thesis by (auto simp: walk_edges.simps intro: walked_skip)
  next
    case 2
    with IH(2) [OF 2(1) refl] obtain new where "walked views es ?r (walk_edges views es ?r) new" by auto
    from walked_seen [OF this 2(2)] 2 show ?thesis by (auto simp: walk_edges.simps)
  next
    case 3
    let ?r1 = "walk_edges views (view_edges (map_of views tag)) (mark tag ?r)"
    from 3 IH(3) [OF 3(1) refl] IH(4) [OF 3(1) refl]
    obtain new1 new2 where "walked views (view_edges (map_of views tag)) (mark tag ?r) ?r1 new1"
      "walked views es ?r1 (walk_edges views es ?r1) new2" by auto
    from walked_new [OF this 3] 3 show ?thesis by (auto simp: walk_edges.simps)
  qed
qed (simp add: walk_edges.simps walked_def)

definition tree_seeds :: "routing_tree \<Rightarrow> (string \<times> bool) list" where
  "tree_seeds tree = map (\<lambda>t. (t, True)) (manual_seeds tree) @ map (\<lambda>t. (t, False)) (auto_seeds tree)"

lemma computeReachability_edges:
  "computeReachability tree = walk_edges (rtViews tree) (tree_seeds tree) \<lparr>reachable = [], refs = (\<lambda>_. 0)\<rparr>"
  by (simp add: computeReachability_def walkReachability_def walk_edges_fold tree_seeds_def walk_edges_append)

lemma computeReachability_walked:
  obtains new where "walked (rtViews tree) (tree_seeds tree) \<lparr>reachable = [], refs = (\<lambda>_. 0)\<rparr>
      (computeReachability tree) new" "reachable (computeReachability tree) = new"
proof -
  obtain new where w: "walked (rtViews tree) (tree_seeds tree) \<lparr>reachable = [], refs = (\<lambda>_. 0)\<rparr>
      (computeReachability tree) new"
    using walk_edges_spec unfolding computeReachability_edges by blast
  moreover have "reachable (computeReachability tree) = new" using walkedD(1) [OF w] by simp
  ultimately show thesis by (rule that)
qed

lemma computeReachability_reach:
  "set (reachable (computeReachability tree)) = tree_reach (rtViews tree) (tree_seeds tree)" (is "_ = ?T")
proof -
  obtain new where w: "walked (rtViews tree) (tree_seeds tree) \<lparr>reachable = [], refs = (\<lambda>_. 0)\<rparr>
      (computeReachability tree) new" and new: "reachable (computeReachability tree) = new"
    by (rule computeReachability_walked)
  have "u \<in> set new" if "u \<in> ?T" for u
    using that
  proof (induction rule: tree_reach.induct)
    case (seed t m)
    then show ?case using walkedD(5) [OF w] unfolding new leads_into_def by blast
  next
    case (down u t m)
    then show ?case using walkedD(6) [OF w] unfolding new leads_into_def by blast
  qed
  then show ?thesis using walkedD(4) [OF w] unfolding new by blast
qed

text \<open>
  C20: The walk is exact. Whatever the tree, cycles included, the walk ends; the outbounds it marks are
  exactly those to which a path of edges leads from the default outbound, a rule target
  or a DNS detour, each marked once; and for each of them it has counted every edge of either
  class that leads there from a seed or from a marked outbound, exactly once.
\<close>

theorem walk_exact:
  assumes "t \<noteq> ''''"
  shows "set (reachable (computeReachability tree)) = tree_reach (rtViews tree) (tree_seeds tree) \<and>
    distinct (reachable (computeReachability tree)) \<and>
    refs (computeReachability tree) (t, m) = edge_count (tree_seeds tree) t m +
      edges_into (rtViews tree) (reachable (computeReachability tree)) t m"
proof -
  obtain new where w: "walked (rtViews tree) (tree_seeds tree) \<lparr>reachable = [], refs = (\<lambda>_. 0)\<rparr>
      (computeReachability tree) new" and new: "reachable (computeReachability tree) = new"
    by (rule computeReachability_walked)
  have "distinct new" using walkedD(2) [OF w] unfolding new by simp
  moreover have "refs (computeReachability tree) (t, m) =
      edge_count (tree_seeds tree) t m + edges_into (rtViews tree) new t m"
    using walkedD(3) [OF w assms] by simp
  ultimately show ?thesis using computeReachability_reach [of tree] unfolding new by blast
qed

theorem walk_exact_witness:
  "let tree = \<lparr>rtDefault = Some ''s'', rtRules = [RouteTarget ''g'', NoTarget], rtDetours = [''''],
       rtViews = [(''s'', NowView ''g''), (''g'', ActiveView [''a'', ''s'']), (''b'', DependencyView [])]\<rparr>
   in set (reachable (computeReachability tree)) = {''s'', ''g'', ''a''} \<and>
      refs (computeReachability tree) (''g'', True) = 2 \<and> refs (computeReachability tree) (''s'', False) = 1"
proof -
  let ?tree = "\<lparr>rtDefault = Some ''s'', rtRules = [RouteTarget ''g'', NoTarget], rtDetours = [''''],
       rtViews = [(''s'', NowView ''g''), (''g'', ActiveView [''a'', ''s'']), (''b'', DependencyView [])]\<rparr>"
  have r: "reachable (computeReachability ?tree) = [''s'', ''g'', ''a'']"
    by (simp add: computeReachability_edges tree_seeds_def manual_seeds_def auto_seeds_def walk_edges.simps Let_def)
  have seeds: "tree_seeds ?tree = [(''s'', True), (''g'', True)]"
    by (simp add: tree_seeds_def manual_seeds_def auto_seeds_def)
  show ?thesis
    using walk_exact [of "''g''" ?tree True] walk_exact [of "''s''" ?tree False] unfolding r seeds Let_def by simp
qed

subsection \<open>The idle tick\<close>

datatype idle_error = ReachableNeedsSuspend | TeardownNeedsSuspend | ReachableTooSmall

text \<open>Durations in nanoseconds. The period of the tick, or none when the feature is off.\<close>

definition idleTickFloor :: int where "idleTickFloor = 5 * 10 ^ 9"

definition idleTickDivisor :: int where "idleTickDivisor = 2"

definition startIdleSuspend :: "int \<Rightarrow> int \<Rightarrow> bool \<Rightarrow> idle_error + int option" where
  "startIdleSuspend idleSuspend idleSuspendReachable idleTeardownSet =
     (if idleSuspend \<le> 0 then
        (if idleSuspendReachable > 0 then Inl ReachableNeedsSuspend
         else if idleTeardownSet then Inl TeardownNeedsSuspend
         else Inr None)
      else if idleSuspendReachable > 0 \<and> idleSuspendReachable < idleSuspend then Inl ReachableTooSmall
      else (let period = idleSuspend div idleTickDivisor
            in Inr (Some (if period < idleTickFloor then idleTickFloor else period))))"

text \<open>
  The calls a tick makes, in order. A component is given by its tag and whether it can be suspended; an
  outbound also has the endpoints it holds as clones. A call goes to a component of the box or to a clone
  that an outbound holds; the reachability of a clone is that of its holder.
\<close>

datatype suspend_target = OwnTarget (target_owner: string) | CloneTarget (target_owner: string) string

datatype suspend_call = SuspendIfIdle suspend_target bool | TeardownIfSlept suspend_target

definition suspend :: "reachability \<Rightarrow> suspend_target \<Rightarrow> bool \<Rightarrow> suspend_call list" where
  "suspend r c suspendable =
     (if suspendable then [SuspendIfIdle c (target_owner c \<in> set (reachable r)), TeardownIfSlept c] else [])"

definition suspendIdleEndpoints ::
  "reachability \<Rightarrow> (string \<times> bool) list \<Rightarrow> ((string \<times> bool) \<times> (string \<times> bool) list) list \<Rightarrow> suspend_call list" where
  "suspendIdleEndpoints r eps outs =
     concat (map (\<lambda>(t, b). suspend r (OwnTarget t) b) eps) @
     concat (map (\<lambda>((t, b), clones). suspend r (OwnTarget t) b @
       concat (map (\<lambda>(u, b). suspend r (CloneTarget t u) b) clones)) outs)"

definition OutboundReachable :: "int \<Rightarrow> reachability \<Rightarrow> string \<Rightarrow> bool" where
  "OutboundReachable idleSuspend r tag = (idleSuspend \<le> 0 \<or> tag \<in> set (reachable r))"

definition SelectionRefs :: "reachability \<Rightarrow> string \<Rightarrow> nat \<times> nat" where
  "SelectionRefs r tag = (refs r (tag, True), refs r (tag, False))"

subsection \<open>Routed connections take reachable outbounds\<close>

lemma traverse_views:
  assumes "traverse (\<lambda>(t, ob). map_option (Pair t) (f ob)) obs = Some views" and "map_of obs t = Some ob"
  shows "f ob \<noteq> None \<and> map_of views t = f ob"
  using assms
proof (induction obs arbitrary: views)
  case (Cons x obs)
  obtain t' ob' where x: "x = (t', ob')" by (cases x)
  from Cons.prems(1) obtain v vs where "f ob' = Some v" "views = (t', v) # vs"
    "traverse (\<lambda>(t, ob). map_option (Pair t) (f ob)) obs = Some vs"
    by (auto simp: x bind_eq_Some_conv)
  with Cons.IH Cons.prems(2) show ?case by (auto simp: x split: if_splits)
qed simp

lemma cut_chain_reachable:
  assumes "views_of obs = Some views" and "map_of obs '''' = None"
    and "follows (map_of obs) network chain" and "network \<in> set (leaf_Network (map_of obs (last chain)))"
    and "hd chain \<in> tree_reach views es"
  shows "set (cut_chain (map_of obs) chain) \<subseteq> tree_reach views es"
  using assms(3-5)
proof (induction "map_of obs" chain rule: cut_chain.induct)
  case (3 t u ts)
  show ?case
  proof (cases "isPerConnection (map_of obs t)")
    case True
    with 3(4) show ?thesis by simp
  next
    case False
    with 3(2) obtain s where s: "map_of obs t = Some (SelectorOutbound s)"
      by (cases "map_of obs t" rule: isGroup.cases) auto
    have now: "GroupNow (map_of obs) (SelectorOutbound s) = Some u"
      using 3(2) s by (simp add: GroupNow_def Selected_def)
    from traverse_views [OF assms(1) [unfolded views_of_def] s] now
    have "map_of views t = Some (NowView u)" by simp
    moreover have "u \<noteq> ''''"
      using 3(2,3) assms(2) by (cases ts) (auto simp: leaf_Network_def)
    ultimately have "u \<in> tree_reach views es" using 3(4) by (auto intro: tree_reach.down [of t])
    with 3(1) [OF False] 3(2-4) False show ?thesis by simp
  qed
qed auto

text \<open>The components of the box that can be suspended, and the clones that outbounds hold and that can be.\<close>

definition suspendable_targets ::
  "(string \<times> bool) list \<Rightarrow> ((string \<times> bool) \<times> (string \<times> bool) list) list \<Rightarrow> suspend_target set" where
  "suspendable_targets eps outs =
     {OwnTarget t | t. (t, True) \<in> set eps \<or> (\<exists>clones. ((t, True), clones) \<in> set outs)} \<union>
     {CloneTarget t u | t u. \<exists>b clones. ((t, b), clones) \<in> set outs \<and> (u, True) \<in> set clones}"

lemma suspend_call: "SuspendIfIdle d flag \<in> set (suspend r c b) \<longleftrightarrow> b \<and> d = c \<and> flag = (target_owner c \<in> set (reachable r))"
  by (auto simp: suspend_def)

lemma suspend_components:
  "SuspendIfIdle c flag \<in> set (concat (map (\<lambda>(t, b). suspend r (f t) b) cs)) \<longleftrightarrow>
     (\<exists>t. (t, True) \<in> set cs \<and> c = f t) \<and> flag = (target_owner c \<in> set (reachable r))"
  by (induction cs) (auto simp: suspend_call)

lemma suspend_outbounds:
  "SuspendIfIdle c flag \<in> set (concat (map (\<lambda>((t, b), clones). suspend r (OwnTarget t) b @
       concat (map (\<lambda>(u, b). suspend r (CloneTarget t u) b) clones)) outs)) \<longleftrightarrow>
     ((\<exists>t clones. ((t, True), clones) \<in> set outs \<and> c = OwnTarget t) \<or>
      (\<exists>t b clones u. ((t, b), clones) \<in> set outs \<and> (u, True) \<in> set clones \<and> c = CloneTarget t u)) \<and>
     flag = (target_owner c \<in> set (reachable r))"
proof (induction outs)
  case (Cons x outs)
  obtain t b clones where x: "x = ((t, b), clones)" by (metis surj_pair)
  show ?case
    unfolding list.map concat.simps set_append Un_iff Cons.IH x prod.case suspend_call suspend_components
      list.set insert_iff prod.inject
    by (cases c) (simp_all, blast+)
qed simp

lemma suspend_calls:
  "SuspendIfIdle c flag \<in> set (suspendIdleEndpoints r eps outs) \<longleftrightarrow>
     c \<in> suspendable_targets eps outs \<and> flag = (target_owner c \<in> set (reachable r))"
  unfolding suspendIdleEndpoints_def set_append Un_iff suspend_components suspend_outbounds suspendable_targets_def
  by auto

text \<open>
  C22: What carries a connection is not treated as unreachable. Take the outbounds of a box and the
  tree of the router over them. If a connection of any network is routed to the default
  outbound or to a rule's target, then every outbound of the chain the router resolves for it, up to
  the node or the group that dials it, is marked by the walk. The idle tick calls every component of the box with such a
  tag that can be suspended, and every clone such an outbound holds, and tells all of them that they are
  reachable.
\<close>

theorem routed_reachable:
  assumes "views_of obs = Some (rtViews tree)" and "map_of obs '''' = None"
    and "t \<in> set (manual_seeds tree)" and "resolveOutboundLx (map_of obs) t network = Some (Inr chain)"
  shows "set chain \<subseteq> set (reachable (computeReachability tree)) \<and>
    (\<forall>c flag. target_owner c \<in> set chain \<longrightarrow>
       (SuspendIfIdle c flag \<in> set (suspendIdleEndpoints (computeReachability tree) eps outs) \<longleftrightarrow>
        flag \<and> c \<in> suspendable_targets eps outs))"
proof -
  obtain r where "resolve_loop (map_of obs) network [t] t = Some r" "map_sum id (cut_chain (map_of obs)) r = Inr chain"
    using assms(4) by (auto simp: resolveOutboundLx_def resolveOutbound_def)
  then obtain full where full: "resolve_loop (map_of obs) network [t] t = Some (Inr full)"
    "chain = cut_chain (map_of obs) full"
    by (cases r) auto
  from resolve_loop_follows [OF full(1) refl] obtain ts where ts: "full = t # ts"
    "follows (map_of obs) network (t # ts)" "network \<in> set (leaf_Network (map_of obs (last (t # ts))))" by auto
  have "t \<noteq> ''''" using ts assms(2) by (cases ts) (auto simp: leaf_Network_def)
  then have "t \<in> tree_reach (rtViews tree) (tree_seeds tree)"
    using assms(3) by (auto simp: tree_seeds_def intro!: tree_reach.seed [where m = True])
  with cut_chain_reachable [OF assms(1,2) ts(2,3)] full(2) ts(1)
  have "set chain \<subseteq> tree_reach (rtViews tree) (tree_seeds tree)" by simp
  then have "set chain \<subseteq> set (reachable (computeReachability tree))"
    by (simp add: computeReachability_reach)
  with suspend_calls show ?thesis by blast
qed

theorem routed_reachable_witness:
  "let r = computeReachability \<lparr>rtDefault = Some ''s'', rtRules = [], rtDetours = [],
      rtViews = [(''s'', NowView ''g''), (''g'', ActiveView [''a'']), (''a'', DependencyView [])]\<rparr>;
     calls = suspendIdleEndpoints r [(''g'', True), (''z'', True)] [((''s'', False), [(''wg'', True)])]
   in set [''s'', ''g''] \<subseteq> set (reachable r) \<and>
     SuspendIfIdle (OwnTarget ''g'') True \<in> set calls \<and> SuspendIfIdle (CloneTarget ''s'' ''wg'') True \<in> set calls"
proof -
  let ?sel = "\<lparr>sTag = ''s'', sTags = [''g'', ''a''], sDefaultTag = '''', sOutbounds = [''g'', ''a''],
    sSelected = Some ''g''\<rparr>"
  let ?obs = "[(''s'', SelectorOutbound ?sel), (''g'', URLTestOutbound [''a''] (two_nodes 50 120 90)),
    (''a'', LeafOutbound [''tcp''] [])]"
  let ?tree = "\<lparr>rtDefault = Some ''s'', rtRules = [], rtDetours = [],
      rtViews = [(''s'', NowView ''g''), (''g'', ActiveView [''a'']), (''a'', DependencyView [])]\<rparr>"
  let ?eps = "[(''g'', True), (''z'', True)]" and ?outs = "[((''s'', False), [(''wg'', True)])]"
  have views: "views_of ?obs = Some (rtViews ?tree)"
    by (simp add: views_of_def GroupNow_def Selected_def ActiveTags_def URLTest_Selected_def two_nodes_simps)
  have a: "resolve_loop (map_of ?obs) ''tcp'' c ''a'' = Some (Inr c)" for c
    by (subst resolve_loop.simps) (simp add: leaf_Network_def)
  have g: "resolve_loop (map_of ?obs) ''tcp'' c ''g'' = Some (Inr (c @ [''a'']))" for c
    using a by (subst resolve_loop.simps) (simp add: Selected_def URLTest_Selected_def two_nodes_simps)
  have "resolve_loop (map_of ?obs) ''tcp'' [''s''] ''s'' = Some (Inr [''s'', ''g'', ''a''])"
    using g by (subst resolve_loop.simps) (simp add: Selected_def)
  then have chain: "resolveOutboundLx (map_of ?obs) ''s'' ''tcp'' = Some (Inr [''s'', ''g''])"
    by (simp add: resolveOutboundLx_def resolveOutbound_def)
  have "OwnTarget ''g'' \<in> suspendable_targets ?eps ?outs" "CloneTarget ''s'' ''wg'' \<in> suspendable_targets ?eps ?outs"
    "target_owner (OwnTarget ''g'') \<in> set [''s'', ''g'']" "target_owner (CloneTarget ''s'' ''wg'') \<in> set [''s'', ''g'']"
    by (auto simp: suspendable_targets_def)
  moreover have "''s'' \<in> set (manual_seeds ?tree)" "map_of ?obs '''' = None" by (simp_all add: manual_seeds_def)
  ultimately show ?thesis
    using routed_reachable [OF views _ _ chain, of ?eps ?outs] unfolding Let_def by blast
qed

definition udp_group :: "16 word \<Rightarrow> 16 word \<Rightarrow> urltest_group" where
  "udp_group da dc = sample_group\<lparr>gBalancer := None, gTolerance := 0, gHistory := [''a'' \<mapsto> da, ''c'' \<mapsto> dc]\<rparr>"

lemma no_emergency: "gPenalties g = (\<lambda>_. None) \<Longrightarrow> emergency_pick rt network g = None"
  by (auto simp: emergency_pick_def penaltyEmergency_def penaltyOf_def penaltyThreshold_def split: option.splits)

lemma performSelectionUpdate_balancer: "gBalancer (performSelectionUpdate rt re g) = gBalancer g"
proof -
  have un: "gBalancer (snd (update_network rt re net st)) = gBalancer (snd st)" for net st
    by (auto simp: update_network_def set_selected_def Let_def split: prod.splits option.splits if_splits)
  obtain u c s g2 where 2: "update_network rt re ''udp''
      (update_network rt re ''tcp'' ((False, False, False), g)) = ((u, c, s), g2)" by (metis surj_pair)
  with un [of "''udp''" "update_network rt re ''tcp'' ((False, False, False), g)"]
    un [of "''tcp''" "((False, False, False), g)"]
  show ?thesis by (auto simp: performSelectionUpdate_def raise_def)
qed

lemma udp_group_selected:
  assumes "da \<noteq> 0" and "da \<le> dc"
  defines "g \<equiv> performSelectionUpdate (\<lambda>_. nTag) False (udp_group da dc)"
  shows "gSelectedTCP g = Some \<lparr>nTag = ''a'', nNetwork = [''tcp'']\<rparr>"
    "gSelectedUDP g = Some \<lparr>nTag = ''c'', nNetwork = [''tcp'', ''udp'']\<rparr>"
    "gBalancer g = None" "gPenalties g = (\<lambda>_. None)"
proof -
  let ?a = "\<lparr>nTag = ''a'', nNetwork = [''tcp'']\<rparr>" and ?c = "\<lparr>nTag = ''c'', nNetwork = [''tcp'', ''udp'']\<rparr>"
  have pen: "gPenalties (udp_group da dc) = (\<lambda>_. None)" by (simp add: udp_group_def sample_group_def)
  have "\<not> dc < da" using assms(2) by simp
  then have "Select (\<lambda>_. nTag) ''tcp'' (udp_group da dc) = (Some ?a, True)"
    "Select (\<lambda>_. nTag) ''udp'' (udp_group da dc) = (Some ?c, True)"
    using assms(1) by (simp_all add: Select_def Let_def udp_group_def sample_group_def selected_for_def supportsNetwork_def)
  then have "updated_selection (\<lambda>_. nTag) ''tcp'' False (udp_group da dc) = Some ?a"
    "updated_selection (\<lambda>_. nTag) ''udp'' False (udp_group da dc) = Some ?c"
    using no_emergency [OF pen]
    by (simp_all add: updated_selection_def selectForUpdate_def selectPenaltyAware_def)
      (simp_all add: udp_group_def sample_group_def)
  then show "gSelectedTCP g = Some ?a" "gSelectedUDP g = Some ?c"
    using performSelectionUpdate_selected [of "''tcp''" "\<lambda>_. nTag" False "udp_group da dc"]
      performSelectionUpdate_selected [of "''udp''" "\<lambda>_. nTag" False "udp_group da dc"]
    unfolding g_def selected_for_def by simp_all
  show "gBalancer g = None" unfolding g_def performSelectionUpdate_balancer by (simp add: udp_group_def)
  show "gPenalties g = (\<lambda>_. None)" using pen unfolding g_def by simp
qed

text \<open>
  The node of UDP traffic is not part of the tree. A group that selects by delay keeps one node
  per network. When a node without UDP is the fastest, the group, once its selection is
  updated, sends UDP to another node; the walk, which only asks for the current node of
  the group, marks the first and not the second, although the group, and traffic through it,
  uses both.
\<close>

theorem udp_node_unreachable:
  assumes "da \<noteq> 0" and "da \<le> dc" and "views_of obs = Some (rtViews tree)" and "rtDefault tree = Some ''g''"
    and "obs = [(''g'', URLTestOutbound [''a'', ''b'', ''c''] (performSelectionUpdate (\<lambda>_. nTag) False (udp_group da dc))),
      (''a'', LeafOutbound [''tcp''] []), (''b'', LeafOutbound [''tcp''] []), (''c'', LeafOutbound [''tcp'', ''udp''] [])]"
    and "rtRules tree = []" and "rtDetours tree = []"
  shows "map_option nTag (fst (ListenPacket (\<lambda>_. nTag) False (\<lambda>_. DialOk)
      (performSelectionUpdate (\<lambda>_. nTag) False (udp_group da dc)))) = Some ''c'' \<and>
    set (reachable (computeReachability tree)) = {''g'', ''a''}"
proof -
  define g where "g = performSelectionUpdate (\<lambda>_. nTag) False (udp_group da dc)"
  note sel = udp_group_selected [OF assms(1,2), folded g_def]
  have "pickForDialNode (\<lambda>_. nTag) ''udp'' g = Some \<lparr>nTag = ''c'', nNetwork = [''tcp'', ''udp'']\<rparr>"
    using sel no_emergency [OF sel(4)] by (simp add: pickForDialNode_def selected_for_def)
  then have udp: "map_option nTag (fst (ListenPacket (\<lambda>_. nTag) False (\<lambda>_. DialOk) g)) = Some ''c''"
    by (simp add: ListenPacket_def)
  have "views_of obs = Some [(''g'', ActiveView [''a'']), (''a'', DependencyView []), (''b'', DependencyView []),
      (''c'', DependencyView [])]"
    unfolding assms(5) g_def [symmetric]
    by (simp add: views_of_def ActiveTags_def GroupNow_def Selected_def URLTest_Selected_def sel)
  then have "rtViews tree = [(''g'', ActiveView [''a'']), (''a'', DependencyView []), (''b'', DependencyView []),
      (''c'', DependencyView [])]" using assms(3) by simp
  then have "reachable (computeReachability tree) = [''g'', ''a'']"
    using assms(4,6,7) by (simp add: computeReachability_edges tree_seeds_def manual_seeds_def auto_seeds_def
        walk_edges.simps Let_def)
  with udp show ?thesis unfolding g_def by simp
qed

theorem udp_node_unreachable_witness:
  "\<exists>tree. rtDefault tree = Some ''g'' \<and> set (reachable (computeReachability tree)) = {''g'', ''a''} \<and>
    map_option nTag (fst (ListenPacket (\<lambda>_. nTag) False (\<lambda>_. DialOk)
      (performSelectionUpdate (\<lambda>_. nTag) False (udp_group 50 200)))) = Some ''c''"
proof -
  let ?obs = "[(''g'', URLTestOutbound [''a'', ''b'', ''c''] (performSelectionUpdate (\<lambda>_. nTag) False (udp_group 50 200))),
      (''a'', LeafOutbound [''tcp''] []), (''b'', LeafOutbound [''tcp''] []), (''c'', LeafOutbound [''tcp'', ''udp''] [])]"
  have "\<exists>v. views_of ?obs = Some v"
    by (simp add: views_of_def ActiveTags_def GroupNow_def Selected_def URLTest_Selected_def
        udp_group_selected [of 50 200])
  then obtain v where "views_of ?obs = Some v" by blast
  with udp_node_unreachable [of 50 200 ?obs "\<lparr>rtDefault = Some ''g'', rtRules = [], rtDetours = [], rtViews = v\<rparr>"]
  show ?thesis by (intro exI [of _ "\<lparr>rtDefault = Some ''g'', rtRules = [], rtDetours = [], rtViews = v\<rparr>"]) simp
qed

subsection \<open>The cache of the walk\<close>

text \<open>
  \<^verbatim>\<open>Router.reachability\<close>, called from several goroutines. A reader that finds the flag set, or no
  cached walk, clears the flag, walks and publishes what it found. No lock is held during the walk: the
  reader takes the seeds from the default outbound and the rules, then from the DNS servers, and then looks at one
  outbound after another. All these are steps of their own, interleaved with those of other readers and with
  the events that change the tree and afterwards call \<^verbatim>\<open>InvalidateReachability\<close>, so that a walk
  may see one outbound before a change and the next one after it. \<open>rsPending\<close> counts the changes whose call is
  still to come.
\<close>

datatype reader =
    ReaderIdle
  | ReaderStale
  | ReaderCleared
  | ReaderSeeded "string list"
  | ReaderWalking "(string \<times> bool) list" reachability

text \<open>One call of \<^verbatim>\<open>walkReachable\<close> up to its recursive calls, which go on the stack of edges still to follow.\<close>

fun visit_edge ::
  "(string \<times> route_view) list \<Rightarrow> string \<times> bool \<Rightarrow> (string \<times> bool) list \<Rightarrow> reachability \<Rightarrow> (string \<times> bool) list \<times> reachability" where
  "visit_edge views (tag, manual) es r =
     (if tag = '''' then (es, r)
      else let r1 = count_edge tag manual r
           in if tag \<in> set (reachable r1) then (es, r1) else (view_edges (map_of views tag) @ es, mark tag r1))"

record reach_state =
  rsTree :: routing_tree
  rsPending :: nat
  rsDirty :: bool
  rsCache :: "reachability option"
  rsReaders :: "reader list"

definition InvalidateReachability :: "reach_state \<Rightarrow> reach_state" where
  "InvalidateReachability s = s\<lparr>rsPending := rsPending s - 1, rsDirty := True\<rparr>"

definition reader_at :: "reach_state \<Rightarrow> nat \<Rightarrow> reader \<Rightarrow> bool" where
  "reader_at s i p \<longleftrightarrow> i < length (rsReaders s) \<and> rsReaders s ! i = p"

definition set_reader :: "nat \<Rightarrow> reader \<Rightarrow> reach_state \<Rightarrow> reach_state" where
  "set_reader i p s = s\<lparr>rsReaders := (rsReaders s)[i := p]\<rparr>"

definition empty_reach :: reachability where
  "empty_reach = \<lparr>reachable = [], refs = (\<lambda>_. 0)\<rparr>"

inductive reach_step :: "reach_state \<Rightarrow> reach_state \<Rightarrow> bool" where
  change: "reach_step s (s\<lparr>rsTree := tree, rsPending := rsPending s + 1\<rparr>)"
| invalidate: "reach_step s (InvalidateReachability s)"
| look: "reader_at s i ReaderIdle \<Longrightarrow> rsDirty s \<or> rsCache s = None \<Longrightarrow>
    reach_step s (set_reader i ReaderStale s)"
| clear: "reader_at s i ReaderStale \<Longrightarrow>
    reach_step s (set_reader i ReaderCleared (s\<lparr>rsDirty := False\<rparr>))"
| seeds: "reader_at s i ReaderCleared \<Longrightarrow>
    reach_step s (set_reader i (ReaderSeeded (manual_seeds (rsTree s))) s)"
| detours: "reader_at s i (ReaderSeeded ts) \<Longrightarrow>
    reach_step s (set_reader i (ReaderWalking (map (\<lambda>t. (t, True)) ts @
      map (\<lambda>t. (t, False)) (auto_seeds (rsTree s))) empty_reach) s)"
| visit: "reader_at s i (ReaderWalking (e # es) r) \<Longrightarrow> visit_edge (rtViews (rsTree s)) e es r = (es', r') \<Longrightarrow>
    reach_step s (set_reader i (ReaderWalking es' r') s)"
| publish: "reader_at s i (ReaderWalking [] r) \<Longrightarrow>
    reach_step s (set_reader i ReaderIdle (s\<lparr>rsCache := Some r\<rparr>))"

definition reach_init :: "routing_tree \<Rightarrow> nat \<Rightarrow> reach_state" where
  "reach_init tree n = \<lparr>rsTree = tree, rsPending = 0, rsDirty = False, rsCache = None,
     rsReaders = replicate n ReaderIdle\<rparr>"

lemma visit_edge_walk:
  "visit_edge views e es r = (es', r') \<Longrightarrow> walk_edges views es' r' = walk_edges views (e # es) r"
  by (cases e) (auto simp: walk_edges.simps walk_edges_append Let_def split: if_splits)

lemma walk_edges_Nil [simp]: "walk_edges views [] r = r"
  by (simp add: walk_edges.simps)

text \<open>With one reader.\<close>

definition cache_inv :: "reach_state \<Rightarrow> bool" where
  "cache_inv s \<longleftrightarrow> length (rsReaders s) = 1 \<and> (\<not> rsDirty s \<and> rsPending s = 0 \<longrightarrow>
     (case rsReaders s ! 0 of
        ReaderCleared \<Rightarrow> True
      | ReaderSeeded ts \<Rightarrow> ts = manual_seeds (rsTree s)
      | ReaderWalking es r \<Rightarrow> walk_edges (rtViews (rsTree s)) es r = computeReachability (rsTree s)
      | _ \<Rightarrow> \<forall>r. rsCache s = Some r \<longrightarrow> r = computeReachability (rsTree s)))"

lemma reach_step_inv: "reach_step s s' \<Longrightarrow> cache_inv s \<Longrightarrow> cache_inv s'"
proof (induction rule: reach_step.induct)
  case (detours s i ts)
  then show ?case
    by (auto simp: cache_inv_def set_reader_def reader_at_def computeReachability_edges tree_seeds_def empty_reach_def)
next
  case (visit s i e es r es' r')
  then show ?case by (auto simp: cache_inv_def set_reader_def reader_at_def visit_edge_walk)
qed (auto simp: cache_inv_def InvalidateReachability_def set_reader_def reader_at_def)

text \<open>
  C28: A single reader sees the tree as it is. When only one goroutine reads the cache, then whatever
  changes of the tree came in between, also between the looks at single outbounds during its walk, a cached walk that is not
  marked dirty, after every change has been announced, is the walk of the current tree.
\<close>

theorem reach_cache_coherent:
  assumes "reach_step\<^sup>*\<^sup>* (reach_init tree 1) s" and "\<not> rsDirty s" and "rsPending s = 0"
    and "rsReaders s = [ReaderIdle]" and "rsCache s = Some r"
  shows "r = computeReachability (rsTree s)"
proof -
  have "cache_inv (reach_init tree 1)" by (simp add: cache_inv_def reach_init_def)
  with assms(1) have "cache_inv s" by (induction rule: rtranclp_induct) (auto intro: reach_step_inv)
  with assms(2-5) show ?thesis by (simp add: cache_inv_def)
qed

text \<open>A reader that is left alone finishes its walk.\<close>

lemma walk_run:
  "i < length (rsReaders s) \<Longrightarrow> views = rtViews (rsTree s) \<Longrightarrow>
     reach_step\<^sup>*\<^sup>* (set_reader i (ReaderWalking (es @ fs) r) s) (set_reader i (ReaderWalking fs (walk_edges views es r)) s)"
proof (induction views es r arbitrary: fs rule: walk_edges.induct)
  case (2 views tag manual es r)
  let ?at = "\<lambda>es r. set_reader i (ReaderWalking es r) s"
  have step: "reach_step (?at ((tag, manual) # es @ fs) r) (?at es' r')"
    if "visit_edge views (tag, manual) (es @ fs) r = (es', r')" for es' r'
    using visit [of "?at ((tag, manual) # es @ fs) r" i "(tag, manual)" "es @ fs" r es' r'] that 2(5,6)
    by (simp add: reader_at_def set_reader_def)
  let ?r1 = "count_edge tag manual r"
  consider "tag = ''''" | "tag \<noteq> ''''" "tag \<in> set (reachable r)" | "tag \<noteq> ''''" "tag \<notin> set (reachable r)" by blast
  then show ?case
  proof cases
    case 1
    with step 2(1) [OF 1 2(5,6), of fs] show ?thesis by (simp add: walk_edges.simps converse_rtranclp_into_rtranclp)
  next
    case c: 2
    with step 2(2) [OF c(1) refl _ 2(5,6), of fs] show ?thesis
      by (simp add: walk_edges.simps converse_rtranclp_into_rtranclp)
  next
    case c: 3
    let ?c = "view_edges (map_of views tag)"
    have "reach_step\<^sup>*\<^sup>* (?at (?c @ es @ fs) (mark tag ?r1)) (?at (es @ fs) (walk_edges views ?c (mark tag ?r1)))"
      using 2(3) [OF c(1) refl _ 2(5,6), of "es @ fs"] c(2) by simp
    moreover have "reach_step\<^sup>*\<^sup>* (?at (es @ fs) (walk_edges views ?c (mark tag ?r1)))
        (?at fs (walk_edges views es (walk_edges views ?c (mark tag ?r1))))"
      using 2(4) [OF c(1) refl _ 2(5,6), of fs] c(2) by simp
    ultimately have "reach_step\<^sup>*\<^sup>* (?at (?c @ es @ fs) (mark tag ?r1)) (?at fs (walk_edges views ((tag, manual) # es) r))"
      using c by (simp add: walk_edges.simps)
    moreover have "reach_step (?at ((tag, manual) # es @ fs) r) (?at (?c @ es @ fs) (mark tag ?r1))"
      using c by (intro step) simp
    ultimately show ?thesis by (simp add: converse_rtranclp_into_rtranclp)
  qed
qed simp

lemma reader_run:
  assumes "reader_at s i ReaderCleared"
  shows "reach_step\<^sup>*\<^sup>* s (set_reader i (ReaderWalking [] (computeReachability (rsTree s))) s)"
proof -
  let ?at = "\<lambda>p. set_reader i p s" and ?es = "tree_seeds (rsTree s)"
  have i: "i < length (rsReaders s)" using assms by (simp add: reader_at_def)
  have "reach_step s (?at (ReaderSeeded (manual_seeds (rsTree s))))" using seeds [OF assms] .
  moreover have "reach_step (?at (ReaderSeeded (manual_seeds (rsTree s)))) (?at (ReaderWalking ?es empty_reach))"
    using detours [of "?at (ReaderSeeded (manual_seeds (rsTree s)))" i "manual_seeds (rsTree s)"] i
    by (simp add: reader_at_def set_reader_def tree_seeds_def)
  moreover have "reach_step\<^sup>*\<^sup>* (?at (ReaderWalking ?es empty_reach)) (?at (ReaderWalking [] (computeReachability (rsTree s))))"
    using walk_run [OF i refl, of ?es "[]" empty_reach] by (simp add: computeReachability_edges empty_reach_def)
  ultimately show ?thesis by (meson converse_rtranclp_into_rtranclp)
qed

definition plain_tree :: "string \<Rightarrow> routing_tree" where
  "plain_tree t = \<lparr>rtDefault = Some t, rtRules = [], rtDetours = [], rtViews = []\<rparr>"

theorem reach_cache_coherent_witness:
  "\<exists>s r. reach_step\<^sup>*\<^sup>* (reach_init (plain_tree ''a'') 1) s \<and> rsCache s = Some r \<and>
    r = computeReachability (rsTree s) \<and> rsTree s = plain_tree ''a''"
proof -
  let ?t = "plain_tree ''a''"
  let ?s = "\<lambda>c r. \<lparr>rsTree = ?t, rsPending = 0, rsDirty = False, rsCache = c, rsReaders = [r]\<rparr>"
  let ?r = "computeReachability ?t"
  note [simp] = reader_at_def set_reader_def
  have 1: "reach_step (?s None ReaderIdle) (?s None ReaderStale)" using look [of "?s None ReaderIdle" 0] by simp
  have 2: "reach_step (?s None ReaderStale) (?s None ReaderCleared)" using clear [of "?s None ReaderStale" 0] by simp
  have 3: "reach_step\<^sup>*\<^sup>* (?s None ReaderCleared) (?s None (ReaderWalking [] ?r))"
    using reader_run [of "?s None ReaderCleared" 0] by simp
  have 4: "reach_step (?s None (ReaderWalking [] ?r)) (?s (Some ?r) ReaderIdle)"
    using publish [of "?s None (ReaderWalking [] ?r)" 0] by simp
  have "reach_step\<^sup>*\<^sup>* (?s None ReaderIdle) (?s (Some ?r) ReaderIdle)"
    using 1 2 3 4 by (meson converse_rtranclp_into_rtranclp rtranclp.rtrancl_into_rtrancl)
  then have run: "reach_step\<^sup>*\<^sup>* (reach_init ?t 1) (?s (Some ?r) ReaderIdle)" by (simp add: reach_init_def)
  with reach_cache_coherent [OF run] show ?thesis by fastforce
qed

text \<open>
  C40: Two readers can leave a stale walk behind. If one reader has walked and is about to
  publish while the tree changes, the change is announced and a second reader walks the new tree and
  publishes it, then the first reader overwrites the result with its own, of the old tree.
  The cache is then wrong and nothing marks it dirty.
\<close>

theorem reach_cache_race:
  assumes "computeReachability old \<noteq> computeReachability new"
  shows "\<exists>s. reach_step\<^sup>*\<^sup>* (reach_init old 2) s \<and> rsTree s = new \<and> \<not> rsDirty s \<and> rsPending s = 0 \<and>
    rsReaders s = [ReaderIdle, ReaderIdle] \<and> rsCache s \<noteq> Some (computeReachability new)"
proof -
  let ?s = "\<lambda>tree p d c r0 r1. \<lparr>rsTree = tree, rsPending = p, rsDirty = d, rsCache = c, rsReaders = [r0, r1]\<rparr>"
  let ?old = "ReaderWalking [] (computeReachability old)" and ?new = "ReaderWalking [] (computeReachability new)"
  note [simp] = reader_at_def set_reader_def InvalidateReachability_def
  have 1: "reach_step (?s old 0 False None ReaderIdle ReaderIdle) (?s old 0 False None ReaderStale ReaderIdle)"
    using look [of "?s old 0 False None ReaderIdle ReaderIdle" 0] by simp
  have 2: "reach_step (?s old 0 False None ReaderStale ReaderIdle) (?s old 0 False None ReaderCleared ReaderIdle)"
    using clear [of "?s old 0 False None ReaderStale ReaderIdle" 0] by simp
  have 3: "reach_step\<^sup>*\<^sup>* (?s old 0 False None ReaderCleared ReaderIdle) (?s old 0 False None ?old ReaderIdle)"
    using reader_run [of "?s old 0 False None ReaderCleared ReaderIdle" 0] by simp
  have 4: "reach_step (?s old 0 False None ?old ReaderIdle) (?s new 1 False None ?old ReaderIdle)"
    using change [of "?s old 0 False None ?old ReaderIdle" new] by simp
  have 5: "reach_step (?s new 1 False None ?old ReaderIdle) (?s new 0 True None ?old ReaderIdle)"
    using invalidate [of "?s new 1 False None ?old ReaderIdle"] by simp
  have 6: "reach_step (?s new 0 True None ?old ReaderIdle) (?s new 0 True None ?old ReaderStale)"
    using look [of "?s new 0 True None ?old ReaderIdle" 1] by simp
  have 7: "reach_step (?s new 0 True None ?old ReaderStale) (?s new 0 False None ?old ReaderCleared)"
    using clear [of "?s new 0 True None ?old ReaderStale" 1] by simp
  have 8: "reach_step\<^sup>*\<^sup>* (?s new 0 False None ?old ReaderCleared) (?s new 0 False None ?old ?new)"
    using reader_run [of "?s new 0 False None ?old ReaderCleared" 1] by simp
  have 9: "reach_step (?s new 0 False None ?old ?new) (?s new 0 False (Some (computeReachability new)) ?old ReaderIdle)"
    using publish [of "?s new 0 False None ?old ?new" 1] by simp
  have 10: "reach_step (?s new 0 False (Some (computeReachability new)) ?old ReaderIdle)
      (?s new 0 False (Some (computeReachability old)) ReaderIdle ReaderIdle)"
    using publish [of "?s new 0 False (Some (computeReachability new)) ?old ReaderIdle" 0] by simp
  have "reach_step\<^sup>*\<^sup>* (?s old 0 False None ReaderIdle ReaderIdle)
      (?s new 0 False (Some (computeReachability old)) ReaderIdle ReaderIdle)"
    by (intro converse_rtranclp_into_rtranclp [of reach_step, OF 1] converse_rtranclp_into_rtranclp [of reach_step, OF 2]
        rtranclp_trans [of reach_step, OF 3] converse_rtranclp_into_rtranclp [of reach_step, OF 4]
        converse_rtranclp_into_rtranclp [of reach_step, OF 5] converse_rtranclp_into_rtranclp [of reach_step, OF 6]
        converse_rtranclp_into_rtranclp [of reach_step, OF 7] rtranclp_trans [of reach_step, OF 8]
        converse_rtranclp_into_rtranclp [of reach_step, OF 9] converse_rtranclp_into_rtranclp [of reach_step, OF 10]
        rtranclp.rtrancl_refl)
  then show ?thesis
    using assms by (intro exI [of _ "?s new 0 False (Some (computeReachability old)) ReaderIdle ReaderIdle"])
      (simp add: reach_init_def numeral_2_eq_2)
qed

theorem reach_cache_race_witness:
  "\<exists>s. reach_step\<^sup>*\<^sup>* (reach_init (plain_tree ''a'') 2) s \<and> rsTree s = plain_tree ''b'' \<and> \<not> rsDirty s \<and>
    rsCache s \<noteq> Some (computeReachability (plain_tree ''b''))"
proof -
  have "reachable (computeReachability (plain_tree t)) = [t]" if "t \<noteq> ''''" for t
    using that by (simp add: computeReachability_edges plain_tree_def tree_seeds_def manual_seeds_def auto_seeds_def
        walk_edges.simps Let_def)
  from this [of "''a''"] this [of "''b''"]
  have "computeReachability (plain_tree ''a'') \<noteq> computeReachability (plain_tree ''b'')" by auto
  from reach_cache_race [OF this] show ?thesis by blast
qed

end
