(* ===== verification/DnsMode.thy ===== *)
theory DnsMode
  imports RuleReferences
begin

text \<open>
  How the DNS router (\<^verbatim>\<open>dns/router.go\<close>) builds its rules and chooses its mode. Rules with address filters that are checked
  against the response after the query need the legacy mode; rules that refer to evaluated responses, or
  look at the query type, disable it. In the new mode the rules are validated: response fields need
  \<^verbatim>\<open>match_response\<close>, and a rule may only refer to responses that earlier rules evaluate.

  \<^item> \<open>rule_sets\<close> is the lookup of rule-sets of the router, \<^term>\<open>None\<close> if there is no router. \<open>overrides\<close> are
    metadata that replace those of a rule-set in the check of an update.
  \<^item> \<open>buildRules\<close> puts the checks and the constructors together. \<open>legacy_rules\<close> and \<open>response_rules\<close> say what the rules
    of either mode satisfy; the second is what the walk over the rules relies on.
\<close>

subsection \<open>Which mode the rules need\<close>

datatype mode_error =
    RouterNotFound
  | RuleSetNotFound string
  | LegacyDNSRuleStrategy
  | LegacyDNSAddressFilter
  | RuleSetIPCIDRAcceptEmpty
  | ResponseFieldsRequireMatchResponse
  | RespondBindsTag
  | RequiresEvaluate nat bool
  | UndefinedEvaluateTag nat string
  | DuplicateEvaluateTag nat string
  | EvaluateFakeIP nat string
  | NestedActionIn nat
  | InRule string nat mode_error
  | ParseRule nat build_error

type_synonym dns_rule_options = "(dns_options, dns_rule_action) rule_options"
type_synonym metadata_lookup = "string \<Rightarrow> RuleSetMetadata option"

definition defaultRuleNeedsLegacyDNSModeFromAddressFilter :: "dns_options \<Rightarrow> bool" where
  "defaultRuleNeedsLegacyDNSModeFromAddressFilter d =
     (if d_RuleSetIPCIDRAcceptEmpty d then True
      else \<not> IsEnabled (d_MatchResponse d) \<and> (d_IPAcceptAny d \<or> length (o_IPCIDR d) > 0 \<or> o_IPIsPrivate d))"

definition hasResponseMatchFields :: "dns_options \<Rightarrow> bool" where
  "hasResponseMatchFields d \<longleftrightarrow> d_ResponseRcode d \<noteq> None \<or> length (d_ResponseAnswer d) > 0 \<or>
     length (d_ResponseNs d) > 0 \<or> length (d_ResponseExtra d) > 0"

fun is_evaluate :: "dns_action \<Rightarrow> bool" where
  "is_evaluate (DNSEvaluateAction server opts tag speculative) = True"
| "is_evaluate _ = False"

definition defaultRuleDisablesLegacyDNSMode :: "dns_options \<Rightarrow> dns_rule_action \<Rightarrow> bool" where
  "defaultRuleDisablesLegacyDNSMode d a \<longleftrightarrow> IsEnabled (d_MatchResponse d) \<or> hasResponseMatchFields d \<or>
     is_evaluate (da_Action a) \<or> da_Action a = DNSRespondAction \<or> o_IPVersion d > 0 \<or> length (d_QueryType d) > 0"

fun action_disables :: "dns_action \<Rightarrow> bool" where
  "action_disables (DNSRouteAction server opts speculative) \<longleftrightarrow> dr_DisableOptimisticCache opts \<or> speculative"
| "action_disables (DNSEvaluateAction server opts tag speculative) \<longleftrightarrow> dr_DisableOptimisticCache opts \<or> speculative"
| "action_disables (DNSRouteOptionsAction opts) \<longleftrightarrow> dr_DisableOptimisticCache opts"
| "action_disables _ = False"

definition dnsRuleActionDisablesLegacyDNSMode :: "dns_rule_action \<Rightarrow> bool" where
  "dnsRuleActionDisablesLegacyDNSMode a = (if da_Race a then True else action_disables (da_Action a))"

fun action_strategy :: "dns_action \<Rightarrow> bool" where
  "action_strategy (DNSRouteAction server opts speculative) \<longleftrightarrow> dr_Strategy opts \<noteq> 0"
| "action_strategy (DNSEvaluateAction server opts tag speculative) \<longleftrightarrow> dr_Strategy opts \<noteq> 0"
| "action_strategy (DNSRouteOptionsAction opts) \<longleftrightarrow> dr_Strategy opts \<noteq> 0"
| "action_strategy _ = False"

definition dnsRuleActionHasStrategy :: "dns_rule_action \<Rightarrow> bool" where
  "dnsRuleActionHasStrategy a = action_strategy (da_Action a)"

record dnsRuleModeFlags =
  mf_disabled :: bool
  mf_needed :: bool
  mf_neededFromStrategy :: bool

definition merge_flags :: "dnsRuleModeFlags \<Rightarrow> dnsRuleModeFlags \<Rightarrow> dnsRuleModeFlags" where
  "merge_flags f other = \<lparr>mf_disabled = mf_disabled f \<or> mf_disabled other, mf_needed = mf_needed f \<or> mf_needed other,
     mf_neededFromStrategy = mf_neededFromStrategy f \<or> mf_neededFromStrategy other\<rparr>"

definition zero_flags :: dnsRuleModeFlags where
  "zero_flags = \<lparr>mf_disabled = False, mf_needed = False, mf_neededFromStrategy = False\<rparr>"

definition lookupDNSRuleSetMetadata ::
  "metadata_lookup \<Rightarrow> metadata_lookup \<Rightarrow> string \<Rightarrow> mode_error + RuleSetMetadata" where
  "lookupDNSRuleSetMetadata sets overrides tag =
     (case overrides tag of
        Some metadata \<Rightarrow> Inr metadata
      | None \<Rightarrow> (case sets tag of None \<Rightarrow> Inl (RuleSetNotFound tag) | Some metadata \<Rightarrow> Inr metadata))"

fun rule_set_flags ::
  "metadata_lookup \<Rightarrow> metadata_lookup \<Rightarrow> bool \<Rightarrow> string list \<Rightarrow> dnsRuleModeFlags \<Rightarrow> mode_error + dnsRuleModeFlags" where
  "rule_set_flags sets overrides matchSource [] fl = Inr fl"
| "rule_set_flags sets overrides matchSource (tag # tags) fl =
     bind_res (lookupDNSRuleSetMetadata sets overrides tag) (\<lambda>metadata.
       rule_set_flags sets overrides matchSource tags
         (fl\<lparr>mf_disabled := mf_disabled fl \<or> ContainsDNSQueryTypeRule metadata,
                mf_needed := mf_needed fl \<or> \<not> matchSource \<and> ContainsIPCIDRRule metadata\<rparr>))"

definition dnsRuleModeRequirementsInDefaultRule ::
  "metadata_lookup option \<Rightarrow> metadata_lookup \<Rightarrow> dns_options \<Rightarrow> dns_rule_action \<Rightarrow> mode_error + dnsRuleModeFlags" where
  "dnsRuleModeRequirementsInDefaultRule router overrides d a =
     (let strategy = dnsRuleActionHasStrategy a;
          fl = \<lparr>mf_disabled = defaultRuleDisablesLegacyDNSMode d a \<or> dnsRuleActionDisablesLegacyDNSMode a,
                   mf_needed = defaultRuleNeedsLegacyDNSModeFromAddressFilter d \<or> strategy,
                   mf_neededFromStrategy = strategy\<rparr>
      in if o_RuleSet d = [] then Inr fl
         else case router of
                None \<Rightarrow> Inl RouterNotFound
              | Some sets \<Rightarrow> rule_set_flags sets overrides (o_RuleSetIPCIDRMatchSource d) (o_RuleSet d) fl)"

fun dnsRuleModeRequirementsInRule ::
  "metadata_lookup option \<Rightarrow> metadata_lookup \<Rightarrow> dns_rule_options \<Rightarrow> mode_error + dnsRuleModeFlags"
and mode_requirements_loop ::
  "metadata_lookup option \<Rightarrow> metadata_lookup \<Rightarrow> string \<Rightarrow> nat \<Rightarrow> dns_rule_options list \<Rightarrow> dnsRuleModeFlags
   \<Rightarrow> mode_error + dnsRuleModeFlags" where
  "dnsRuleModeRequirementsInRule router overrides (RuleOptions t d lm rules neg a) =
     (if t = '''' \<or> t = ''default'' then dnsRuleModeRequirementsInDefaultRule router overrides d a
      else if t = ''logical'' then
        (let strategy = dnsRuleActionHasStrategy a
         in mode_requirements_loop router overrides ''sub rule'' 0 rules
              \<lparr>mf_disabled = is_evaluate (da_Action a) \<or> da_Action a = DNSRespondAction \<or> dnsRuleActionDisablesLegacyDNSMode a,
               mf_needed = strategy, mf_neededFromStrategy = strategy\<rparr>)
      else Inr zero_flags)"
| "mode_requirements_loop router overrides label i [] fl = Inr fl"
| "mode_requirements_loop router overrides label i (r # rules) fl =
     (case dnsRuleModeRequirementsInRule router overrides r of
        Inl e \<Rightarrow> Inl (InRule label i e)
      | Inr ruleFlags \<Rightarrow> mode_requirements_loop router overrides label (i + 1) rules (merge_flags fl ruleFlags))"

definition dnsRuleModeRequirements ::
  "metadata_lookup option \<Rightarrow> metadata_lookup \<Rightarrow> dns_rule_options list \<Rightarrow> mode_error + dnsRuleModeFlags" where
  "dnsRuleModeRequirements router overrides rules = mode_requirements_loop router overrides ''dns rule'' 0 rules zero_flags"

definition resolveLegacyDNSMode ::
  "metadata_lookup option \<Rightarrow> metadata_lookup \<Rightarrow> dns_rule_options list \<Rightarrow> mode_error + (bool \<times> dnsRuleModeFlags)" where
  "resolveLegacyDNSMode router overrides rules =
     bind_res (dnsRuleModeRequirements router overrides rules) (\<lambda>fl.
       if mf_disabled fl \<and> mf_neededFromStrategy fl then Inl LegacyDNSRuleStrategy
       else if mf_disabled fl then Inr (False, fl)
       else Inr (mf_needed fl, fl))"

subsection \<open>Validation in the new mode\<close>

record dnsRuleResponseUse =
  ru_needsAnonymous :: bool
  ru_referencedTags :: "string list"

definition no_use :: dnsRuleResponseUse where
  "no_use = \<lparr>ru_needsAnonymous = False, ru_referencedTags = []\<rparr>"

text \<open>A nil router has no rule-sets here; the rules that would need them were refused before.\<close>

fun reject_pure_ip :: "metadata_lookup \<Rightarrow> metadata_lookup \<Rightarrow> string list \<Rightarrow> mode_error option" where
  "reject_pure_ip sets overrides [] = None"
| "reject_pure_ip sets overrides (tag # tags) =
     (case lookupDNSRuleSetMetadata sets overrides tag of
        Inl e \<Rightarrow> Some e
      | Inr metadata \<Rightarrow>
          if ContainsIPCIDRRule metadata \<and> \<not> ContainsNonIPCIDRRule metadata then Some LegacyDNSAddressFilter
          else reject_pure_ip sets overrides tags)"

definition validateLegacyDNSModeDisabledDefaultRule ::
  "metadata_lookup \<Rightarrow> metadata_lookup \<Rightarrow> dns_options \<Rightarrow> dns_rule_action \<Rightarrow> mode_error + dnsRuleResponseUse" where
  "validateLegacyDNSModeDisabledDefaultRule sets overrides d a =
     (let enabled = IsEnabled (d_MatchResponse d); responseTag = ResponseTag (d_MatchResponse d) in
      if (hasResponseMatchFields d \<or> length (o_IPCIDR d) > 0 \<or> o_IPIsPrivate d \<or> d_IPAcceptAny d) \<and> \<not> enabled
      then Inl ResponseFieldsRequireMatchResponse
      else case (if \<not> enabled \<and> length (o_RuleSet d) > 0 then reject_pure_ip sets overrides (o_RuleSet d) else None) of
             Some e \<Rightarrow> Inl e
           | None \<Rightarrow>
               if d_RuleSetIPCIDRAcceptEmpty d then Inl RuleSetIPCIDRAcceptEmpty
               else
                 (let use = (if enabled then
                               (if responseTag \<noteq> '''' then no_use\<lparr>ru_referencedTags := [responseTag]\<rparr>
                                else no_use\<lparr>ru_needsAnonymous := True\<rparr>)
                             else no_use)
                  in Inr (if da_Action a = DNSRespondAction \<and> responseTag = '''' then use\<lparr>ru_needsAnonymous := True\<rparr> else use)))"

fun validateLegacyDNSModeDisabledRuleTree ::
  "metadata_lookup \<Rightarrow> metadata_lookup \<Rightarrow> dns_rule_options \<Rightarrow> mode_error + dnsRuleResponseUse"
and validate_sub_rules ::
  "metadata_lookup \<Rightarrow> metadata_lookup \<Rightarrow> nat \<Rightarrow> dns_rule_options list \<Rightarrow> dnsRuleResponseUse \<Rightarrow> mode_error + dnsRuleResponseUse" where
  "validateLegacyDNSModeDisabledRuleTree sets overrides (RuleOptions t d lm rules neg a) =
     (if t = '''' \<or> t = ''default'' then validateLegacyDNSModeDisabledDefaultRule sets overrides d a
      else if t = ''logical'' then
        bind_res (validate_sub_rules sets overrides 0 rules no_use) (\<lambda>use.
          if da_Action a = DNSRespondAction then
            (if ru_referencedTags use \<noteq> [] then Inl RespondBindsTag else Inr (use\<lparr>ru_needsAnonymous := True\<rparr>))
          else Inr use)
      else Inr no_use)"
| "validate_sub_rules sets overrides i [] use = Inr use"
| "validate_sub_rules sets overrides i (r # rules) use =
     (case validateLegacyDNSModeDisabledRuleTree sets overrides r of
        Inl e \<Rightarrow> Inl (InRule ''sub rule'' i e)
      | Inr subUse \<Rightarrow>
          validate_sub_rules sets overrides (i + 1) rules
            \<lparr>ru_needsAnonymous = ru_needsAnonymous use \<or> ru_needsAnonymous subUse,
             ru_referencedTags = ru_referencedTags use @ ru_referencedTags subUse\<rparr>)"

datatype mode_warning = SpeculativeNoEffect nat | OverwrittenBeforeUse nat nat | NeverReferenced string

record validate_state =
  vs_warnings :: "mode_warning list"
  vs_seenAnonymousEvaluate :: bool
  vs_seenRace :: bool
  vs_definedTags :: "string list"
  vs_referencedTags :: "string list"
  vs_lastAnonymousEvaluate :: "nat option"
  vs_anonymousReadSinceLast :: bool

definition dnsRuleActionSpeculative :: "dns_rule_action \<Rightarrow> bool" where
  "dnsRuleActionSpeculative a =
     (case da_Action a of
        DNSEvaluateAction server opts tag speculative \<Rightarrow> speculative
      | DNSRouteAction server opts speculative \<Rightarrow> speculative
      | _ \<Rightarrow> False)"

text \<open>The type of a rule is known here: the functions that read its action give nothing for another one.\<close>

definition known_type :: "dns_rule_options \<Rightarrow> bool" where
  "known_type r \<longleftrightarrow> ro_Type r = '''' \<or> ro_Type r = ''default'' \<or> ro_Type r = ''logical''"

definition validate_action :: "nat \<Rightarrow> dns_action \<Rightarrow> validate_state \<Rightarrow> mode_error + validate_state" where
  "validate_action i action s =
     (case action of
        DNSEvaluateAction server opts tag speculative \<Rightarrow>
          if tag = '''' then
            Inr (s\<lparr>vs_warnings := vs_warnings s @
                     (case vs_lastAnonymousEvaluate s of
                        Some j \<Rightarrow> if \<not> vs_anonymousReadSinceLast s then [OverwrittenBeforeUse j i] else []
                      | None \<Rightarrow> []),
                   vs_seenAnonymousEvaluate := True, vs_lastAnonymousEvaluate := Some i,
                   vs_anonymousReadSinceLast := False\<rparr>)
          else if tag \<in> set (vs_definedTags s) then Inl (DuplicateEvaluateTag i tag)
          else Inr (s\<lparr>vs_definedTags := vs_definedTags s @ [tag]\<rparr>)
      | _ \<Rightarrow> Inr s)"

fun reference_tags :: "nat \<Rightarrow> string list \<Rightarrow> validate_state \<Rightarrow> mode_error + validate_state" where
  "reference_tags i [] s = Inr s"
| "reference_tags i (tag # tags) s =
     (if tag \<notin> set (vs_definedTags s) then Inl (UndefinedEvaluateTag i tag)
      else reference_tags i tags (s\<lparr>vs_referencedTags := vs_referencedTags s @ [tag]\<rparr>))"

fun validate_rules ::
  "metadata_lookup \<Rightarrow> metadata_lookup \<Rightarrow> nat \<Rightarrow> dns_rule_options list \<Rightarrow> validate_state \<Rightarrow> mode_error + validate_state" where
  "validate_rules sets overrides i [] s = Inr s"
| "validate_rules sets overrides i (r # rules) s =
     (case validateLegacyDNSModeDisabledRuleTree sets overrides r of
        Inl e \<Rightarrow> Inl (InRule ''validate dns rule'' i e)
      | Inr use \<Rightarrow>
          (let a = ro_Action r;
               s = (if known_type r \<and> dnsRuleActionSpeculative a \<and> \<not> vs_seenRace s
                    then s\<lparr>vs_warnings := vs_warnings s @ [SpeculativeNoEffect i]\<rparr> else s);
               s = (if known_type r \<and> da_Race a then s\<lparr>vs_seenRace := True\<rparr> else s)
           in if ru_needsAnonymous use \<and> \<not> vs_seenAnonymousEvaluate s
              then Inl (RequiresEvaluate i (length (vs_definedTags s) > 0))
              else bind_res (reference_tags i (ru_referencedTags use)
                     (if ru_needsAnonymous use then s\<lparr>vs_anonymousReadSinceLast := True\<rparr> else s)) (\<lambda>s.
                   bind_res (if known_type r then validate_action i (da_Action a) s else Inr s) (\<lambda>s.
                     validate_rules sets overrides (i + 1) rules s))))"

definition initial_validate :: validate_state where
  "initial_validate = \<lparr>vs_warnings = [], vs_seenAnonymousEvaluate = False, vs_seenRace = False, vs_definedTags = [],
     vs_referencedTags = [], vs_lastAnonymousEvaluate = None, vs_anonymousReadSinceLast = False\<rparr>"

definition validateLegacyDNSModeDisabledRules ::
  "metadata_lookup \<Rightarrow> metadata_lookup \<Rightarrow> dns_rule_options list \<Rightarrow> mode_error + mode_warning list" where
  "validateLegacyDNSModeDisabledRules sets overrides rules =
     bind_res (validate_rules sets overrides 0 rules initial_validate) (\<lambda>s.
       Inr (vs_warnings s @ map NeverReferenced (filter (\<lambda>tag. tag \<notin> set (vs_referencedTags s)) (vs_definedTags s))))"

fun validateEvaluateFakeIPRules ::
  "(string \<Rightarrow> bool option) \<Rightarrow> nat \<Rightarrow> dns_rule_options list \<Rightarrow> mode_error option" where
  "validateEvaluateFakeIPRules transport i [] = None"
| "validateEvaluateFakeIPRules transport i (r # rules) =
     (case (if known_type r then da_Action (ro_Action r) else NoDNSAction) of
        DNSEvaluateAction server opts tag speculative \<Rightarrow>
          if server \<noteq> '''' \<and> transport server = Some True then Some (EvaluateFakeIP i server)
          else validateEvaluateFakeIPRules transport (i + 1) rules
      | _ \<Rightarrow> validateEvaluateFakeIPRules transport (i + 1) rules)"

subsection \<open>Building the rules of the router\<close>

fun first_nested :: "nat \<Rightarrow> dns_rule_options list \<Rightarrow> mode_error option" where
  "first_nested i [] = None"
| "first_nested i (r # rules) =
     (if validateNoNestedRuleActions (\<lambda>a. a \<noteq> zero_dns_action) False r then first_nested (i + 1) rules
      else Some (NestedActionIn i))"

text \<open>A panic of a constructor is \<^term>\<open>None\<close>. Starting the rules, which gives them their rule-sets, is \<open>F\<close>.\<close>

fun new_dns_rules ::
  "build_lib \<Rightarrow> (string list \<Rightarrow> rule_set list) \<Rightarrow> bool \<Rightarrow> nat \<Rightarrow> dns_rule_options list
   \<Rightarrow> (mode_error + (rule \<times> dns_rule_action) list) option" where
  "new_dns_rules L F legacyDNSMode i [] = Some (Inr [])"
| "new_dns_rules L F legacyDNSMode i (r # rules) =
     (case NewDNSRule L True legacyDNSMode r of
        None \<Rightarrow> None
      | Some (Inl e) \<Rightarrow> Some (Inl (ParseRule i e))
      | Some (Inr x) \<Rightarrow>
          map_option (\<lambda>res. bind_res res (\<lambda>xs. Inr ((fill_sets F x, ro_Action r) # xs)))
            (new_dns_rules L F legacyDNSMode (i + 1) rules))"

definition buildRules ::
  "build_lib \<Rightarrow> (string list \<Rightarrow> rule_set list) \<Rightarrow> metadata_lookup option \<Rightarrow> (string \<Rightarrow> bool option) \<Rightarrow> dns_rule_options list
   \<Rightarrow> (mode_error + (rule \<times> dns_rule_action) list \<times> bool \<times> dnsRuleModeFlags) option" where
  "buildRules L F router transport rawRules =
     (case first_nested 0 rawRules of
        Some e \<Rightarrow> Some (Inl e)
      | None \<Rightarrow>
          (case resolveLegacyDNSMode router (\<lambda>_. None) rawRules of
             Inl e \<Rightarrow> Some (Inl e)
           | Inr (legacyDNSMode, modeFlags) \<Rightarrow>
               (case (if legacyDNSMode then Inr []
                      else validateLegacyDNSModeDisabledRules (case router of None \<Rightarrow> (\<lambda>_. None) | Some sets \<Rightarrow> sets) (\<lambda>_. None) rawRules) of
                  Inl e \<Rightarrow> Some (Inl e)
                | Inr warnings \<Rightarrow>
                    (case validateEvaluateFakeIPRules transport 0 rawRules of
                       Some e \<Rightarrow> Some (Inl e)
                     | None \<Rightarrow>
                         map_option (\<lambda>res. bind_res res (\<lambda>rules. Inr (rules, legacyDNSMode, modeFlags)))
                           (new_dns_rules L F legacyDNSMode 0 rawRules)))))"

text \<open>\<^verbatim>\<open>ValidateRuleSetMetadataUpdate\<close>; the result is the error, if any.\<close>

record dns_router_state =
  ds_rawRules :: "dns_rule_options list"
  ds_started :: bool
  ds_legacyDNSMode :: bool
  ds_closing :: bool

definition ValidateRuleSetMetadataUpdate ::
  "dns_router_state \<Rightarrow> metadata_lookup option \<Rightarrow> string \<Rightarrow> RuleSetMetadata \<Rightarrow> mode_error option" where
  "ValidateRuleSetMetadataUpdate s router tag metadata =
     (if ds_rawRules s = [] then None
      else case router of
             None \<Rightarrow> Some RouterNotFound
           | Some sets \<Rightarrow>
               (let overrides = [tag \<mapsto> metadata];
                    validate = (case validateLegacyDNSModeDisabledRules sets overrides (ds_rawRules s) of
                                  Inl e \<Rightarrow> Some e | Inr w \<Rightarrow> None)
                in if ds_closing s then None
                   else case resolveLegacyDNSMode router overrides (ds_rawRules s) of
                          Inl e \<Rightarrow> Some e
                        | Inr (candidate, modeFlags) \<Rightarrow>
                            if \<not> ds_started s then (if \<not> candidate then validate else None)
                            else if ds_legacyDNSMode s then
                              (if \<not> candidate \<and> mf_disabled modeFlags then
                                 (case validate of Some e \<Rightarrow> Some e | None \<Rightarrow> Some LegacyDNSAddressFilter)
                               else None)
                            else if candidate then Some LegacyDNSAddressFilter
                            else validate))"

subsection \<open>Rules in legacy mode\<close>

text \<open>Decoding sets a response tag only together with the flag.\<close>

definition decoded_dns :: "dns_options \<Rightarrow> bool" where
  "decoded_dns d \<longleftrightarrow> (ResponseTag (d_MatchResponse d) \<noteq> '''' \<longrightarrow> IsEnabled (d_MatchResponse d))"

lemma merge_flags_simps [simp]:
  "mf_disabled (merge_flags f g) \<longleftrightarrow> mf_disabled f \<or> mf_disabled g"
  by (simp add: merge_flags_def)

lemma mode_loop_disabled:
  "mode_requirements_loop router ov label i rules fl0 = Inr fl \<Longrightarrow> \<not> mf_disabled fl \<Longrightarrow>
     \<not> mf_disabled fl0 \<and> (\<forall>r\<in>set rules. \<exists>f. dnsRuleModeRequirementsInRule router ov r = Inr f \<and> \<not> mf_disabled f)"
proof (induction rules arbitrary: i fl0)
  case (Cons r rules)
  then obtain f where f: "dnsRuleModeRequirementsInRule router ov r = Inr f"
    "mode_requirements_loop router ov label (i + 1) rules (merge_flags fl0 f) = Inr fl"
    by (auto split: sum.splits)
  from Cons.IH [OF f(2) Cons.prems(2)] f(1) show ?case by auto
qed simp

lemma rule_set_flags_disabled:
  "rule_set_flags sets ov b tags fl0 = Inr fl \<Longrightarrow> \<not> mf_disabled fl \<Longrightarrow> \<not> mf_disabled fl0"
proof (induction tags arbitrary: fl0)
  case (Cons tag tags)
  then obtain md where md: "lookupDNSRuleSetMetadata sets ov tag = Inr md" by auto
  with Cons.IH [of "fl0\<lparr>mf_disabled := mf_disabled fl0 \<or> ContainsDNSQueryTypeRule md,
      mf_needed := mf_needed fl0 \<or> \<not> b \<and> ContainsIPCIDRRule md\<rparr>"] Cons.prems show ?case by simp
qed simp

lemma default_disabled:
  assumes "dnsRuleModeRequirementsInDefaultRule router ov d a = Inr fl" "\<not> mf_disabled fl"
  shows "\<not> defaultRuleDisablesLegacyDNSMode d a \<and> \<not> dnsRuleActionDisablesLegacyDNSMode a"
  using assms rule_set_flags_disabled
  by (fastforce simp: dnsRuleModeRequirementsInDefaultRule_def Let_def split: if_splits option.splits)

lemma new_dns_default:
  assumes "NewDefaultDNSRule L legacy d = Inr x"
  obtains r where "x = DefaultDNSRule r (IsEnabled (d_MatchResponse d)) (ResponseTag (d_MatchResponse d))"
  using assms by (auto simp: NewDefaultDNSRule_def split: if_splits)

lemma legacy_no_response:
  "B = dns_builder L legacy \<Longrightarrow> new_rule B outer o' = Some (Inr x) \<Longrightarrow> decoded decoded_dns o' \<Longrightarrow>
     dnsRuleModeRequirementsInRule router ov o' = Inr fl \<Longrightarrow> \<not> mf_disabled fl \<Longrightarrow> \<not> matches_response x"
  "B = dns_builder L legacy \<Longrightarrow> new_rules B os = Some (Inr xs) \<Longrightarrow> list_all (decoded decoded_dns) os \<Longrightarrow>
     \<forall>r\<in>set os. \<exists>f. dnsRuleModeRequirementsInRule router ov r = Inr f \<and> \<not> mf_disabled f \<Longrightarrow>
     list_all (\<lambda>x. \<not> matches_response x) xs"
proof (induction B outer o' and B os arbitrary: x fl and xs rule: new_rule_new_rules.induct)
  case (1 B outer t d lm rules neg a)
  consider "t = ''default''" | "t = ''logical''"
    using "1.prems"(2,3) by (fastforce split: if_splits)
  then show ?case
  proof cases
    case 1
    then have b: "NewDefaultDNSRule L legacy d = Inr x"
      using "1.prems" by (auto simp: dns_builder_def split: if_splits option.splits)
    have "\<not> IsEnabled (d_MatchResponse d)"
      using default_disabled [of router ov d a fl] "1.prems"(4,5) 1 by (simp add: defaultRuleDisablesLegacyDNSMode_def)
    moreover have "decoded_dns d" using "1.prems"(3) 1 by simp
    ultimately show ?thesis
      using new_dns_default [OF b] by (metis decoded_dns_def matches_response_default)
  next
    case 2
    then obtain xs where xs: "new_rules B rules = Some (Inr xs)" "x = LogicalRule (rb_kind B) lm xs neg"
      using "1.prems"(2) by (auto split: if_splits option.splits bool.splits)
    have "\<forall>r\<in>set rules. \<exists>f. dnsRuleModeRequirementsInRule router ov r = Inr f \<and> \<not> mf_disabled f"
      using "1.prems"(4,5) 2 mode_loop_disabled by (simp add: Let_def)
    then have "list_all (\<lambda>x. \<not> matches_response x) xs"
      by (intro "1.IH"(1)) (use 2 xs "1.prems"(1-3) in \<open>auto split: if_splits option.splits bool.splits\<close>)
    then show ?thesis using xs(2) by (auto simp: matches_response_def list_all_iff list_ex_iff)
  qed
next
  case (2 B)
  then show ?case by simp
next
  case (3 B r rules)
  then show ?case
    by (auto split: if_splits option.splits sum.splits)
qed

lemma fill_sets_dns [simp]: "is_dns_rule (fill_sets F x) = is_dns_rule x"
  by (cases x) simp_all

lemma fill_sets_responses [simp]:
  "MatchResponseTags (fill_sets F x) = MatchResponseTags x"
  "MatchResponseAnonymous (fill_sets F x) = MatchResponseAnonymous x"
proof (induction F x rule: fill_sets.induct)
  case (4 F k mode rules neg)
  {
    case 1
    have "map (\<lambda>sub. if is_dns_rule sub then MatchResponseTags sub else []) (map (fill_sets F) rules) =
        map (\<lambda>sub. if is_dns_rule sub then MatchResponseTags sub else []) rules"
      using 4 by simp
    then show ?case by (simp del: map_map)
  next
    case 2
    then show ?case using 4 by (auto simp: list_ex_iff)
  }
qed simp_all

lemma fill_sets_matches [simp]: "matches_response (fill_sets F x) = matches_response x"
  by (simp add: matches_response_def)

lemma new_dns_rules_installed:
  "new_dns_rules L F legacy i os = Some (Inr rules) \<Longrightarrow> installed (dns_builder L legacy) F os rules"
proof (induction os arbitrary: i rules)
  case (Cons o' os)
  then obtain x rest where "NewDNSRule L True legacy o' = Some (Inr x)" "new_dns_rules L F legacy (i + 1) os = Some (Inr rest)"
    "rules = (fill_sets F x, ro_Action o') # rest"
    by (auto split: option.splits sum.splits)
  with Cons.IH [of "i + 1" rest] show ?case by (auto simp: NewDNSRule_def)
qed simp

lemma buildRules_cases:
  assumes "buildRules L F router transport os = Some (Inr (rules, legacy, fl))"
  obtains "installed (dns_builder L legacy) F os rules" "resolveLegacyDNSMode router (\<lambda>_. None) os = Inr (legacy, fl)"
    "\<not> legacy \<Longrightarrow> \<exists>w. validateLegacyDNSModeDisabledRules (case router of None \<Rightarrow> (\<lambda>_. None) | Some sets \<Rightarrow> sets) (\<lambda>_. None) os = Inr w"
    "validateEvaluateFakeIPRules transport 0 os = None"
  using assms new_dns_rules_installed [of L F legacy 0 os rules]
  by (fastforce simp: buildRules_def split: option.splits sum.splits if_splits)

lemma decoded_mono: "decoded P o' \<Longrightarrow> (\<And>d. P d \<Longrightarrow> Q d) \<Longrightarrow> decoded Q o'"
  by (induction P o' rule: decoded.induct) (auto simp: list_all_iff)

lemma enabled_action:
  assumes "dnsRuleModeRequirementsInRule router ov o' = Inr fl" "\<not> mf_disabled fl"
    "ro_Type o' = ''default'' \<or> ro_Type o' = ''logical''"
  shows "da_Action (ro_Action o') \<noteq> DNSRespondAction \<and> \<not> is_evaluate (da_Action (ro_Action o')) \<and> \<not> da_Race (ro_Action o')"
proof (cases o')
  case (RuleOptions t d lm rules neg a)
  show ?thesis
  proof (cases "t = ''default''")
    case True
    then show ?thesis
      using assms(1,2) RuleOptions default_disabled [of router ov d a fl]
      by (auto simp: defaultRuleDisablesLegacyDNSMode_def dnsRuleActionDisablesLegacyDNSMode_def split: if_splits)
  next
    case False
    then show ?thesis
      using assms RuleOptions mode_loop_disabled by (fastforce simp: Let_def dnsRuleActionDisablesLegacyDNSMode_def split: if_splits)
  qed
qed

lemma legacy_rules:
  assumes "buildRules L F router transport os = Some (Inr (rules, True, fl))" "list_all (decoded decoded_dns) os"
  shows "\<forall>(r, a)\<in>set rules. \<not> matches_response r \<and> da_Action a \<noteq> DNSRespondAction \<and> \<not> is_evaluate (da_Action a) \<and> \<not> da_Race a"
proof -
  obtain i: "installed (dns_builder L True) F os rules" and m: "resolveLegacyDNSMode router (\<lambda>_. None) os = Inr (True, fl)"
    using buildRules_cases [OF assms(1)] by metis
  have "mode_requirements_loop router (\<lambda>_. None) ''dns rule'' 0 os zero_flags = Inr fl" "\<not> mf_disabled fl"
    using m by (auto simp: resolveLegacyDNSMode_def dnsRuleModeRequirements_def split: if_splits)
  from mode_loop_disabled [OF this] have all: "\<forall>r\<in>set os. \<exists>f. dnsRuleModeRequirementsInRule router (\<lambda>_. None) r = Inr f \<and> \<not> mf_disabled f"
    by blast
  from i all assms(2) show ?thesis
  proof (induction os arbitrary: rules)
    case (Cons o' os)
    obtain x rest where x: "new_rule (dns_builder L True) True o' = Some (Inr x)"
      "rules = (fill_sets F x, ro_Action o') # rest" "installed (dns_builder L True) F os rest"
      using Cons.prems(1) by auto
    obtain f where f: "dnsRuleModeRequirementsInRule router (\<lambda>_. None) o' = Inr f" "\<not> mf_disabled f"
      using Cons.prems(2) by auto
    have dec: "decoded decoded_dns o'" using Cons.prems(3) by simp
    show ?case
      using Cons.IH [OF x(3)] Cons.prems(2,3) x(2) legacy_no_response(1) [OF refl x(1) dec f]
        enabled_action [OF f new_rule_type [OF x(1) dec]] by auto
  qed simp
qed

text \<open>
  C18: The references of the DNS rules, for the router in legacy mode. When the router builds its rules and chooses the
  legacy mode, collect the servers from the same options for the current Clash mode. For every query for which
  the collected servers are present and usable and the address rules apply, the server the router chooses was
  collected, and if it falls through to the default server, the rules were not reported as shadowing it. The
  options are decoded ones, none of them just \<^verbatim>\<open>invert\<close>.
\<close>

theorem legacy_references_sound:
  assumes "buildRules L F router transport os = Some (Inr (rules, True, fl))"
    "list_all (decoded (\<lambda>d. proper_dns d \<and> decoded_dns d)) os"
    "collectDNSRuleReferences os (current_mode E) ts0 = (shadowed, transports)"
    "\<forall>server\<in>set transports. transport server = Some False \<or> transport server = Some True \<and> allowFakeIP"
    "isAddressQuery \<or> list_all (\<lambda>(r, a). \<not> WithAddressLimit r) rules"
  shows "case fst (matchDNS E transport allowFakeIP isAddressQuery 0 (router_rules rules) m q) of
      ServerChoice server j \<Rightarrow> server \<in> set transports | RuleChoice j \<Rightarrow> True | DefaultChoice \<Rightarrow> \<not> shadowed"
proof -
  have dec: "list_all (decoded proper_dns) os" "list_all (decoded decoded_dns) os"
    using assms(2) by (auto simp: list_all_iff intro: decoded_mono)
  obtain i: "installed (dns_builder L True) F os rules" using buildRules_cases [OF assms(1)] by metis
  have "list_all (legacy_query transport allowFakeIP isAddressQuery transports) rules"
    using legacy_rules [OF assms(1) dec(2)] assms(4,5) by (fastforce simp: legacy_query_def list_all_iff)
  from matchDNS_collected [OF i dec(1) assms(3) this] show ?thesis .
qed

definition strategy_options :: "string \<Rightarrow> string \<Rightarrow> dns_rule_options" where
  "strategy_options mode server = default_options (empty_dns_options\<lparr>o_ClashMode := mode\<rparr>)
     \<lparr>da_Action = DNSRouteAction server (plain_dns_route\<lparr>dr_Strategy := 1\<rparr>) False, da_Race = False\<rparr>"

definition legacy_options :: "dns_rule_options list" where
  "legacy_options = [strategy_options ''direct'' ''local'', strategy_options ''rule'' ''remote'', strategy_options '''' ''unused'']"

definition legacy_sample :: "(rule \<times> dns_rule_action) list" where
  "legacy_sample = map (\<lambda>(mode, server). (DefaultDNSRule (mode_rule mode False) False '''',
     \<lparr>da_Action = DNSRouteAction server (plain_dns_route\<lparr>dr_Strategy := 1\<rparr>) False, da_Race = False\<rparr>))
     [(''direct'', ''local''), (''rule'', ''remote''), ('''', ''unused'')]"

lemma legacy_sample_built:
  "buildRules sample_lib (\<lambda>_. []) None (\<lambda>s. Some False) legacy_options =
     Some (Inr (legacy_sample, True, \<lparr>mf_disabled = False, mf_needed = True, mf_neededFromStrategy = True\<rparr>))"
proof -
  have "first_nested 0 legacy_options = None"
    "resolveLegacyDNSMode None (\<lambda>_. None) legacy_options =
       Inr (True, \<lparr>mf_disabled = False, mf_needed = True, mf_neededFromStrategy = True\<rparr>)"
    "validateEvaluateFakeIPRules (\<lambda>s. Some False) 0 legacy_options = None"
    by code_simp+
  moreover have "NewDNSRule sample_lib True True (strategy_options c (x # xs)) = Some (Inr (DefaultDNSRule (mode_rule c False) False ''''))" for c x xs
  proof -
    have "empty_dns_options\<lparr>o_ClashMode := c\<rparr> = empty_dns_options\<lparr>o_ClashMode := c, o_Invert := False\<rparr>"
      by (simp add: empty_dns_options_def empty_route_options_def connection_options.defs)
    then have "NewDefaultDNSRule sample_lib True (empty_dns_options\<lparr>o_ClashMode := c\<rparr>) = Inr (DefaultDNSRule (mode_rule c False) False '''')"
      using NewDefaultDNSRule_mode by metis
    then show ?thesis
      by (simp add: strategy_options_def NewDNSRule_def dns_builder_def DefaultDNSRule_IsValid_def zero_dns_action_def
        check_dns_def validateDNSRuleAction_def subnet_conflict_def plain_dns_route_def)
  qed
  then have "new_dns_rules sample_lib (\<lambda>_. []) True 0 legacy_options = Some (Inr legacy_sample)"
    by (simp add: legacy_options_def legacy_sample_def) (simp add: strategy_options_def mode_rule_def empty_rule_def)
  ultimately show ?thesis by (simp add: buildRules_def)
qed

theorem legacy_references_sound_witness:
  "collectDNSRuleReferences legacy_options ''Rule'' [] = (True, [''remote'']) \<and>
   matchDNS mode_env (\<lambda>s. Some False) False True 0 (router_rules legacy_sample) sample_context plain_query =
     (ServerChoice ''remote'' 1, plain_query\<lparr>q_Strategy := 1\<rparr>)"
proof -
  have c: "collectDNSRuleReferences legacy_options (current_mode mode_env) [] = (True, [''remote''])"
    by code_simp
  have d: "list_all (decoded (\<lambda>d. proper_dns d \<and> decoded_dns d)) legacy_options" by code_simp
  have q: "\<forall>server\<in>set [''remote'']. (\<lambda>s. Some False) server = Some False \<or> (\<lambda>s. Some False) server = Some True \<and> False"
    by simp
  have "matchDNS mode_env (\<lambda>s. Some False) False True 0 (router_rules legacy_sample) sample_context plain_query =
     (ServerChoice ''remote'' 1, plain_query\<lparr>q_Strategy := 1\<rparr>)" by code_simp
  with legacy_references_sound [OF legacy_sample_built d c q, of True sample_context plain_query] c show ?thesis
    by (simp add: current_mode_def mode_env_def)
qed

subsection \<open>Responses in the new mode\<close>

text \<open>
  Every response a rule refers to, or responds with, is evaluated by an earlier rule, and no two rules evaluate
  under the same name.
\<close>

fun MatchResponseTag :: "rule \<Rightarrow> string" where
  "MatchResponseTag (DefaultDNSRule r matchResponse tag) = tag"
| "MatchResponseTag _ = ''''"

fun response_rules :: "string set \<Rightarrow> bool \<Rightarrow> (rule \<times> dns_rule_action) list \<Rightarrow> bool" where
  "response_rules named anonymous [] \<longleftrightarrow> True"
| "response_rules named anonymous ((r, a) # rules) \<longleftrightarrow>
     set (MatchResponseTags r) \<subseteq> named \<and>
     (MatchResponseAnonymous r \<or> da_Action a = DNSRespondAction \<and> MatchResponseTag r = '''' \<longrightarrow> anonymous) \<and>
     (case da_Action a of
        DNSEvaluateAction server opts tag speculative \<Rightarrow>
          if tag = '''' then response_rules named True rules
          else tag \<notin> named \<and> response_rules (insert tag named) anonymous rules
      | _ \<Rightarrow> response_rules named anonymous rules)"

text \<open>What validation computes of the use of responses covers what the built rule uses.\<close>

definition covers :: "dnsRuleResponseUse \<Rightarrow> rule \<Rightarrow> bool" where
  "covers use x \<longleftrightarrow> set (MatchResponseTags x) \<subseteq> set (ru_referencedTags use) \<and> (MatchResponseAnonymous x \<longrightarrow> ru_needsAnonymous use)"

lemma default_use:
  assumes "validateLegacyDNSModeDisabledDefaultRule sets ov d a = Inr use" "IsEnabled (d_MatchResponse d)"
  shows "if ResponseTag (d_MatchResponse d) = '''' then ru_needsAnonymous use
    else ResponseTag (d_MatchResponse d) \<in> set (ru_referencedTags use)"
  using assms unfolding validateLegacyDNSModeDisabledDefaultRule_def
  by (simp add: Let_def no_use_def split: if_splits) auto

lemma use_covers:
  "B = dns_builder L legacy \<Longrightarrow> new_rule B outer o' = Some (Inr x) \<Longrightarrow> decoded decoded_dns o' \<Longrightarrow>
     validateLegacyDNSModeDisabledRuleTree sets ov o' = Inr use \<Longrightarrow> covers use x"
  "B = dns_builder L legacy \<Longrightarrow> new_rules B os = Some (Inr xs) \<Longrightarrow> list_all (decoded decoded_dns) os \<Longrightarrow>
     validate_sub_rules sets ov i os use0 = Inr use' \<Longrightarrow>
     list_all (covers use') xs \<and> set (ru_referencedTags use0) \<subseteq> set (ru_referencedTags use') \<and>
     (ru_needsAnonymous use0 \<longrightarrow> ru_needsAnonymous use')"
proof (induction B outer o' and B os arbitrary: x use and xs i use0 use' rule: new_rule_new_rules.induct)
  case (1 B outer t d lm rules neg a)
  consider "t = ''default''" | "t = ''logical''"
    using "1.prems"(2,3) by (fastforce split: if_splits)
  then show ?case
  proof cases
    case 1
    then have "NewDefaultDNSRule L legacy d = Inr x" "decoded_dns d"
      using "1.prems" by (auto simp: dns_builder_def split: if_splits option.splits)
    then obtain r where x: "x = DefaultDNSRule r (IsEnabled (d_MatchResponse d)) (ResponseTag (d_MatchResponse d))"
      and tag: "ResponseTag (d_MatchResponse d) \<noteq> '''' \<longrightarrow> IsEnabled (d_MatchResponse d)"
      using new_dns_default decoded_dns_def by metis
    show ?thesis
      using default_use [of sets ov d a use] "1.prems"(4) 1 x tag by (simp add: covers_def)
  next
    case 2
    then obtain xs where xs: "new_rules B rules = Some (Inr xs)" "x = LogicalRule (rb_kind B) lm xs neg"
      using "1.prems"(2) by (auto split: if_splits option.splits bool.splits)
    obtain use1 where use1: "validate_sub_rules sets ov 0 rules no_use = Inr use1"
      "ru_referencedTags use = ru_referencedTags use1" "ru_needsAnonymous use1 \<longrightarrow> ru_needsAnonymous use"
      using "1.prems"(4) 2 by (auto split: if_splits)
    have "list_all (covers use1) xs \<and> set (ru_referencedTags no_use) \<subseteq> set (ru_referencedTags use1) \<and>
        (ru_needsAnonymous no_use \<longrightarrow> ru_needsAnonymous use1)"
      by (rule "1.IH"(1)) (use 2 xs use1(1) "1.prems"(1-3) in \<open>auto split: if_splits option.splits bool.splits\<close>)
    then show ?thesis using xs(2) use1(2,3) by (fastforce simp: covers_def list_all_iff list_ex_iff split: if_splits)
  qed
next
  case (2 B)
  then show ?case by simp
next
  case (3 B r rules)
  obtain y ys where y: "new_rule B False r = Some (Inr y)" "new_rules B rules = Some (Inr ys)" "xs = y # ys"
    using "3.prems"(2) by (auto split: if_splits option.splits sum.splits)
  obtain sub where sub: "validateLegacyDNSModeDisabledRuleTree sets ov r = Inr sub"
    and rest: "validate_sub_rules sets ov (i + 1) rules \<lparr>ru_needsAnonymous = ru_needsAnonymous use0 \<or> ru_needsAnonymous sub,
       ru_referencedTags = ru_referencedTags use0 @ ru_referencedTags sub\<rparr> = Inr use'"
    using "3.prems"(4) by (auto split: sum.splits)
  have "covers sub y"
    by (rule "3.IH"(1)) (use y sub "3.prems" in \<open>auto split: if_splits\<close>)
  moreover note "3.IH"(2) [OF _ y(1) refl "3.prems"(1) y(2) _ rest]
  ultimately show ?case using "3.prems"(2,3) y(3) by (auto simp: covers_def split: if_splits)
qed

lemma default_respond_use:
  assumes "validateLegacyDNSModeDisabledDefaultRule sets ov d a = Inr use" "da_Action a = DNSRespondAction"
    "ResponseTag (d_MatchResponse d) = ''''"
  shows "ru_needsAnonymous use"
  using assms unfolding validateLegacyDNSModeDisabledDefaultRule_def
  by (simp add: Let_def no_use_def split: if_splits option.splits) auto

lemma respond_use:
  assumes "new_rule (dns_builder L legacy) outer o' = Some (Inr x)" "decoded P o'"
    "validateLegacyDNSModeDisabledRuleTree sets ov o' = Inr use"
    "da_Action (ro_Action o') = DNSRespondAction" "MatchResponseTag x = ''''"
  shows "ru_needsAnonymous use"
proof (cases o')
  case (RuleOptions t d lm rules neg a)
  show ?thesis
  proof (cases "t = ''default''")
    case True
    then have "NewDefaultDNSRule L legacy d = Inr x"
      using assms(1) RuleOptions by (auto simp: dns_builder_def split: if_splits option.splits)
    then obtain r where "x = DefaultDNSRule r (IsEnabled (d_MatchResponse d)) (ResponseTag (d_MatchResponse d))"
      using new_dns_default by metis
    then show ?thesis using default_respond_use [of sets ov d a use] assms(3-5) RuleOptions True by simp
  next
    case False
    then show ?thesis using assms(2-4) new_rule_type [OF assms(1,2)] RuleOptions by (auto split: if_splits)
  qed
qed

lemma reference_tags_Inr:
  "reference_tags i tags s = Inr s' \<Longrightarrow> set tags \<subseteq> set (vs_definedTags s) \<and> vs_definedTags s' = vs_definedTags s \<and>
     vs_seenAnonymousEvaluate s' = vs_seenAnonymousEvaluate s"
  by (induction i tags s rule: reference_tags.induct) (auto split: if_splits)

lemma validate_action_Inr:
  assumes "validate_action i action s = Inr s'"
  shows "case action of
      DNSEvaluateAction server opts tag speculative \<Rightarrow>
        if tag = '''' then vs_definedTags s' = vs_definedTags s \<and> vs_seenAnonymousEvaluate s'
        else tag \<notin> set (vs_definedTags s) \<and> set (vs_definedTags s') = insert tag (set (vs_definedTags s)) \<and>
          vs_seenAnonymousEvaluate s' = vs_seenAnonymousEvaluate s
    | _ \<Rightarrow> s' = s"
  using assms by (auto simp: validate_action_def split: dns_action.splits if_splits)

lemma validate_rules_response:
  "validate_rules sets ov i os s = Inr s' \<Longrightarrow> installed (dns_builder L legacy) F os rules \<Longrightarrow>
     list_all (decoded decoded_dns) os \<Longrightarrow> response_rules (set (vs_definedTags s)) (vs_seenAnonymousEvaluate s) rules"
proof (induction os arbitrary: i s rules)
  case (Cons o' os)
  obtain x rest where x: "new_rule (dns_builder L legacy) True o' = Some (Inr x)"
    "rules = (fill_sets F x, ro_Action o') # rest" "installed (dns_builder L legacy) F os rest"
    using Cons.prems(2) by auto
  have dec: "decoded decoded_dns o'" using Cons.prems(3) by simp
  obtain use where use: "validateLegacyDNSModeDisabledRuleTree sets ov o' = Inr use"
    using Cons.prems(1) by (auto split: sum.splits)
  have known: "known_type o'" using new_rule_type [OF x(1) dec] by (auto simp: known_type_def)
  define t1 where "t1 = (if dnsRuleActionSpeculative (ro_Action o') \<and> \<not> vs_seenRace s
    then s\<lparr>vs_warnings := vs_warnings s @ [SpeculativeNoEffect i]\<rparr> else s)"
  define t2 where "t2 = (if da_Race (ro_Action o') then t1\<lparr>vs_seenRace := True\<rparr> else t1)"
  define s1 where "s1 = (if ru_needsAnonymous use then t2\<lparr>vs_anonymousReadSinceLast := True\<rparr> else t2)"
  have s12: "vs_definedTags s1 = vs_definedTags s" "vs_seenAnonymousEvaluate s1 = vs_seenAnonymousEvaluate s"
      "vs_seenAnonymousEvaluate t2 = vs_seenAnonymousEvaluate s"
    by (simp_all add: s1_def t2_def t1_def)
  have "validate_rules sets ov i (o' # os) s =
      (if ru_needsAnonymous use \<and> \<not> vs_seenAnonymousEvaluate t2 then Inl (RequiresEvaluate i (length (vs_definedTags t2) > 0))
       else bind_res (reference_tags i (ru_referencedTags use) s1) (\<lambda>s.
         bind_res (validate_action i (da_Action (ro_Action o')) s) (\<lambda>s. validate_rules sets ov (i + 1) os s)))"
    by (simp only: validate_rules.simps use sum.case Let_def known if_True simp_thms t1_def [symmetric] t2_def [symmetric] s1_def [symmetric])
  from trans [OF this [symmetric] Cons.prems(1)] obtain s2 s3 where s3: "ru_needsAnonymous use \<longrightarrow> vs_seenAnonymousEvaluate s"
    "reference_tags i (ru_referencedTags use) s1 = Inr s2" "validate_action i (da_Action (ro_Action o')) s2 = Inr s3"
    "validate_rules sets ov (i + 1) os s3 = Inr s'"
    by (auto simp: s12(3) split: if_splits)
  note s = s12(1,2) s3
  have cov: "covers use x" by (rule use_covers(1) [OF refl x(1) dec use])
  have tag: "MatchResponseTag (fill_sets F x) = MatchResponseTag x" by (cases x) simp_all
  have resp: "da_Action (ro_Action o') = DNSRespondAction \<Longrightarrow> MatchResponseTag x = '''' \<Longrightarrow> ru_needsAnonymous use"
    by (rule respond_use [OF x(1) dec use])
  note r = reference_tags_Inr [OF s(4)] and v = validate_action_Inr [OF s(5)]
  have "response_rules (set (vs_definedTags s3)) (vs_seenAnonymousEvaluate s3) rest"
    using Cons.IH [OF s(6) x(3)] Cons.prems(3) by simp
  moreover have "set (MatchResponseTags x) \<subseteq> set (vs_definedTags s)" using cov r s(1) by (auto simp: covers_def)
  moreover have "MatchResponseAnonymous x \<or> da_Action (ro_Action o') = DNSRespondAction \<and> MatchResponseTag x = '''' \<longrightarrow>
      vs_seenAnonymousEvaluate s" using cov resp s(3) by (auto simp: covers_def)
  ultimately show ?case
    using v r s(1,2) x(2) tag by (simp split: dns_action.splits if_splits)
qed simp

lemma validated_response_rules:
  assumes "buildRules L F router transport os = Some (Inr (rules, False, fl))" "list_all (decoded decoded_dns) os"
  shows "response_rules {} False rules"
proof -
  obtain sets w where "installed (dns_builder L False) F os rules" "validateLegacyDNSModeDisabledRules sets (\<lambda>_. None) os = Inr w"
    using buildRules_cases [OF assms(1)] by metis
  then obtain s where "validate_rules sets (\<lambda>_. None) 0 os initial_validate = Inr s" "installed (dns_builder L False) F os rules"
    by (auto simp: validateLegacyDNSModeDisabledRules_def)
  from validate_rules_response [OF this assms(2)] show ?thesis by (simp add: initial_validate_def)
qed

text \<open>
  C10: The new mode only refers to evaluated responses. If the router builds its rules without the legacy mode, then
  every response a rule refers to by name was evaluated under that name by a rule before it, every rule that
  refers to, or responds with, the last unnamed response comes after a rule that evaluates one, and no
  two rules evaluate under the same name.
\<close>

theorem new_mode_responses:
  assumes "buildRules L F router transport os = Some (Inr (rules, False, fl))" "list_all (decoded decoded_dns) os"
  shows "response_rules {} False rules"
  by (rule validated_response_rules [OF assms])

definition new_options :: "dns_rule_options list" where
  "new_options =
     [default_options empty_dns_options \<lparr>da_Action = DNSEvaluateAction ''remote'' plain_dns_route '''' False, da_Race = False\<rparr>,
      default_options empty_dns_options \<lparr>da_Action = DNSEvaluateAction ''local'' plain_dns_route ''near'' False, da_Race = False\<rparr>,
      default_options (empty_dns_options\<lparr>d_ResponseRcode := Some 3, d_MatchResponse := Some (True, ''near'')\<rparr>)
        \<lparr>da_Action = DNSRouteAction ''backup'' plain_dns_route False, da_Race = False\<rparr>,
      default_options empty_dns_options \<lparr>da_Action = DNSRespondAction, da_Race = False\<rparr>]"

definition new_sample :: "(rule \<times> dns_rule_action) list" where
  "new_sample =
     [(DefaultDNSRule (mode_rule '''' False) False '''', \<lparr>da_Action = DNSEvaluateAction ''remote'' plain_dns_route '''' False, da_Race = False\<rparr>),
      (DefaultDNSRule (mode_rule '''' False) False '''', \<lparr>da_Action = DNSEvaluateAction ''local'' plain_dns_route ''near'' False, da_Race = False\<rparr>),
      (DefaultDNSRule (append_items [Items, AllItems] (DNSResponseRCodeItem 3) (empty_rule False)) True ''near'',
        \<lparr>da_Action = DNSRouteAction ''backup'' plain_dns_route False, da_Race = False\<rparr>),
      (DefaultDNSRule (mode_rule '''' False) False '''', \<lparr>da_Action = DNSRespondAction, da_Race = False\<rparr>)]"

lemmas new_rule_checks = NewDNSRule_def dns_builder_def DefaultDNSRule_IsValid_def zero_dns_action_def check_dns_def
  validateDNSRuleAction_def subnet_conflict_def plain_dns_route_def

lemma new_sample_built:
  "buildRules sample_lib (\<lambda>_. []) None (\<lambda>s. Some False) new_options =
     Some (Inr (new_sample, False, \<lparr>mf_disabled = True, mf_needed = False, mf_neededFromStrategy = False\<rparr>))"
proof -
  have "empty_dns_options = empty_dns_options\<lparr>o_ClashMode := '''', o_Invert := False\<rparr>"
    by (simp add: empty_dns_options_def empty_route_options_def connection_options.defs)
  then have e: "NewDefaultDNSRule sample_lib False empty_dns_options = Inr (DefaultDNSRule (mode_rule '''' False) False '''')"
    using NewDefaultDNSRule_mode by metis
  have plain: "NewDNSRule sample_lib True False (default_options empty_dns_options \<lparr>da_Action = DNSEvaluateAction (x # xs) plain_dns_route tag False, da_Race = False\<rparr>) =
      Some (Inr (DefaultDNSRule (mode_rule '''' False) False ''''))"
    "NewDNSRule sample_lib True False (default_options empty_dns_options \<lparr>da_Action = DNSRespondAction, da_Race = False\<rparr>) =
      Some (Inr (DefaultDNSRule (mode_rule '''' False) False ''''))" for x xs tag
    by (simp_all add: new_rule_checks e)
  have "NewDefaultDNSRule sample_lib False (empty_dns_options\<lparr>d_ResponseRcode := Some 3, d_MatchResponse := Some (True, ''near'')\<rparr>) =
      Inr (DefaultDNSRule (append_items [Items, AllItems] (DNSResponseRCodeItem 3) (empty_rule False)) True ''near'')"
    by (simp add: NewDefaultDNSRule_def dns_steps_1_def dns_steps_2_def response_steps_def process_steps_def network_steps_def
      geo_steps_def fail_if_def ip_version_step_def empty_dns_options_def empty_route_options_def rule_set_step_def
      connection_options.defs dns_options.defs IsEnabled_def ResponseTag_def NewDNSResponseRCodeItem_def)
  then have rcode: "NewDNSRule sample_lib True False (default_options (empty_dns_options\<lparr>d_ResponseRcode := Some 3, d_MatchResponse := Some (True, ''near'')\<rparr>)
        \<lparr>da_Action = DNSRouteAction ''backup'' plain_dns_route False, da_Race = False\<rparr>) =
      Some (Inr (DefaultDNSRule (append_items [Items, AllItems] (DNSResponseRCodeItem 3) (empty_rule False)) True ''near''))"
    by (simp add: new_rule_checks)
  have fill: "fill_default (\<lambda>_. []) (mode_rule '''' False) = mode_rule '''' False"
    "fill_default (\<lambda>_. []) (append_items [Items, AllItems] (DNSResponseRCodeItem 3) (empty_rule False)) = append_items [Items, AllItems] (DNSResponseRCodeItem 3) (empty_rule False)"
    by (simp_all add: mode_rule_def empty_rule_def)
  have "new_dns_rules sample_lib (\<lambda>_. []) False 0 new_options = Some (Inr new_sample)"
    by (simp del: append_items.simps add: new_options_def new_sample_def plain rcode fill)
  moreover have "first_nested 0 new_options = None"
    "resolveLegacyDNSMode None (\<lambda>_. None) new_options =
       Inr (False, \<lparr>mf_disabled = True, mf_needed = False, mf_neededFromStrategy = False\<rparr>)"
    "validateLegacyDNSModeDisabledRules (\<lambda>_. None) (\<lambda>_. None) new_options = Inr []"
    "validateEvaluateFakeIPRules (\<lambda>s. Some False) 0 new_options = None"
    by code_simp+
  ultimately show ?thesis by (simp add: buildRules_def)
qed

theorem new_mode_responses_witness:
  "validateLegacyDNSModeDisabledRules (\<lambda>_. None) (\<lambda>_. None) new_options = Inr [] \<and> response_rules {} False new_sample"
proof -
  have "list_all (decoded decoded_dns) new_options" by code_simp
  moreover have "validateLegacyDNSModeDisabledRules (\<lambda>_. None) (\<lambda>_. None) new_options = Inr []" by code_simp
  ultimately show ?thesis using new_mode_responses [OF new_sample_built] by simp
qed

subsection \<open>Updates of rule-sets\<close>

lemma lookup_override: "lookupDNSRuleSetMetadata sets [tag \<mapsto> md] = lookupDNSRuleSetMetadata (sets(tag \<mapsto> md)) (\<lambda>_. None)"
  by (auto simp: lookupDNSRuleSetMetadata_def fun_eq_iff)

text \<open>All that mode and validation read of the rule-sets is this lookup.\<close>

lemma rule_set_flags_lookup:
  "lookupDNSRuleSetMetadata sets ov = lookupDNSRuleSetMetadata sets' ov' \<Longrightarrow>
     rule_set_flags sets ov b tags fl = rule_set_flags sets' ov' b tags fl"
  by (induction tags arbitrary: fl) simp_all

lemma requirements_lookup:
  assumes "lookupDNSRuleSetMetadata sets ov = lookupDNSRuleSetMetadata sets' ov'"
  shows "router = Some sets \<Longrightarrow> ov0 = ov \<Longrightarrow>
      dnsRuleModeRequirementsInRule router ov0 r = dnsRuleModeRequirementsInRule (Some sets') ov' r"
    "router = Some sets \<Longrightarrow> ov0 = ov \<Longrightarrow>
      mode_requirements_loop router ov0 label i rules fl = mode_requirements_loop (Some sets') ov' label i rules fl"
proof (induction router ov0 r and router ov0 label i rules fl
    rule: dnsRuleModeRequirementsInRule_mode_requirements_loop.induct)
  case (1 router ov0 t d lm rules neg a)
  have "dnsRuleModeRequirementsInDefaultRule router ov0 d a = dnsRuleModeRequirementsInDefaultRule (Some sets') ov' d a"
    using 1 rule_set_flags_lookup [OF assms] by (simp add: dnsRuleModeRequirementsInDefaultRule_def Let_def)
  then show ?case using 1 by (simp add: Let_def)
next
  case (3 router ov0 label i r rules fl)
  then show ?case by (auto split: sum.split)
qed simp

lemma pure_ip_lookup:
  "lookupDNSRuleSetMetadata sets ov = lookupDNSRuleSetMetadata sets' ov' \<Longrightarrow> reject_pure_ip sets ov tags = reject_pure_ip sets' ov' tags"
  by (induction tags) (auto split: sum.split)

lemma validate_tree_lookup:
  assumes "lookupDNSRuleSetMetadata sets ov = lookupDNSRuleSetMetadata sets' ov'"
  shows "S = sets \<Longrightarrow> ov0 = ov \<Longrightarrow>
      validateLegacyDNSModeDisabledRuleTree S ov0 r = validateLegacyDNSModeDisabledRuleTree sets' ov' r"
    "S = sets \<Longrightarrow> ov0 = ov \<Longrightarrow> validate_sub_rules S ov0 i rules use = validate_sub_rules sets' ov' i rules use"
proof (induction S ov0 r and S ov0 i rules use
    rule: validateLegacyDNSModeDisabledRuleTree_validate_sub_rules.induct)
  case (1 S ov0 t d lm rules neg a)
  have "validateLegacyDNSModeDisabledDefaultRule S ov0 d a = validateLegacyDNSModeDisabledDefaultRule sets' ov' d a"
    using 1 by (simp only: validateLegacyDNSModeDisabledDefaultRule_def pure_ip_lookup [OF assms])
  then show ?case using 1 by simp
next
  case (3 S ov0 i r rules use)
  then show ?case by (auto split: sum.split)
qed simp

lemma validate_rules_lookup:
  assumes "lookupDNSRuleSetMetadata sets ov = lookupDNSRuleSetMetadata sets' ov'"
  shows "validate_rules sets ov i rules = validate_rules sets' ov' i rules"
proof (induction rules arbitrary: i)
  case Nil
  then show ?case by (rule ext) simp
next
  case (Cons r rules)
  then show ?case by (intro ext) (simp only: validate_rules.simps validate_tree_lookup(1) [OF assms refl refl])
qed

text \<open>
  C19: Accepted updates fit the mode the router runs in. When a started router accepts new metadata of a rule-set, the
  rules, read with the new metadata in place, still fit: a router in the new mode would choose it again and the
  rules would pass its validation, and for one in legacy mode no rule disables that mode, or the mode is still chosen.
\<close>

theorem accepted_update_fits:
  assumes "ValidateRuleSetMetadataUpdate s (Some sets) tag md = None"
    "ds_rawRules s \<noteq> []" "ds_started s" "\<not> ds_closing s"
  shows "\<exists>legacy fl. resolveLegacyDNSMode (Some (sets(tag \<mapsto> md))) (\<lambda>_. None) (ds_rawRules s) = Inr (legacy, fl) \<and>
    (if ds_legacyDNSMode s then legacy \<or> \<not> mf_disabled fl
     else \<not> legacy \<and> (\<exists>w. validateLegacyDNSModeDisabledRules (sets(tag \<mapsto> md)) (\<lambda>_. None) (ds_rawRules s) = Inr w))"
proof -
  have r: "resolveLegacyDNSMode (Some sets) [tag \<mapsto> md] rules = resolveLegacyDNSMode (Some (sets(tag \<mapsto> md))) (\<lambda>_. None) rules" for rules
    by (simp only: resolveLegacyDNSMode_def dnsRuleModeRequirements_def requirements_lookup(2) [OF lookup_override refl refl])
  have v: "validateLegacyDNSModeDisabledRules sets [tag \<mapsto> md] rules = validateLegacyDNSModeDisabledRules (sets(tag \<mapsto> md)) (\<lambda>_. None) rules" for rules
    by (simp only: validateLegacyDNSModeDisabledRules_def validate_rules_lookup [OF lookup_override])
  show ?thesis
    using assms unfolding ValidateRuleSetMetadataUpdate_def Let_def option.case r v
    by (auto split: sum.splits if_splits prod.splits option.splits)
qed

theorem accepted_update_fits_witness:
  "ValidateRuleSetMetadataUpdate \<lparr>ds_rawRules = new_options, ds_started = True, ds_legacyDNSMode = False, ds_closing = False\<rparr>
     (Some (\<lambda>_. None)) ''set'' sample_metadata = None \<and>
   (\<exists>fl. resolveLegacyDNSMode (Some [''set'' \<mapsto> sample_metadata]) (\<lambda>_. None) new_options = Inr (False, fl))"
proof -
  have v: "ValidateRuleSetMetadataUpdate \<lparr>ds_rawRules = new_options, ds_started = True, ds_legacyDNSMode = False, ds_closing = False\<rparr>
     (Some (\<lambda>_. None)) ''set'' sample_metadata = None" by code_simp
  from accepted_update_fits [OF v] v show ?thesis by (auto simp: new_options_def)
qed

end
