(* ===== verification/DnsResponses.thy ===== *)
theory DnsResponses
  imports DnsMode
begin

text \<open>
  Which responses a DNS rule looks at when it is matched. A rule of the new mode (\<open>DnsMode\<close>) depends on the
  responses it binds with \<^verbatim>\<open>match_response\<close> and on no other: not on responses under other names, and without
  \<^verbatim>\<open>match_response\<close> on none at all. The walk over the rules may therefore look at a rule while other
  queries are still running.

  \<^item> The locale \<open>unseen_change\<close> is a change of the metadata that certain items cannot see. Its lemmas
    carry this from items to default rules with rule-sets and to headless rules. It is interpreted
    for two changes of the responses.
  \<^item> \<open>sat_responses\<close> is the result for DNS rules, \<open>built_dns_ok\<close> that built rules satisfy its condition.
\<close>

subsection \<open>Rules made of certain items\<close>

definition all_items :: "(rule_item \<Rightarrow> bool) \<Rightarrow> default_rule \<Rightarrow> bool" where
  "all_items P r \<longleftrightarrow> list_all P (items r @ sourceAddressItems r @ sourcePortItems r @ destinationAddressItems r @
     destinationIPCIDRItems r @ destinationPortItems r)"

fun plain_headless :: "(rule_item \<Rightarrow> bool) \<Rightarrow> rule \<Rightarrow> bool" where
  "plain_headless P (DefaultHeadlessRule r) \<longleftrightarrow> all_items P r \<and> ruleSetItem r = None"
| "plain_headless P (LogicalRule k mode rules neg) \<longleftrightarrow> list_all (plain_headless P) rules"
| "plain_headless P _ = False"

definition plain_default :: "(rule_item \<Rightarrow> bool) \<Rightarrow> default_rule \<Rightarrow> bool" where
  "plain_default P r \<longleftrightarrow> all_items P r \<and>
     (case ruleSetItem r of None \<Rightarrow> True | Some rs \<Rightarrow> list_all (\<lambda>S. list_all (plain_headless P) (set_rules S)) (setList rs))"

lemma sat_any_iff: "sat_any E rules m \<longleftrightarrow> (\<exists>r\<in>set rules. sat E r m)"
  by (induction rules) auto

lemma sat_all_iff: "sat_all E rules m \<longleftrightarrow> (\<forall>r\<in>set rules. sat E r m)"
  by (induction rules) auto

locale unseen_change =
  fixes E :: rule_env
    and P :: "rule_item \<Rightarrow> bool"
    and C :: "inbound_context \<Rightarrow> bool"
    and f :: "inbound_context \<Rightarrow> inbound_context"
  assumes item_unseen: "P it \<Longrightarrow> C m \<Longrightarrow> item_match E it (f m) = item_match E it m"
    and source_kept: "IPCIDRMatchSource (f m) = IPCIDRMatchSource m"
    and commutes: "f (m\<lparr>IPCIDRMatchSource := a, IPCIDRAcceptEmpty := b\<rparr>) = (f m)\<lparr>IPCIDRMatchSource := a, IPCIDRAcceptEmpty := b\<rparr>"
    and stays: "C m \<Longrightarrow> C (m\<lparr>IPCIDRMatchSource := a, IPCIDRAcceptEmpty := b\<rparr>)"
begin

lemma items_unseen: "list_all P its \<Longrightarrow> C m \<Longrightarrow> list_all (\<lambda>it. item_match E it (f m)) its = list_all (\<lambda>it. item_match E it m) its"
  by (induction its) (auto simp: item_unseen)

lemma any_unseen: "list_all P its \<Longrightarrow> C m \<Longrightarrow> list_ex (\<lambda>it. item_match E it (f m)) its = list_ex (\<lambda>it. item_match E it m) its"
  by (induction its) (auto simp: item_unseen)

lemma items_ok_unseen: "all_items P r \<Longrightarrow> C m \<Longrightarrow> items_ok E r (f m) = items_ok E r m"
  by (simp add: items_ok_def all_items_def items_unseen)

lemma groups_ok_unseen:
  "all_items P r \<Longrightarrow> C m \<Longrightarrow> groups_ok E [(r, f m)] = groups_ok E [(r, m)]"
  "all_items P r \<Longrightarrow> C m \<Longrightarrow> all_items P r' \<Longrightarrow> C m' \<Longrightarrow> groups_ok E [(r, f m), (r', f m')] = groups_ok E [(r, m), (r', m')]"
  by (simp_all add: groups_ok_def source_kept any_unseen all_items_def)

lemma sat_default_plain:
  assumes "all_items P r" "ruleSetItem r = None" "C m"
  shows "sat_default E r (f m) = sat_default E r m"
  using assms items_ok_unseen [of r m] groups_ok_unseen(1) [of r m] by (cases r) (simp add: Let_def)

lemma sat_headless: "plain_headless Q r \<Longrightarrow> Q = P \<Longrightarrow> C m \<Longrightarrow> sat E r (f m) = sat E r m"
proof (induction Q r arbitrary: m rule: plain_headless.induct)
  case (1 Q r)
  then show ?case by (simp add: sat_default_plain)
next
  case (2 Q k mode rules neg)
  then show ?case
    by (simp add: Let_def sat_any_iff sat_all_iff commutes [symmetric] stays list_all_iff)
qed auto

lemma sat_sets_unseen:
  assumes "all_items P r" "C m" "C m'" "list_all (\<lambda>S. list_all (plain_headless P) (set_rules S)) sets"
  shows "sat_sets E sets r (f m) (f m') = sat_sets E sets r m m'"
  using assms(4)
proof (induction sets)
  case (Cons S sets)
  obtain tg rules md where S: "S = RuleSet tg rules md" by (cases S)
  have plain: "list_all (plain_headless P) rules" using Cons.prems S by simp
  have merge: "all_items P b" if "mergeableRuleIn rules = Some b" for b
    using that plain by (auto simp: mergeableRuleIn_def split: list.splits rule.splits if_splits)
  have "sat_any E rules (f m') = sat_any E rules m'"
    using plain sat_headless assms(3) by (fastforce simp: sat_any_iff list_all_iff)
  then show ?case
    using Cons S assms(1-3) merge by (auto simp: groups_ok_unseen items_ok_unseen split: option.split)
qed simp

lemma sat_default_unseen:
  assumes "plain_default P r" "C m"
  shows "sat_default E r (f m) = sat_default E r m"
proof (cases "ruleSetItem r")
  case None
  then show ?thesis using assms sat_default_plain by (simp add: plain_default_def)
next
  case (Some rs)
  obtain tags sets src ae where rs: "rs = RuleSetItem tags sets src ae" by (cases rs)
  have "sat_sets E sets r (f m) ((f m)\<lparr>IPCIDRMatchSource := src, IPCIDRAcceptEmpty := ae\<rparr>) =
      sat_sets E sets r m (m\<lparr>IPCIDRMatchSource := src, IPCIDRAcceptEmpty := ae\<rparr>)"
    unfolding commutes [symmetric] by (rule sat_sets_unseen) (use assms Some rs stays in \<open>auto simp: plain_default_def\<close>)
  moreover have "items_ok E r (f m) = items_ok E r m" using assms items_ok_unseen by (simp add: plain_default_def)
  ultimately show ?thesis using Some rs by (cases r) (simp add: Let_def)
qed

end

fun is_response_item :: "rule_item \<Rightarrow> bool" where
  "is_response_item (DNSResponseRCodeItem rcode) = True"
| "is_response_item (DNSResponseRecordItem records s) = True"
| "is_response_item _ = False"

text \<open>Items of DNS and headless rules; the preference item of route rules asks its outbounds about the metadata.\<close>

fun dns_item :: "rule_item \<Rightarrow> bool" where
  "dns_item (PreferredByItem tags outbounds) = False"
| "dns_item _ = True"

definition quiet_item :: "rule_item \<Rightarrow> bool" where
  "quiet_item it \<longleftrightarrow> dns_item it \<and> \<not> is_response_item it"

interpretation nr: unseen_change E dns_item "\<lambda>_. True" "\<lambda>m. m\<lparr>NamedDNSResponses := N\<rparr>"
proof
  show "item_match E it (m\<lparr>NamedDNSResponses := N\<rparr>) = item_match E it m" if "dns_item it" for it m
    using that by (cases it) (simp_all add: item_match_defs Let_def)
qed simp_all

interpretation qr: unseen_change E quiet_item "\<lambda>m. \<not> DestinationAddressMatchFromResponse m"
  "\<lambda>m. m\<lparr>DNSResponse := A, NamedDNSResponses := N\<rparr>"
proof
  show "item_match E it (m\<lparr>DNSResponse := A, NamedDNSResponses := N\<rparr>) = item_match E it m"
    if "quiet_item it" "\<not> DestinationAddressMatchFromResponse m" for it m
    using that by (cases it) (simp_all add: quiet_item_def item_match_defs Let_def)
qed simp_all

subsection \<open>DNS rules\<close>

fun dns_ok :: "rule \<Rightarrow> bool" where
  "dns_ok (DefaultDNSRule r matchResponse tag) \<longleftrightarrow> (tag \<noteq> '''' \<longrightarrow> matchResponse) \<and> plain_default dns_item r \<and>
     (\<not> matchResponse \<longrightarrow> plain_default quiet_item r)"
| "dns_ok (LogicalRule k mode rules neg) \<longleftrightarrow> k = DNSKind \<and> list_all dns_ok rules"
| "dns_ok _ = False"

definition same_responses :: "rule \<Rightarrow> dns_msg option \<Rightarrow> (string \<Rightarrow> dns_msg option) \<Rightarrow> dns_msg option \<Rightarrow> (string \<Rightarrow> dns_msg option) \<Rightarrow> bool" where
  "same_responses x A N A' N' \<longleftrightarrow> (\<forall>t\<in>set (MatchResponseTags x). N t = N' t) \<and> (MatchResponseAnonymous x \<longrightarrow> A = A')"

lemma dns_ok_is_dns: "dns_ok x \<Longrightarrow> is_dns_rule x"
  by (cases x) auto

lemma same_responses_sub:
  assumes "same_responses (LogicalRule k mode rules neg) A N A' N'" "list_all dns_ok rules" "x \<in> set rules"
  shows "same_responses x A N A' N'"
proof -
  have "is_dns_rule x" using assms(2,3) dns_ok_is_dns by (auto simp: list_all_iff)
  then show ?thesis using assms(1,3) by (fastforce simp: same_responses_def list_ex_iff)
qed

lemma sat_responses:
  "dns_ok x \<Longrightarrow> \<not> DestinationAddressMatchFromResponse m \<Longrightarrow> same_responses x A N A' N' \<Longrightarrow>
     sat E x (m\<lparr>DNSResponse := A, NamedDNSResponses := N\<rparr>) = sat E x (m\<lparr>DNSResponse := A', NamedDNSResponses := N'\<rparr>)"
proof (induction x arbitrary: m rule: dns_ok.induct)
  case (1 r matchResponse tag)
  show ?case
  proof (cases matchResponse)
    case True
    let ?R = "\<lambda>A N. if tag \<noteq> '''' then N tag else A"
    have R: "?R A N = ?R A' N'" using 1(3) True by (auto simp: same_responses_def)
    have "sat_default E r (m\<lparr>NamedDNSResponses := N, DNSResponse := x, DestinationAddressMatchFromResponse := True\<rparr>) =
        sat_default E r (m\<lparr>DNSResponse := x, DestinationAddressMatchFromResponse := True\<rparr>)" for x N
    proof -
      have p: "plain_default dns_item r" using 1(1) by simp
      have "m\<lparr>NamedDNSResponses := N, DNSResponse := x, DestinationAddressMatchFromResponse := True\<rparr> =
          m\<lparr>DNSResponse := x, DestinationAddressMatchFromResponse := True, NamedDNSResponses := N\<rparr>" by (cases m) simp
      then show ?thesis
        using nr.sat_default_unseen [OF p TrueI, of E N "m\<lparr>DNSResponse := x, DestinationAddressMatchFromResponse := True\<rparr>"]
        by (simp only:)
    qed
    then show ?thesis using True R by (auto simp: Let_def)
  next
    case False
    then show ?thesis using 1(1,2) qr.sat_default_unseen [where r = r and m = m] by (simp add: Let_def)
  qed
next
  case (2 k mode rules neg)
  let ?m = "m\<lparr>IPCIDRMatchSource := False, IPCIDRAcceptEmpty := False\<rparr>"
  have "sat E x (?m\<lparr>DNSResponse := A, NamedDNSResponses := N\<rparr>) = sat E x (?m\<lparr>DNSResponse := A', NamedDNSResponses := N'\<rparr>)"
    if "x \<in> set rules" for x
    using 2 that same_responses_sub [of k mode rules neg A N A' N' x] by (auto simp: list_all_iff)
  moreover have "m\<lparr>DNSResponse := A, NamedDNSResponses := N, IPCIDRMatchSource := False, IPCIDRAcceptEmpty := False\<rparr> =
      ?m\<lparr>DNSResponse := A, NamedDNSResponses := N\<rparr>" for A N by (cases m) simp
  ultimately have "sat E x (m\<lparr>DNSResponse := A, NamedDNSResponses := N, IPCIDRMatchSource := False, IPCIDRAcceptEmpty := False\<rparr>) =
      sat E x (m\<lparr>DNSResponse := A', NamedDNSResponses := N', IPCIDRMatchSource := False, IPCIDRAcceptEmpty := False\<rparr>)"
    if "x \<in> set rules" for x using that by (simp only:)
  then show ?case by (simp add: Let_def sat_any_iff sat_all_iff)
qed auto

subsection \<open>Built rules\<close>

definition steps_of :: "(rule_item \<Rightarrow> bool) \<Rightarrow> step list \<Rightarrow> bool" where
  "steps_of P = list_all (\<lambda>(c, ls, i). c \<longrightarrow> (\<forall>it. i = Inr it \<longrightarrow> P it))"

lemma steps_of_simps [simp]:
  "steps_of P []" "steps_of P ((c, ls, i) # steps) \<longleftrightarrow> (c \<longrightarrow> (\<forall>it. i = Inr it \<longrightarrow> P it)) \<and> steps_of P steps"
  "steps_of P (xs @ ys) \<longleftrightarrow> steps_of P xs \<and> steps_of P ys"
  by (auto simp: steps_of_def)

lemma all_items_add: "all_items P r \<Longrightarrow> P it \<Longrightarrow> all_items P (append_items ls it r)"
proof (induction ls arbitrary: r)
  case (Cons l ls)
  then have "all_items P (append_item l it r)" by (cases r; cases l) (simp_all add: all_items_def)
  with Cons show ?case by simp
qed simp

lemma all_items_empty: "all_items P (empty_rule neg)"
  by (simp add: all_items_def empty_rule_def)

lemma run_steps_items:
  assumes "run_steps steps (empty_rule neg) = Inr r" "steps_of P steps"
  shows "all_items P r"
  by (rule run_steps_inv [OF _ assms(1), where Q = "\<lambda>_. P"])
    (use assms(2) in \<open>simp_all add: all_items_add all_items_empty steps_of_def\<close>)

lemma response_free_quiet: "response_free it \<Longrightarrow> quiet_item it" "is_cidr_item it \<Longrightarrow> quiet_item it"
  by (cases it; simp add: quiet_item_def)+

lemma common_steps_quiet:
  "steps_of quiet_item (process_steps L o')" "steps_of quiet_item (network_steps L o')" "steps_of quiet_item (geo_steps o')"
  "steps_of quiet_item (ip_version_step v # steps) = steps_of quiet_item steps"
  by (auto simp: process_steps_def network_steps_def geo_steps_def fail_if_def ip_version_step_def
    item_shapes_raw item_constructors intro: response_free_quiet item_shapes split: if_splits)

lemma dns_steps_quiet: "steps_of quiet_item (dns_steps_1 L d @ dns_steps_2 L d)"
  by (auto simp: dns_steps_1_def dns_steps_2_def common_steps_quiet item_shapes_raw item_constructors
    intro: response_free_quiet item_shapes) (auto simp: quiet_item_def)

lemma headless_steps_quiet: "steps_of quiet_item (headless_steps_1 L o' @ headless_steps_2 L nm o')"
  by (auto simp: headless_steps_1_def headless_steps_2_def item_shapes_raw item_constructors
    intro: response_free_quiet item_shapes)

lemma response_steps_items:
  "steps_of dns_item (response_steps d)" "\<not> hasResponseMatchFields d \<Longrightarrow> steps_of quiet_item (response_steps d)"
  by (auto simp: response_steps_def hasResponseMatchFields_def item_constructors)

lemma steps_of_mono: "steps_of P steps \<Longrightarrow> (\<And>it. P it \<Longrightarrow> Q it) \<Longrightarrow> steps_of Q steps"
  by (auto simp: steps_of_def list_all_iff)

lemma quiet_dns_item: "quiet_item it \<Longrightarrow> dns_item it"
  by (simp add: quiet_item_def)

lemma plain_headless_mono: "plain_headless P r \<Longrightarrow> (\<And>it. P it \<Longrightarrow> Q it) \<Longrightarrow> plain_headless Q r"
  by (induction P r rule: plain_headless.induct) (auto simp: all_items_def list_all_iff)

text \<open>The rule-sets hold headless rules, as loading builds them.\<close>

definition headless_sets :: "(string list \<Rightarrow> rule_set list) \<Rightarrow> bool" where
  "headless_sets F \<longleftrightarrow> (\<forall>tags. list_all (\<lambda>S. list_all (plain_headless quiet_item) (set_rules S)) (F tags))"

lemma NewHeadlessRule_plain:
  "NewHeadlessRule L nm o' = Some (Inr r) \<Longrightarrow> plain_headless quiet_item r"
  "new_sub_rules L nm os = Some (Inr rs) \<Longrightarrow> list_all (plain_headless quiet_item) rs"
proof (induction L nm o' and L nm os arbitrary: r and rs rule: NewHeadlessRule_new_sub_rules.induct)
  case (1 L nm t d mode rules neg)
  show ?case
  proof (cases "t = '''' \<or> t = ''default''")
    case True
    then obtain x where "run_steps (headless_steps_1 L d @ headless_steps_2 L nm d) (empty_rule (o_Invert d)) = Inr x"
      "r = DefaultHeadlessRule x"
      using 1(2) by (auto simp: NewDefaultHeadlessRule_def split: if_splits)
    then show ?thesis using run_steps_items headless_steps_quiet run_steps_ruleSetItem by fastforce
  next
    case False
    then show ?thesis using 1 by (auto split: if_splits option.splits bool.splits)
  qed
qed (auto split: option.splits sum.splits)

lemma build_rules_plain: "build_rules L nm os = Some (Inr rs) \<Longrightarrow> list_all (plain_headless quiet_item) rs"
  by (induction os arbitrary: rs) (auto split: option.splits sum.splits dest: NewHeadlessRule_plain(1))

lemma reloadRules_plain:
  "reloadRules L nm validate tg headlessRules = Some (Inr S) \<Longrightarrow> list_all (plain_headless quiet_item) (set_rules S)"
  by (auto simp: reloadRules_def Let_def split: option.splits dest!: build_rules_plain)

lemma plain_default_fill:
  assumes "headless_sets F" "all_items P r" "ruleSetItem r = None \<or> (\<exists>tags src ae. ruleSetItem r = Some (RuleSetItem tags [] src ae))"
    "\<And>it. quiet_item it \<Longrightarrow> P it"
  shows "plain_default P (fill_default F r)"
  using assms plain_headless_mono [of quiet_item _ P]
  by (cases r) (auto simp: plain_default_def all_items_def headless_sets_def list_all_iff)

lemma rule_set_step_items:
  assumes "rule_set_step d ae r = Inr r'" "all_items P r" "ruleSetItem r = None"
  shows "all_items P r' \<and> (ruleSetItem r' = None \<or> (\<exists>tags src ae. ruleSetItem r' = Some (RuleSetItem tags [] src ae)))"
  using assms by (cases r) (auto simp: rule_set_step_def all_items_def split: if_splits)

lemma default_dns_ok:
  assumes "NewDefaultDNSRule L legacy d = Inr x" "decoded_dns d" "headless_sets F"
    "validateLegacyDNSModeDisabledDefaultRule sets ov d a = Inr use"
  shows "dns_ok (fill_sets F x)"
proof -
  obtain r0 r where r: "run_steps (dns_steps_1 L d @ response_steps d @ dns_steps_2 L d) (empty_rule (o_Invert d)) = Inr r0"
    "rule_set_step d (d_RuleSetIPCIDRAcceptEmpty d) r0 = Inr r"
    "x = DefaultDNSRule r (IsEnabled (d_MatchResponse d)) (ResponseTag (d_MatchResponse d))"
    using assms(1) by (auto simp: NewDefaultDNSRule_def split: if_splits)
  have none: "ruleSetItem r0 = None" by (rule run_steps_ruleSetItem [OF r(1)])
  have plain: "plain_default P (fill_default F r)"
    if "steps_of P (response_steps d)" "\<And>it. quiet_item it \<Longrightarrow> P it" for P
  proof -
    have "all_items P r0" using run_steps_items [OF r(1), of P] dns_steps_quiet [of L d] that steps_of_mono by fastforce
    from plain_default_fill [OF assms(3)] rule_set_step_items [OF r(2) this none] that(2) show ?thesis by blast
  qed
  have "\<not> hasResponseMatchFields d" if "\<not> IsEnabled (d_MatchResponse d)"
    using assms(4) that by (auto simp: validateLegacyDNSModeDisabledDefaultRule_def Let_def)
  then show ?thesis
    using plain [of dns_item] plain [of quiet_item] response_steps_items [of d] quiet_dns_item r(3) assms(2)
    by (auto simp: decoded_dns_def)
qed

lemma built_dns_ok:
  assumes "headless_sets F"
  shows "B = dns_builder L legacy \<Longrightarrow> new_rule B outer o' = Some (Inr x) \<Longrightarrow> decoded decoded_dns o' \<Longrightarrow>
      validateLegacyDNSModeDisabledRuleTree sets ov o' = Inr use \<Longrightarrow> dns_ok (fill_sets F x)"
    "B = dns_builder L legacy \<Longrightarrow> new_rules B os = Some (Inr xs) \<Longrightarrow> list_all (decoded decoded_dns) os \<Longrightarrow>
      validate_sub_rules sets ov i os use0 = Inr use' \<Longrightarrow> list_all dns_ok (map (fill_sets F) xs)"
proof (induction B outer o' and B os arbitrary: x use and xs i use0 use' rule: new_rule_new_rules.induct)
  case (1 B outer t d lm rules neg a)
  consider "t = ''default''" | "t = ''logical''"
    using "1.prems"(2,3) by (fastforce split: if_splits)
  then show ?case
  proof cases
    case 1
    then have "NewDefaultDNSRule L legacy d = Inr x" "decoded_dns d"
      using "1.prems" by (auto simp: dns_builder_def split: if_splits option.splits)
    then show ?thesis using default_dns_ok [OF _ _ assms, of L legacy d x sets ov a use] "1.prems"(4) 1 by simp
  next
    case 2
    then obtain xs where xs: "new_rules B rules = Some (Inr xs)" "x = LogicalRule (rb_kind B) lm xs neg"
      using "1.prems"(2) by (auto split: if_splits option.splits bool.splits)
    obtain use1 where use1: "validate_sub_rules sets ov 0 rules no_use = Inr use1"
      using "1.prems"(4) 2 by (auto split: if_splits)
    have "list_all dns_ok (map (fill_sets F) xs)"
      by (rule "1.IH"(1)) (use 2 xs use1 "1.prems"(1-3) in \<open>auto split: if_splits option.splits bool.splits\<close>)
    then show ?thesis using xs(2) "1.prems"(1) by (simp add: dns_builder_def)
  qed
next
  case (3 B r rules)
  obtain y ys where y: "new_rule B False r = Some (Inr y)" "new_rules B rules = Some (Inr ys)" "xs = y # ys"
    using "3.prems"(2) by (auto split: if_splits option.splits sum.splits)
  obtain sub where sub: "validateLegacyDNSModeDisabledRuleTree sets ov r = Inr sub"
    and rest: "validate_sub_rules sets ov (i + 1) rules \<lparr>ru_needsAnonymous = ru_needsAnonymous use0 \<or> ru_needsAnonymous sub,
       ru_referencedTags = ru_referencedTags use0 @ ru_referencedTags sub\<rparr> = Inr use'"
    using "3.prems"(4) by (auto split: sum.splits)
  have "dns_ok (fill_sets F y)"
    by (rule "3.IH"(1)) (use y sub "3.prems" in \<open>auto split: if_splits\<close>)
  moreover note "3.IH"(2) [OF _ y(1) refl "3.prems"(1) y(2) _ rest]
  ultimately show ?case using "3.prems"(2,3) y(3) by (auto split: if_splits)
qed simp

lemma validate_rules_each:
  "validate_rules sets ov i os s = Inr s' \<Longrightarrow> \<forall>o'\<in>set os. \<exists>use. validateLegacyDNSModeDisabledRuleTree sets ov o' = Inr use"
  by (induction os arbitrary: i s) (auto simp: Let_def split: sum.splits if_splits)

lemma new_mode_dns_ok:
  assumes "buildRules L F router transport os = Some (Inr (rules, False, fl))" "list_all (decoded decoded_dns) os" "headless_sets F"
  shows "list_all (\<lambda>(r, a). dns_ok r) rules"
proof -
  obtain sets w where i: "installed (dns_builder L False) F os rules" and "validateLegacyDNSModeDisabledRules sets (\<lambda>_. None) os = Inr w"
    using buildRules_cases [OF assms(1)] by metis
  then obtain s where s: "validate_rules sets (\<lambda>_. None) 0 os initial_validate = Inr s"
    by (auto simp: validateLegacyDNSModeDisabledRules_def)
  from i assms(2) validate_rules_each [OF s] show ?thesis
  proof (induction os arbitrary: rules)
    case (Cons o' os)
    then show ?case using built_dns_ok(1) [OF assms(3) refl] by fastforce
  qed simp
qed

end
