(* ===== verification/DnsWalk.thy ===== *)
theory DnsWalk
  imports DnsResponses
begin

text \<open>
  The walk of the DNS router over its rules in the new mode (\<^verbatim>\<open>walkDNSRules\<close>, \<^verbatim>\<open>resumeExchangeWithRules\<close> and what they
  call in \<^verbatim>\<open>dns/router.go\<close>). Evaluate actions start queries that run while the walk goes on; a rule that refers to a
  response suspends the walk until it has arrived; race rules are armed and looked at whenever a response arrives.

  \<^item> A future is an index into \<open>ws_futures\<close>. Its answer is what the DNS client returns for this query,
    \<open>we_exchange\<close>, whether it is asked by \<^verbatim>\<open>Exchange\<close> or by \<^verbatim>\<open>ExchangeAsync\<close>. When it arrives is decided by \<open>we_resolved\<close>, which is asked at a time: an epoch, which waiting
    increases, and a tick, which every look at a future increases. Any schedule of arrivals is possible.
  \<^item> Cancelling the queries that are still running has no influence on the result and is left out, as is logging.
  \<^item> \<open>exchange_async_agrees\<close>: the variant with a callback gives the same result. The comparison with a
    walk that waits for every answer is in \<open>DnsSequential\<close>.
\<close>

subsection \<open>State\<close>

datatype walk_error = MissingResponse | ErrDrop | ContextError | ExchangeError string

datatype dns_reply = ServerReply dns_msg | RefusedReply | PredefinedReply nat

record walk_result =
  wr_response :: "dns_reply option"
  wr_transport :: "string option"
  wr_reject :: "string option"
  wr_error :: "walk_error option"

record walk_future =
  wf_tag :: string
  wf_terminal :: bool
  wf_server :: string
  wf_options :: dns_query_options
  wf_settled :: bool

record armed_rule =
  ar_index :: nat
  ar_rule :: rule
  ar_action :: dns_action
  ar_futures :: "nat list"
  ar_anonymous :: "nat option"
  ar_bindsAnonymous :: bool
  ar_options :: dns_query_options

record walk_state =
  ws_ruleIndex :: nat
  ws_options :: dns_query_options
  ws_anonymous :: "nat option"
  ws_named :: "string \<Rightarrow> nat option"
  ws_responses :: "string \<Rightarrow> dns_msg option"
  ws_transports :: "string \<Rightarrow> string option"
  ws_futures :: "walk_future list"
  ws_armed :: "armed_rule list"
  ws_terminal :: "nat option"
  ws_terminalIndex :: nat
  ws_metadata :: inbound_context
  ws_epoch :: nat
  ws_tick :: nat

record pending_exchange =
  pe_transport :: string
  pe_options :: dns_query_options
  pe_future :: "nat option"

datatype walk_suspension = Await nat | Drain | Pending pending_exchange

text \<open>
  The surroundings of a walk: the environment of the rules, the servers and whether they are fakeip servers, the
  default server, the default strategy, the response and error the client returns for the n-th query of the message, the
  arrivals, and whether the context is done.
\<close>

record walk_env =
  we_rules :: rule_env
  we_transport :: "string \<Rightarrow> bool option"
  we_default :: string
  we_strategy :: nat
  we_exchange :: "nat \<Rightarrow> string \<Rightarrow> dns_query_options \<Rightarrow> dns_msg option \<times> string option"
  we_resolved :: "nat \<Rightarrow> nat \<Rightarrow> nat \<Rightarrow> bool"
  we_cancelled :: "nat \<Rightarrow> bool"

subsection \<open>Futures\<close>

definition resolved :: "walk_env \<Rightarrow> nat \<Rightarrow> walk_state \<Rightarrow> bool \<times> walk_state" where
  "resolved W f s = (we_resolved W (ws_epoch s) (ws_tick s) f, s\<lparr>ws_tick := Suc (ws_tick s)\<rparr>)"

definition future_view :: "walk_env \<Rightarrow> walk_future list \<Rightarrow> nat \<Rightarrow> dns_msg option" where
  "future_view W fs f =
     (let (response, err) = we_exchange W f (wf_server (fs ! f)) (wf_options (fs ! f)) in if err \<noteq> None then None else response)"

definition view :: "walk_env \<Rightarrow> nat \<Rightarrow> walk_state \<Rightarrow> dns_msg option \<times> walk_state" where
  "view W f s = (let (b, s) = resolved W f s in (if \<not> b then None else future_view W (ws_futures s) f, s))"

definition anonymousResponse :: "walk_env \<Rightarrow> walk_state \<Rightarrow> dns_msg option \<times> walk_state" where
  "anonymousResponse W s = (case ws_anonymous s of None \<Rightarrow> (None, s) | Some f \<Rightarrow> view W f s)"

definition finalizeExchangeOptions :: "walk_env \<Rightarrow> dns_query_options \<Rightarrow> dns_query_options" where
  "finalizeExchangeOptions W q = (if q_Strategy q = 0 then q\<lparr>q_Strategy := we_strategy W\<rparr> else q)"

definition launchDNSEvaluate ::
  "walk_env \<Rightarrow> string \<Rightarrow> string \<Rightarrow> dns_query_options \<Rightarrow> walk_state \<Rightarrow> nat \<times> walk_state" where
  "launchDNSEvaluate W tag transport q s =
     (length (ws_futures s),
      s\<lparr>ws_futures := ws_futures s @ [\<lparr>wf_tag = tag, wf_terminal = False, wf_server = transport,
          wf_options = finalizeExchangeOptions W q, wf_settled = False\<rparr>]\<rparr>)"

fun settle_loop :: "walk_env \<Rightarrow> nat list \<Rightarrow> walk_state \<Rightarrow> walk_state" where
  "settle_loop W [] s = s"
| "settle_loop W (f # fs) s =
     (let future = ws_futures s ! f in
      if wf_settled future then settle_loop W fs s
      else
        (let (b, s) = resolved W f s in
         if \<not> b then settle_loop W fs s
         else
           (let s = s\<lparr>ws_futures := (ws_futures s)[f := future\<lparr>wf_settled := True\<rparr>]\<rparr> in
            if wf_tag future = '''' then settle_loop W fs s
            else
              (let (v, s) = view W f s in
               settle_loop W fs
                 (s\<lparr>ws_responses := (ws_responses s)(wf_tag future := v),
                    ws_transports := (ws_transports s)(wf_tag future \<mapsto> wf_server future)\<rparr>)))))"

definition settleDNSFutures :: "walk_env \<Rightarrow> walk_state \<Rightarrow> walk_state" where
  "settleDNSFutures W s = settle_loop W [0..<length (ws_futures s)] s"

subsection \<open>Actions\<close>

definition applyDNSRouteOptions :: "dns_route_options \<Rightarrow> dns_query_options \<Rightarrow> dns_query_options" where
  "applyDNSRouteOptions opts q =
     (let q = (if dr_DisableCache opts then q\<lparr>q_DisableCache := True\<rparr> else q);
          q = (if dr_DisableOptimisticCache opts then q\<lparr>q_DisableOptimisticCache := True\<rparr> else q);
          q = (if dr_RewriteTTL opts \<noteq> None then q\<lparr>q_RewriteTTL := dr_RewriteTTL opts\<rparr> else q);
          q = (if dr_Timeout opts > 0 then q\<lparr>q_Timeout := dr_Timeout opts\<rparr> else q);
          q = (if dr_ClientSubnet opts \<noteq> None
               then q\<lparr>q_ClientSubnet := dr_ClientSubnet opts, q_RemoveClientSubnet := False\<rparr> else q)
      in if dr_RemoveClientSubnet opts then q\<lparr>q_ClientSubnet := None, q_RemoveClientSubnet := True\<rparr> else q)"

datatype dnsRouteStatus = dnsRouteStatusMissing | dnsRouteStatusSkipped | dnsRouteStatusResolved

definition resolveDNSRoute ::
  "walk_env \<Rightarrow> string \<Rightarrow> dns_route_options \<Rightarrow> bool \<Rightarrow> dns_query_options \<Rightarrow> dnsRouteStatus \<times> dns_query_options" where
  "resolveDNSRoute W server opts allowFakeIP q =
     (case we_transport W server of
        None \<Rightarrow> (dnsRouteStatusMissing, q)
      | Some isFakeIP \<Rightarrow>
          if isFakeIP \<and> \<not> allowFakeIP then (dnsRouteStatusSkipped, q)
          else
            (let q = applyDNSRouteOptions opts q
             in (dnsRouteStatusResolved, if isFakeIP then q\<lparr>q_DisableCache := True\<rparr> else q)))"

definition empty_result :: walk_result where
  "empty_result = \<lparr>wr_response = None, wr_transport = None, wr_reject = None, wr_error = None\<rparr>"

definition fail_result :: "walk_error \<Rightarrow> walk_result" where
  "fail_result e = empty_result\<lparr>wr_error := Some e\<rparr>"

definition respond_result :: "dns_msg option \<Rightarrow> string option \<Rightarrow> walk_result" where
  "respond_result response transport =
     (case response of
        None \<Rightarrow> fail_result MissingResponse
      | Some msg \<Rightarrow> empty_result\<lparr>wr_response := Some (ServerReply msg), wr_transport := transport\<rparr>)"

definition reject_result :: "string \<Rightarrow> walk_result option" where
  "reject_result reject_method =
     (if reject_method = ''default'' then Some (empty_result\<lparr>wr_response := Some RefusedReply, wr_reject := Some reject_method\<rparr>)
      else if reject_method = ''drop'' then Some (empty_result\<lparr>wr_reject := Some reject_method, wr_error := Some ErrDrop\<rparr>)
      else None)"

definition exchange_result :: "string \<Rightarrow> dns_msg option \<Rightarrow> string option \<Rightarrow> walk_result" where
  "exchange_result transport response err =
     \<lparr>wr_response = map_option ServerReply response, wr_transport = Some transport, wr_reject = None,
      wr_error = map_option ExchangeError err\<rparr>"

text \<open>Matching a rule against the given responses; the metadata is shared by all rules.\<close>

definition rule_metadata ::
  "inbound_context \<Rightarrow> dns_msg option \<Rightarrow> (string \<Rightarrow> dns_msg option) \<Rightarrow> inbound_context" where
  "rule_metadata m response named =
     (ResetRuleCache m)\<lparr>DNSResponse := response, NamedDNSResponses := named, DestinationAddressMatchFromResponse := False\<rparr>"

definition match_with :: "walk_env \<Rightarrow> dns_msg option \<Rightarrow> rule \<Rightarrow> walk_state \<Rightarrow> bool \<times> walk_state" where
  "match_with W response r s =
     (let (b, m) = rule_Match (we_rules W) r (rule_metadata (ws_metadata s) response (ws_responses s))
      in (b, s\<lparr>ws_metadata := m\<rparr>))"

subsection \<open>Armed rules\<close>

fun all_resolved :: "walk_env \<Rightarrow> nat list \<Rightarrow> walk_state \<Rightarrow> bool \<times> walk_state" where
  "all_resolved W [] s = (True, s)"
| "all_resolved W (f # fs) s = (let (b, s) = resolved W f s in if \<not> b then (False, s) else all_resolved W fs s)"

text \<open>What an armed rule that matches does; \<^term>\<open>None\<close> means that the sweep goes on.\<close>

definition armed_action ::
  "walk_env \<Rightarrow> bool \<Rightarrow> armed_rule \<Rightarrow> walk_state \<Rightarrow> (walk_result + pending_exchange) option \<times> walk_state" where
  "armed_action W allowFakeIP armed s =
     (case ar_action armed of
        DNSRespondAction \<Rightarrow>
          (let tag = MatchResponseTag (ar_rule armed) in
           if tag \<noteq> '''' then (Some (Inl (respond_result (ws_responses s tag) (ws_transports s tag))), s)
           else case ar_anonymous armed of
                  Some f \<Rightarrow>
                    (let (response, s) = view W f s
                     in (Some (Inl (respond_result response (Some (wf_server (ws_futures s ! f))))), s))
                | None \<Rightarrow>
                    (case ws_anonymous s of
                       Some f \<Rightarrow>
                         (let (response, s) = anonymousResponse W s
                          in (Some (Inl (respond_result response (Some (wf_server (ws_futures s ! f))))), s))
                     | None \<Rightarrow> (Some (Inl (respond_result None None)), s)))
      | DNSRouteAction server opts speculative \<Rightarrow>
          (case resolveDNSRoute W server opts allowFakeIP (ar_options armed) of
             (dnsRouteStatusResolved, q) \<Rightarrow> (Some (Inr \<lparr>pe_transport = server, pe_options = q, pe_future = None\<rparr>), s)
           | _ \<Rightarrow> (None, s))
      | DNSRejectAction reject_method \<Rightarrow> (map_option Inl (reject_result reject_method), s)
      | DNSPredefinedAction \<Rightarrow> (Some (Inl (empty_result\<lparr>wr_response := Some (PredefinedReply (ar_index armed))\<rparr>)), s)
      | _ \<Rightarrow> (None, s))"

definition armed_response :: "walk_env \<Rightarrow> armed_rule \<Rightarrow> walk_state \<Rightarrow> dns_msg option \<times> walk_state" where
  "armed_response W armed s =
     (if ar_bindsAnonymous armed
      then (case ar_anonymous armed of Some f \<Rightarrow> view W f s | None \<Rightarrow> (None, s))
      else anonymousResponse W s)"

text \<open>
  The sweep over the armed rules: those before the current one are \<open>kept\<close>, because a response they refer to has not
  arrived.
\<close>

fun sweep_loop ::
  "walk_env \<Rightarrow> bool \<Rightarrow> armed_rule list \<Rightarrow> armed_rule list \<Rightarrow> walk_state \<Rightarrow>
     (walk_result + pending_exchange) option \<times> walk_state" where
  "sweep_loop W allowFakeIP kept [] s = (None, s\<lparr>ws_armed := kept\<rparr>)"
| "sweep_loop W allowFakeIP kept (armed # rest) s =
     (let (ready, s) = all_resolved W (ar_futures armed) s in
      if \<not> ready then sweep_loop W allowFakeIP (kept @ [armed]) rest s
      else
        (let (response, s) = armed_response W armed (s\<lparr>ws_armed := kept @ rest\<rparr>);
             (matched, s) = match_with W response (ar_rule armed) s
         in if \<not> matched then sweep_loop W allowFakeIP kept rest s
            else
              (let (committed, s) = armed_action W allowFakeIP armed s
               in if committed \<noteq> None then (committed, s) else sweep_loop W allowFakeIP kept rest s)))"

definition sweepArmedDNSRules ::
  "walk_env \<Rightarrow> bool \<Rightarrow> walk_state \<Rightarrow> (walk_result + pending_exchange) option \<times> walk_state" where
  "sweepArmedDNSRules W allowFakeIP s = sweep_loop W allowFakeIP [] (ws_armed s) s"

subsection \<open>The walk\<close>

datatype walk_outcome = Next | Done walk_result | Suspended walk_suspension

fun pending_futures :: "walk_env \<Rightarrow> string list \<Rightarrow> walk_state \<Rightarrow> nat list \<times> walk_state" where
  "pending_futures W [] s = ([], s)"
| "pending_futures W (tag # tags) s =
     (case ws_named s tag of
        None \<Rightarrow> pending_futures W tags s
      | Some f \<Rightarrow>
          (let (b, s) = resolved W f s; (fs, s) = pending_futures W tags s in (if \<not> b then f # fs else fs, s)))"

definition pending_anonymous :: "walk_env \<Rightarrow> walk_state \<Rightarrow> nat option \<times> walk_state" where
  "pending_anonymous W s =
     (case ws_anonymous s of
        None \<Rightarrow> (None, s)
      | Some f \<Rightarrow> (let (b, s) = resolved W f s in (if \<not> b then Some f else None, s)))"

definition arm_rule :: "walk_env \<Rightarrow> bool \<Rightarrow> rule \<Rightarrow> dns_action \<Rightarrow> walk_state \<Rightarrow> walk_outcome \<times> walk_state" where
  "arm_rule W allowFakeIP r action s =
     (let (named, s) = pending_futures W (MatchResponseTags r) s;
          bindsAnonymous = MatchResponseAnonymous r;
          (anonymous, s) = (if bindsAnonymous then pending_anonymous W s else (None, s));
          pendingFutures = named @ (case anonymous of None \<Rightarrow> [] | Some f \<Rightarrow> [f]);
          s = s\<lparr>ws_armed := ws_armed s @ [\<lparr>ar_index = ws_ruleIndex s, ar_rule = r, ar_action = action, ar_futures = pendingFutures,
             ar_anonymous = (if bindsAnonymous then ws_anonymous s else None), ar_bindsAnonymous = bindsAnonymous,
             ar_options = ws_options s\<rparr>]\<rparr>
      in if pendingFutures \<noteq> [] then (Next, s)
         else
           (case sweepArmedDNSRules W allowFakeIP s of
              (None, s) \<Rightarrow> (Next, s)
            | (Some (Inl result), s) \<Rightarrow> (Done result, s)
            | (Some (Inr p), s) \<Rightarrow> (Suspended (Pending p), s\<lparr>ws_armed := []\<rparr>)))"

fun await_named :: "walk_env \<Rightarrow> string list \<Rightarrow> walk_state \<Rightarrow> nat option \<times> walk_state" where
  "await_named W [] s = (None, s)"
| "await_named W (tag # tags) s =
     (case ws_named s tag of
        None \<Rightarrow> await_named W tags s
      | Some f \<Rightarrow> (let (b, s) = resolved W f s in if \<not> b then (Some f, s) else await_named W tags s))"

definition await_bindings :: "walk_env \<Rightarrow> rule \<Rightarrow> walk_state \<Rightarrow> nat option \<times> walk_state" where
  "await_bindings W r s =
     (case await_named W (MatchResponseTags r) s of
        (Some f, s) \<Rightarrow> (Some f, s)
      | (None, s) \<Rightarrow> if MatchResponseAnonymous r then pending_anonymous W s else (None, s))"

definition walk_evaluate ::
  "walk_env \<Rightarrow> string \<Rightarrow> dns_route_options \<Rightarrow> string \<Rightarrow> bool \<Rightarrow> walk_state \<Rightarrow> walk_outcome \<times> walk_state" where
  "walk_evaluate W server opts tag speculative s =
     (case we_transport W server of
        None \<Rightarrow> (Next, if tag = '''' then s\<lparr>ws_anonymous := None\<rparr> else s)
      | Some _ \<Rightarrow>
          if \<not> speculative \<and> ws_armed s \<noteq> [] then (Suspended Drain, s)
          else
            (let (f, s) = launchDNSEvaluate W tag server (applyDNSRouteOptions opts (ws_options s)) s
             in (Next, if tag = '''' then s\<lparr>ws_anonymous := Some f\<rparr> else s\<lparr>ws_named := (ws_named s)(tag \<mapsto> f)\<rparr>)))"

definition walk_respond :: "walk_env \<Rightarrow> rule \<Rightarrow> walk_state \<Rightarrow> walk_outcome \<times> walk_state" where
  "walk_respond W r s =
     (if ws_armed s \<noteq> [] then (Suspended Drain, s)
      else
        (let tag = MatchResponseTag r in
         if tag \<noteq> '''' then (Done (respond_result (ws_responses s tag) (ws_transports s tag)), s)
         else
           (case if \<not> matches_response r then pending_anonymous W s else (None, s) of
              (Some f, s) \<Rightarrow> (Suspended (Await f), s)
            | (None, s) \<Rightarrow>
                (let (response, s) = anonymousResponse W s
                 in (Done (respond_result response (map_option (\<lambda>f. wf_server (ws_futures s ! f)) (ws_anonymous s))), s)))))"

definition zero_options :: dns_query_options where
  "zero_options = \<lparr>q_Strategy = 0, q_DisableCache = False, q_DisableOptimisticCache = False, q_RewriteTTL = None, q_Timeout = 0,
     q_ClientSubnet = None, q_RemoveClientSubnet = False\<rparr>"

definition walk_route ::
  "walk_env \<Rightarrow> bool \<Rightarrow> string \<Rightarrow> dns_route_options \<Rightarrow> bool \<Rightarrow> walk_state \<Rightarrow> walk_outcome \<times> walk_state" where
  "walk_route W allowFakeIP server opts speculative s =
     (case resolveDNSRoute W server opts allowFakeIP (ws_options s) of
        (dnsRouteStatusResolved, q) \<Rightarrow>
          if ws_armed s \<noteq> [] then
            (Suspended Drain,
             if speculative \<and> ws_terminal s = None then
               (let (f, s) = launchDNSEvaluate W '''' server q s
                in s\<lparr>ws_futures := (ws_futures s)[f := (ws_futures s ! f)\<lparr>wf_terminal := True\<rparr>],
                     ws_terminal := Some f, ws_terminalIndex := ws_ruleIndex s\<rparr>)
             else s)
          else
            (case ws_terminal s of
               Some f \<Rightarrow>
                 if ws_terminalIndex s = ws_ruleIndex s
                 then (Suspended (Pending \<lparr>pe_transport = wf_server (ws_futures s ! f), pe_options = zero_options, pe_future = Some f\<rparr>), s)
                 else (Suspended (Pending \<lparr>pe_transport = server, pe_options = q, pe_future = None\<rparr>), s)
             | None \<Rightarrow> (Suspended (Pending \<lparr>pe_transport = server, pe_options = q, pe_future = None\<rparr>), s))
      | _ \<Rightarrow> (Next, s))"

definition walk_action ::
  "walk_env \<Rightarrow> bool \<Rightarrow> rule \<Rightarrow> dns_action \<Rightarrow> walk_state \<Rightarrow> walk_outcome \<times> walk_state" where
  "walk_action W allowFakeIP r action s =
     (case action of
        DNSRouteOptionsAction opts \<Rightarrow> (Next, s\<lparr>ws_options := applyDNSRouteOptions opts (ws_options s)\<rparr>)
      | DNSEvaluateAction server opts tag speculative \<Rightarrow> walk_evaluate W server opts tag speculative s
      | DNSRespondAction \<Rightarrow> walk_respond W r s
      | DNSRouteAction server opts speculative \<Rightarrow> walk_route W allowFakeIP server opts speculative s
      | DNSRejectAction reject_method \<Rightarrow>
          if ws_armed s \<noteq> [] then (Suspended Drain, s)
          else (case reject_result reject_method of None \<Rightarrow> Next | Some result \<Rightarrow> Done result, s)
      | DNSPredefinedAction \<Rightarrow>
          if ws_armed s \<noteq> [] then (Suspended Drain, s)
          else (Done (empty_result\<lparr>wr_response := Some (PredefinedReply (ws_ruleIndex s))\<rparr>), s)
      | NoDNSAction \<Rightarrow> (Next, s))"

definition walk_match ::
  "walk_env \<Rightarrow> bool \<Rightarrow> rule \<Rightarrow> dns_action \<Rightarrow> walk_state \<Rightarrow> walk_outcome \<times> walk_state" where
  "walk_match W allowFakeIP r action s =
     (let (response, s) = anonymousResponse W s; (matched, s) = match_with W response r s
      in if \<not> matched then (Next, s) else walk_action W allowFakeIP r action s)"

definition walk_rule ::
  "walk_env \<Rightarrow> bool \<Rightarrow> rule \<times> dns_rule_action \<Rightarrow> walk_state \<Rightarrow> walk_outcome \<times> walk_state" where
  "walk_rule W allowFakeIP rule s =
     (case rule of
        (r, a) \<Rightarrow>
          if matches_response r then
            (let s = settleDNSFutures W s in
             if da_Race a then arm_rule W allowFakeIP r (da_Action a) s
             else
               (case await_bindings W r s of
                  (Some f, s) \<Rightarrow> (Suspended (Await f), s)
                | (None, s) \<Rightarrow> walk_match W allowFakeIP r (da_Action a) s))
          else walk_match W allowFakeIP r (da_Action a) s)"

function walkDNSRules ::
  "walk_env \<Rightarrow> bool \<Rightarrow> (rule \<times> dns_rule_action) list \<Rightarrow> walk_state \<Rightarrow> (walk_result + walk_suspension) \<times> walk_state" where
  "walkDNSRules W allowFakeIP rules s =
     (if ws_ruleIndex s \<ge> length rules then
        (Inr (if ws_armed s \<noteq> [] then Drain
              else Pending \<lparr>pe_transport = we_default W, pe_options = ws_options s, pe_future = None\<rparr>), s)
      else
        (case walk_rule W allowFakeIP (rules ! ws_ruleIndex s) s of
           (Done result, s') \<Rightarrow> (Inl result, s')
         | (Suspended suspension, s') \<Rightarrow> (Inr suspension, s')
         | (Next, s') \<Rightarrow> walkDNSRules W allowFakeIP rules (s'\<lparr>ws_ruleIndex := ws_ruleIndex s + 1\<rparr>)))"
  by pat_completeness auto
termination by (relation "measure (\<lambda>(W, allowFakeIP, rules, s). length rules - ws_ruleIndex s)") auto

declare walkDNSRules.simps [simp del]

definition finishPendingExchange :: "walk_env \<Rightarrow> pending_exchange \<Rightarrow> walk_state \<Rightarrow> walk_result" where
  "finishPendingExchange W p s =
     (case pe_future p of
        Some f \<Rightarrow>
          if we_cancelled W (ws_epoch s) then fail_result ContextError
          else exchange_result (wf_server (ws_futures s ! f)) (future_view W (ws_futures s) f)
            (snd (we_exchange W f (wf_server (ws_futures s ! f)) (wf_options (ws_futures s ! f))))
      | None \<Rightarrow>
          (let (response, err) = we_exchange W (length (ws_futures s)) (pe_transport p) (finalizeExchangeOptions W (pe_options p))
           in exchange_result (pe_transport p) response err))"

definition must_wait :: "walk_env \<Rightarrow> walk_suspension \<Rightarrow> walk_state \<Rightarrow> bool \<times> walk_state" where
  "must_wait W suspension s =
     (case suspension of
        Await f \<Rightarrow> (let (b, s) = resolved W f s in (\<not> b, s))
      | Drain \<Rightarrow> (ws_armed s \<noteq> [], s)
      | Pending p \<Rightarrow> (False, s))"

text \<open>One turn of the loop of \<open>resumeExchangeWithRules\<close>: the result, or the suspension and state of the next turn.\<close>

definition resume_turn ::
  "walk_env \<Rightarrow> bool \<Rightarrow> (rule \<times> dns_rule_action) list \<Rightarrow> walk_suspension \<Rightarrow> walk_state \<Rightarrow>
     walk_result + walk_suspension \<times> walk_state" where
  "resume_turn W allowFakeIP rules suspension s =
     (case sweepArmedDNSRules W allowFakeIP (settleDNSFutures W s) of
        (Some (Inl result), s) \<Rightarrow> Inl result
      | (Some (Inr p), s) \<Rightarrow> Inl (finishPendingExchange W p s)
      | (None, s) \<Rightarrow>
          (case suspension of
             Pending p \<Rightarrow> Inl (finishPendingExchange W p s)
           | _ \<Rightarrow>
               (case must_wait W suspension s of
                  (True, s) \<Rightarrow>
                    if we_cancelled W (ws_epoch s) then Inl (fail_result ContextError)
                    else Inr (suspension, s\<lparr>ws_epoch := ws_epoch s + 1\<rparr>)
                | (False, s) \<Rightarrow>
                    (case walkDNSRules W allowFakeIP rules s of
                       (Inl result, s) \<Rightarrow> Inl result
                     | (Inr suspension, s) \<Rightarrow> Inr (suspension, s)))))"

partial_function (option) resumeExchangeWithRules ::
  "walk_env \<Rightarrow> bool \<Rightarrow> (rule \<times> dns_rule_action) list \<Rightarrow> walk_suspension \<Rightarrow> walk_state \<Rightarrow> walk_result option" where
  "resumeExchangeWithRules W allowFakeIP rules suspension s =
     (case resume_turn W allowFakeIP rules suspension s of
        Inl result \<Rightarrow> Some result
      | Inr later \<Rightarrow> resumeExchangeWithRules W allowFakeIP rules (fst later) (snd later))"

definition initial_walk :: "dns_query_options \<Rightarrow> inbound_context \<Rightarrow> walk_state" where
  "initial_walk q m =
     \<lparr>ws_ruleIndex = 0, ws_options = q, ws_anonymous = None, ws_named = (\<lambda>_. None), ws_responses = (\<lambda>_. None),
      ws_transports = (\<lambda>_. None), ws_futures = [], ws_armed = [], ws_terminal = None, ws_terminalIndex = 0,
      ws_metadata = m, ws_epoch = 0, ws_tick = 0\<rparr>"

definition exchangeWithRules ::
  "walk_env \<Rightarrow> (rule \<times> dns_rule_action) list \<Rightarrow> dns_query_options \<Rightarrow> inbound_context \<Rightarrow> bool \<Rightarrow> walk_result option" where
  "exchangeWithRules W rules q m allowFakeIP =
     (case walkDNSRules W allowFakeIP rules (initial_walk q m) of
        (Inl result, s) \<Rightarrow> Some result
      | (Inr suspension, s) \<Rightarrow> resumeExchangeWithRules W allowFakeIP rules suspension s)"


text \<open>The variant with a callback: the value is what the callback gets.\<close>

definition exchangeWithRulesAsync ::
  "walk_env \<Rightarrow> (rule \<times> dns_rule_action) list \<Rightarrow> dns_query_options \<Rightarrow> inbound_context \<Rightarrow> bool \<Rightarrow> walk_result option" where
  "exchangeWithRulesAsync W rules q m allowFakeIP =
     (case walkDNSRules W allowFakeIP rules (initial_walk q m) of
        (Inl result, s) \<Rightarrow> Some result
      | (Inr suspension, s) \<Rightarrow>
          (case suspension of
             Pending p \<Rightarrow>
               if pe_future p = None then
                 (let (response, err) = we_exchange W (length (ws_futures s)) (pe_transport p) (finalizeExchangeOptions W (pe_options p))
                  in Some (exchange_result (pe_transport p) response err))
               else resumeExchangeWithRules W allowFakeIP rules suspension s
           | _ \<Rightarrow> resumeExchangeWithRules W allowFakeIP rules suspension s))"

subsection \<open>The two variants agree\<close>

lemma settle_loop_kept [simp]:
  "ws_armed (settle_loop W fs s) = ws_armed s" "length (ws_futures (settle_loop W fs s)) = length (ws_futures s)"
  by (induction fs arbitrary: s) (simp_all add: Let_def case_prod_beta resolved_def view_def)

lemma action_pending: "walk_action W allowFakeIP r action s = (Suspended (Pending p), s') \<Longrightarrow> ws_armed s' = []"
  by (auto simp: walk_action_def walk_evaluate_def walk_respond_def walk_route_def launchDNSEvaluate_def Let_def
    split: dns_action.splits option.splits if_splits prod.splits dnsRouteStatus.splits)

lemma rule_pending: "walk_rule W allowFakeIP rule s = (Suspended (Pending p), s') \<Longrightarrow> ws_armed s' = []"
  by (auto simp: walk_rule_def walk_match_def arm_rule_def Let_def dest!: action_pending
    split: prod.splits option.splits if_splits sum.splits)

lemma walk_pending: "walkDNSRules W allowFakeIP rules s = (Inr (Pending p), s') \<Longrightarrow> ws_armed s' = []"
proof (induction W allowFakeIP rules s rule: walkDNSRules.induct)
  case (1 W allowFakeIP rules s)
  show ?case
  proof (cases "ws_ruleIndex s < length rules")
    case True
    obtain out s1 where w: "walk_rule W allowFakeIP (rules ! ws_ruleIndex s) s = (out, s1)" by fastforce
    show ?thesis
      using 1 True w rule_pending by (cases out) (auto simp: walkDNSRules.simps [of W allowFakeIP rules s])
  next
    case False
    then show ?thesis using "1.prems" by (auto simp: walkDNSRules.simps [of W allowFakeIP rules s] split: if_splits)
  qed
qed

text \<open>
  C17: The exchange with a callback agrees with the blocking one. For all rules, race rules included, all answers and every
  order of arrivals, the callback gets what the blocking exchange returns: the shortcut that starts the
  last query directly skips only work that has no effect. Both ask the client through \<open>we_exchange\<close>, so this is relative to a
  client that gives the same answer to \<^verbatim>\<open>Exchange\<close> and \<^verbatim>\<open>ExchangeAsync\<close>.
\<close>

theorem exchange_async_agrees: "exchangeWithRulesAsync W rules q m allowFakeIP = exchangeWithRules W rules q m allowFakeIP"
proof -
  have resume: "resumeExchangeWithRules W allowFakeIP rules (Pending p) s = Some (finishPendingExchange W p (settleDNSFutures W s))"
    if "ws_armed s = []" for p s
  proof -
    have "sweepArmedDNSRules W allowFakeIP (settleDNSFutures W s) = (None, settleDNSFutures W s)"
      using that by (simp add: sweepArmedDNSRules_def settleDNSFutures_def)
    then show ?thesis by (simp add: resumeExchangeWithRules.simps resume_turn_def)
  qed
  obtain out s where w: "walkDNSRules W allowFakeIP rules (initial_walk q m) = (out, s)" by fastforce
  show ?thesis
  proof (cases "\<exists>p. out = Inr (Pending p) \<and> pe_future p = None")
    case True
    then obtain p where p: "out = Inr (Pending p)" "pe_future p = None" by blast
    then have "ws_armed s = []" using w walk_pending by metis
    then show ?thesis using w p resume [of s p]
      by (simp add: exchangeWithRulesAsync_def exchangeWithRules_def finishPendingExchange_def settleDNSFutures_def case_prod_beta Let_def)
  next
    case False
    then show ?thesis using w by (auto simp: exchangeWithRulesAsync_def exchangeWithRules_def split: sum.split walk_suspension.split)
  qed
qed

end
