(* ===== verification/DnsSequential.thy ===== *)
theory DnsSequential
  imports DnsWalk
begin

text \<open>
  The walk over the DNS rules (\<open>DnsWalk\<close>) compared with its specification, which takes the rules one after another and waits for
  the answer to every query before it goes on.

  \<^item> \<open>seq_rules\<close> is the specification.
  \<^item> \<open>simulates\<close> relates a state of the walk to one of the specification, \<open>rule_step\<close> and
    \<open>walk_simulates\<close> show that the walk keeps it, and \<open>resume_sequential\<close> that the loop around it ends with the result
    of the specification.
  \<^item> \<open>exchange_sequential\<close> is the result for rules without races, and \<open>named_response_missed\<close> shows why it needs its
    condition on named responses: one that arrives between two looks at it is not seen by the rule.
\<close>

subsection \<open>One query after another\<close>

record seq_state =
  sq_options :: dns_query_options
  sq_count :: nat
  sq_anonymous :: "(string \<times> dns_msg option) option"
  sq_named :: "string \<Rightarrow> (string \<times> dns_msg option) option"

definition seq_answer :: "walk_env \<Rightarrow> nat \<Rightarrow> string \<Rightarrow> dns_query_options \<Rightarrow> dns_msg option" where
  "seq_answer W n server q =
     (let (response, err) = we_exchange W n server (finalizeExchangeOptions W q) in if err \<noteq> None then None else response)"

definition seq_exchange :: "walk_env \<Rightarrow> string \<Rightarrow> dns_query_options \<Rightarrow> seq_state \<Rightarrow> walk_result" where
  "seq_exchange W server q st =
     (let (response, err) = we_exchange W (sq_count st) server (finalizeExchangeOptions W q) in exchange_result server response err)"

definition last_response :: "(string \<times> dns_msg option) option \<Rightarrow> dns_msg option" where
  "last_response e = Option.bind e snd"

definition seq_evaluate :: "walk_env \<Rightarrow> string \<Rightarrow> dns_route_options \<Rightarrow> string \<Rightarrow> seq_state \<Rightarrow> seq_state" where
  "seq_evaluate W server opts tag st =
     (if we_transport W server = None then (if tag = '''' then st\<lparr>sq_anonymous := None\<rparr> else st)
      else
        (let evaluated = (server, seq_answer W (sq_count st) server (applyDNSRouteOptions opts (sq_options st)));
             st = st\<lparr>sq_count := sq_count st + 1\<rparr>
         in if tag = '''' then st\<lparr>sq_anonymous := Some evaluated\<rparr> else st\<lparr>sq_named := (sq_named st)(tag \<mapsto> evaluated)\<rparr>))"

definition seq_respond :: "rule \<Rightarrow> seq_state \<Rightarrow> walk_result" where
  "seq_respond r st =
     (let evaluated = (if MatchResponseTag r \<noteq> '''' then sq_named st (MatchResponseTag r) else sq_anonymous st)
      in respond_result (last_response evaluated) (map_option fst evaluated))"

definition seq_action ::
  "walk_env \<Rightarrow> bool \<Rightarrow> nat \<Rightarrow> rule \<Rightarrow> dns_action \<Rightarrow> seq_state \<Rightarrow> walk_result + seq_state" where
  "seq_action W allowFakeIP i r action st =
     (case action of
        DNSRouteOptionsAction opts \<Rightarrow> Inr (st\<lparr>sq_options := applyDNSRouteOptions opts (sq_options st)\<rparr>)
      | DNSEvaluateAction server opts tag speculative \<Rightarrow> Inr (seq_evaluate W server opts tag st)
      | DNSRespondAction \<Rightarrow> Inl (seq_respond r st)
      | DNSRouteAction server opts speculative \<Rightarrow>
          (case resolveDNSRoute W server opts allowFakeIP (sq_options st) of
             (dnsRouteStatusResolved, q) \<Rightarrow> Inl (seq_exchange W server q st)
           | _ \<Rightarrow> Inr st)
      | DNSRejectAction reject_method \<Rightarrow> (case reject_result reject_method of None \<Rightarrow> Inr st | Some result \<Rightarrow> Inl result)
      | DNSPredefinedAction \<Rightarrow> Inl (empty_result\<lparr>wr_response := Some (PredefinedReply i)\<rparr>)
      | NoDNSAction \<Rightarrow> Inr st)"

definition seq_match :: "walk_env \<Rightarrow> inbound_context \<Rightarrow> rule \<Rightarrow> seq_state \<Rightarrow> bool" where
  "seq_match W m r st =
     sat (we_rules W) r (rule_metadata m (last_response (sq_anonymous st)) (\<lambda>t. last_response (sq_named st t)))"

definition seq_rule :: "walk_env \<Rightarrow> bool \<Rightarrow> inbound_context \<Rightarrow> nat \<Rightarrow> rule \<times> dns_rule_action \<Rightarrow> seq_state \<Rightarrow> walk_result + seq_state" where
  "seq_rule W allowFakeIP m i rule st =
     (case rule of (r, a) \<Rightarrow> if seq_match W m r st then seq_action W allowFakeIP i r (da_Action a) st else Inr st)"

fun seq_rules ::
  "walk_env \<Rightarrow> bool \<Rightarrow> inbound_context \<Rightarrow> nat \<Rightarrow> (rule \<times> dns_rule_action) list \<Rightarrow> seq_state \<Rightarrow> walk_result" where
  "seq_rules W allowFakeIP m i [] st = seq_exchange W (we_default W) (sq_options st) st"
| "seq_rules W allowFakeIP m i (rule # rules) st =
     (case seq_rule W allowFakeIP m i rule st of
        Inl result \<Rightarrow> result
      | Inr st \<Rightarrow> seq_rules W allowFakeIP m (i + 1) rules st)"

definition initial_seq :: "dns_query_options \<Rightarrow> seq_state" where
  "initial_seq q = \<lparr>sq_options = q, sq_count = 0, sq_anonymous = None, sq_named = (\<lambda>_. None)\<rparr>"

subsection \<open>Schedules\<close>

text \<open>
  A response that has arrived stays; every response arrives in some epoch; the context is not done. A schedule is calm if
  responses arrive only while the walk waits.
\<close>

definition proper_schedule :: "walk_env \<Rightarrow> bool" where
  "proper_schedule W \<longleftrightarrow>
     (\<forall>e t e' t' f. we_resolved W e t f \<longrightarrow> e \<le> e' \<longrightarrow> t \<le> t' \<longrightarrow> we_resolved W e' t' f) \<and>
     (\<forall>f. \<exists>b. \<forall>e\<ge>b. \<forall>t. we_resolved W e t f) \<and> (\<forall>e. \<not> we_cancelled W e)"

definition calm_schedule :: "walk_env \<Rightarrow> bool" where
  "calm_schedule W \<longleftrightarrow> (\<forall>e t t' f. we_resolved W e t f = we_resolved W e t' f)"

definition arrived :: "walk_env \<Rightarrow> walk_state \<Rightarrow> nat \<Rightarrow> bool" where
  "arrived W s f \<longleftrightarrow> we_resolved W (ws_epoch s) (ws_tick s) f"

definition later :: "walk_state \<Rightarrow> walk_state \<Rightarrow> bool" where
  "later s s' \<longleftrightarrow> ws_epoch s \<le> ws_epoch s' \<and> ws_tick s \<le> ws_tick s'"

lemma arrived_later: "proper_schedule W \<Longrightarrow> arrived W s f \<Longrightarrow> later s s' \<Longrightarrow> arrived W s' f"
  unfolding proper_schedule_def arrived_def later_def by blast

lemma later_refl [simp]: "later s s"
  by (simp add: later_def)

lemma later_trans [trans]: "later s s' \<Longrightarrow> later s' s'' \<Longrightarrow> later s s''"
  by (simp add: later_def)

subsection \<open>Simulation\<close>

definition evaluated :: "walk_env \<Rightarrow> walk_state \<Rightarrow> nat \<Rightarrow> string \<times> dns_msg option" where
  "evaluated W s f = (wf_server (ws_futures s ! f), future_view W (ws_futures s) f)"

definition settled :: "walk_state \<Rightarrow> nat \<Rightarrow> bool" where
  "settled s f = wf_settled (ws_futures s ! f)"

text \<open>Named futures carry their names, and the responses of those that are settled are kept under these names.\<close>

definition named_ok :: "walk_env \<Rightarrow> walk_state \<Rightarrow> bool" where
  "named_ok W s \<longleftrightarrow>
     (\<forall>t f. ws_named s t = Some f \<longleftrightarrow> f < length (ws_futures s) \<and> t = wf_tag (ws_futures s ! f) \<and> t \<noteq> '''') \<and>
     (\<forall>t. ws_named s t = None \<longrightarrow> ws_responses s t = None) \<and>
     (\<forall>t f. ws_named s t = Some f \<longrightarrow> settled s f \<longrightarrow>
        ws_responses s t = future_view W (ws_futures s) f \<and> ws_transports s t = Some (wf_server (ws_futures s ! f)))"

definition simulates :: "walk_env \<Rightarrow> inbound_context \<Rightarrow> walk_state \<Rightarrow> seq_state \<Rightarrow> bool" where
  "simulates W m s st \<longleftrightarrow>
     ws_armed s = [] \<and> ws_terminal s = None \<and> rule_metadata (ws_metadata s) = rule_metadata m \<and> named_ok W s \<and>
     (\<forall>f. ws_anonymous s = Some f \<longrightarrow> f < length (ws_futures s)) \<and> length (ws_futures s) \<le> ws_ruleIndex s \<and>
     st = \<lparr>sq_options = ws_options s, sq_count = length (ws_futures s),
       sq_anonymous = map_option (evaluated W s) (ws_anonymous s), sq_named = (\<lambda>t. map_option (evaluated W s) (ws_named s t))\<rparr>"

lemma time_irrelevant [simp]:
  "simulates W m (s\<lparr>ws_tick := t\<rparr>) st = simulates W m s st" "simulates W m (s\<lparr>ws_epoch := e\<rparr>) st = simulates W m s st"
  "evaluated W (s\<lparr>ws_tick := t\<rparr>) = evaluated W s" "settled (s\<lparr>ws_tick := t\<rparr>) = settled s"
  by (simp_all add: simulates_def evaluated_def [abs_def] named_ok_def settled_def [abs_def])

lemma resolved_simp: "resolved W f s = (arrived W s f, s\<lparr>ws_tick := Suc (ws_tick s)\<rparr>)"
  by (simp add: resolved_def arrived_def)

text \<open>Marking a future as settled.\<close>

definition settle_one :: "walk_env \<Rightarrow> nat \<Rightarrow> walk_state \<Rightarrow> walk_state" where
  "settle_one W f s =
     (let fu = ws_futures s ! f; s = s\<lparr>ws_futures := (ws_futures s)[f := fu\<lparr>wf_settled := True\<rparr>]\<rparr>
      in if wf_tag fu = '''' then s
         else s\<lparr>ws_responses := (ws_responses s)(wf_tag fu := future_view W (ws_futures s) f),
                ws_transports := (ws_transports s)(wf_tag fu \<mapsto> wf_server fu)\<rparr>)"

lemma future_view_settle: "f < length fs \<Longrightarrow> future_view W (fs[f := (fs ! f)\<lparr>wf_settled := True\<rparr>]) g = future_view W fs g"
  by (cases "f = g") (simp_all add: future_view_def)

lemma named_unique:
  assumes "named_ok W s" "f < length (ws_futures s)" "wf_tag (ws_futures s ! f) \<noteq> ''''"
  shows "ws_named s (wf_tag (ws_futures s ! f)) = Some f"
    and "g < length (ws_futures s) \<Longrightarrow> wf_tag (ws_futures s ! g) = wf_tag (ws_futures s ! f) \<Longrightarrow> g = f"
proof -
  show *: "ws_named s (wf_tag (ws_futures s ! f)) = Some f" using assms by (simp add: named_ok_def)
  show "g = f" if "g < length (ws_futures s)" "wf_tag (ws_futures s ! g) = wf_tag (ws_futures s ! f)"
    using assms that * unfolding named_ok_def by (metis option.inject)
qed

lemma settle_one_simulates:
  assumes "simulates W m s st" "f < length (ws_futures s)"
  shows "simulates W m (settle_one W f s) st"
proof -
  let ?fs = "(ws_futures s)[f := (ws_futures s ! f)\<lparr>wf_settled := True\<rparr>]"
  have same: "wf_tag (?fs ! g) = wf_tag (ws_futures s ! g)" "wf_server (?fs ! g) = wf_server (ws_futures s ! g)" for g
    using assms(2) by (cases "f = g"; simp)+
  have settled: "wf_settled (?fs ! g) = (wf_settled (ws_futures s ! g) \<or> g = f)" for g
    using assms(2) by (cases "f = g") auto
  have kept: "ws_futures (settle_one W f s) = ?fs" "ws_named (settle_one W f s) = ws_named s"
    by (simp_all add: settle_one_def Let_def)
  have ok: "named_ok W s" using assms(1) by (simp add: simulates_def)
  note u = named_unique [OF ok assms(2)]
  have "named_ok W (settle_one W f s)"
    unfolding named_ok_def kept same settled_def settled future_view_settle [OF assms(2)] length_list_update
  proof (intro conjI allI impI)
    show "(ws_named s t = Some g) = (g < length (ws_futures s) \<and> t = wf_tag (ws_futures s ! g) \<and> t \<noteq> '''')" for t g
      using ok by (simp add: named_ok_def)
    show "ws_responses (settle_one W f s) t = None" if "ws_named s t = None" for t
    proof -
      have "wf_tag (ws_futures s ! f) = '''' \<or> wf_tag (ws_futures s ! f) \<noteq> t" using that u(1) by auto
      moreover have "ws_responses s t = None" using ok that by (simp add: named_ok_def)
      ultimately show ?thesis by (auto simp: settle_one_def Let_def)
    qed
    fix t g
    assume n: "ws_named s t = Some g" and g: "wf_settled (ws_futures s ! g) \<or> g = f"
    have t: "g < length (ws_futures s)" "t = wf_tag (ws_futures s ! g)" "t \<noteq> ''''" using ok n by (auto simp: named_ok_def)
    show "ws_responses (settle_one W f s) t = future_view W (ws_futures s) g"
      "ws_transports (settle_one W f s) t = Some (wf_server (ws_futures s ! g))"
    proof (atomize (full), cases "g = f")
      case True
      then show "ws_responses (settle_one W f s) t = future_view W (ws_futures s) g \<and>
          ws_transports (settle_one W f s) t = Some (wf_server (ws_futures s ! g))"
        using t(3) unfolding t(2) by (simp add: settle_one_def Let_def future_view_settle [OF assms(2)])
    next
      case False
      have "wf_tag (ws_futures s ! f) \<noteq> t" using u(2) [of g] t False by metis
      moreover have "ws_responses s t = future_view W (ws_futures s) g \<and> ws_transports s t = Some (wf_server (ws_futures s ! g))"
        using ok n g False unfolding named_ok_def settled_def by blast
      ultimately show "ws_responses (settle_one W f s) t = future_view W (ws_futures s) g \<and>
          ws_transports (settle_one W f s) t = Some (wf_server (ws_futures s ! g))"
        by (simp add: settle_one_def Let_def)
    qed
  qed
  moreover have "evaluated W (settle_one W f s) = evaluated W s"
    using assms(2) by (simp add: evaluated_def [abs_def] kept same future_view_settle)
  ultimately show ?thesis
    using assms by (simp add: simulates_def kept) (simp add: settle_one_def Let_def)
qed


definition settle_step :: "walk_env \<Rightarrow> nat \<Rightarrow> walk_state \<Rightarrow> walk_state" where
  "settle_step W f s =
     (if settled s f then s
      else if \<not> arrived W s f then s\<lparr>ws_tick := ws_tick s + 1\<rparr>
      else (settle_one W f s)\<lparr>ws_tick := ws_tick s + (if wf_tag (ws_futures s ! f) = '''' then 1 else 2)\<rparr>)"

lemma settle_loop_step:
  assumes "proper_schedule W"
  shows "settle_loop W (f # fs) s = settle_loop W fs (settle_step W f s)"
proof (cases "settled s f \<or> \<not> arrived W s f")
  case True
  then show ?thesis by (auto simp: settle_step_def settled_def resolved_simp Let_def)
next
  case False
  let ?fu = "ws_futures s ! f" and ?fs = "(ws_futures s)[f := (ws_futures s ! f)\<lparr>wf_settled := True\<rparr>]"
  have "later s (s\<lparr>ws_tick := Suc (ws_tick s)\<rparr>)" by (simp add: later_def)
  then have "we_resolved W (ws_epoch s) (Suc (ws_tick s)) f"
    using arrived_later [OF assms, of s f "s\<lparr>ws_tick := Suc (ws_tick s)\<rparr>"] False by (simp add: arrived_def)
  then have "settle_loop W (f # fs) s = settle_loop W fs
      (if wf_tag ?fu = '''' then s\<lparr>ws_tick := Suc (ws_tick s), ws_futures := ?fs\<rparr>
       else s\<lparr>ws_futures := ?fs, ws_tick := Suc (Suc (ws_tick s)), ws_responses := (ws_responses s)(wf_tag ?fu := future_view W ?fs f),
         ws_transports := (ws_transports s)(wf_tag ?fu \<mapsto> wf_server ?fu)\<rparr>)"
    (is "_ = settle_loop W fs ?s")
    using False by (simp add: settled_def view_def resolved_def arrived_def Let_def)
  also have "?s = settle_step W f s" using False by (simp add: settle_step_def settle_one_def Let_def)
  finally show ?thesis .
qed

lemma settle_step_simulates:
  assumes "simulates W m s st" "f < length (ws_futures s)"
  shows "simulates W m (settle_step W f s) st"
  using assms settle_one_simulates [OF assms] by (simp add: settle_step_def)

text \<open>What looking at futures and settling them keeps.\<close>

definition same_walk :: "walk_state \<Rightarrow> walk_state \<Rightarrow> bool" where
  "same_walk s s' \<longleftrightarrow> later s s' \<and> ws_epoch s' = ws_epoch s \<and> ws_ruleIndex s' = ws_ruleIndex s \<and>
     length (ws_futures s') = length (ws_futures s) \<and> ws_named s' = ws_named s \<and> ws_anonymous s' = ws_anonymous s"

lemma same_walk_refl [simp]: "same_walk s s"
  by (simp add: same_walk_def)

lemma same_walk_trans: "same_walk s s' \<Longrightarrow> same_walk s' s'' \<Longrightarrow> same_walk s s''"
  by (auto simp: same_walk_def later_def)

lemma same_walk_tick [simp]: "ws_tick s \<le> t \<Longrightarrow> same_walk s (s\<lparr>ws_tick := t\<rparr>)"
  by (simp add: same_walk_def later_def)

lemma settle_step_same: "same_walk s (settle_step W f s)"
  by (simp add: same_walk_def later_def settle_step_def settle_one_def Let_def)

lemma settle_step_settled:
  assumes "f < length (ws_futures s)"
  shows "settled (settle_step W f s) g \<longleftrightarrow> settled s g \<or> g = f \<and> arrived W s f"
  using assms by (cases "g = f") (auto simp: settle_step_def settle_one_def settled_def Let_def)

lemma settle_loop_simulates:
  assumes "proper_schedule W"
  shows "simulates W m s st \<Longrightarrow> \<forall>f\<in>set fs. f < length (ws_futures s) \<Longrightarrow>
    simulates W m (settle_loop W fs s) st \<and> same_walk s (settle_loop W fs s) \<and>
    (\<forall>g. settled s g \<longrightarrow> settled (settle_loop W fs s) g) \<and>
    (calm_schedule W \<longrightarrow> (\<forall>f\<in>set fs. arrived W s f \<longrightarrow> settled (settle_loop W fs s) f))"
proof (induction fs arbitrary: s)
  case (Cons f fs)
  let ?s = "settle_step W f s"
  have f: "f < length (ws_futures s)" using Cons.prems(2) by simp
  have same: "same_walk s ?s" by (rule settle_step_same)
  have "\<forall>f\<in>set fs. f < length (ws_futures ?s)" using same Cons.prems(2) by (simp add: same_walk_def)
  note IH = Cons.IH [OF settle_step_simulates [OF Cons.prems(1) f] this]
  have arr: "arrived W ?s g = arrived W s g" if "calm_schedule W" for g
    using that same unfolding calm_schedule_def arrived_def same_walk_def by metis
  show ?case
    unfolding settle_loop_step [OF assms] using IH same_walk_trans [OF same] settle_step_settled [OF f, of W] arr by auto
qed simp

lemma settle_simulates:
  assumes "proper_schedule W" "simulates W m s st"
  shows "simulates W m (settleDNSFutures W s) st" "same_walk s (settleDNSFutures W s)"
    "calm_schedule W \<Longrightarrow> f < length (ws_futures s) \<Longrightarrow> arrived W s f \<Longrightarrow> settled (settleDNSFutures W s) f"
  using settle_loop_simulates [OF assms(1) assms(2), of "[0..<length (ws_futures s)]"] by (auto simp: settleDNSFutures_def)


subsection \<open>Waiting for the responses of a rule\<close>

definition ticks :: "walk_state \<Rightarrow> walk_state \<Rightarrow> bool" where
  "ticks s s' \<longleftrightarrow> (\<exists>t\<ge>ws_tick s. s' = s\<lparr>ws_tick := t\<rparr>)"

lemma ticks_refl [simp]: "ticks s s"
  unfolding ticks_def by (rule exI [of _ "ws_tick s"]) simp

lemma ticks_Suc [simp]: "ticks s (s\<lparr>ws_tick := Suc (ws_tick s)\<rparr>)"
  unfolding ticks_def by (rule exI [of _ "Suc (ws_tick s)"]) simp

lemma ticks_trans:
  assumes "ticks s s'" "ticks s' s''"
  shows "ticks s s''"
proof -
  obtain t u where "ws_tick s \<le> t" "s' = s\<lparr>ws_tick := t\<rparr>" "ws_tick s' \<le> u" "s'' = s'\<lparr>ws_tick := u\<rparr>"
    using assms by (auto simp: ticks_def)
  then have "ws_tick s \<le> u" "s'' = s\<lparr>ws_tick := u\<rparr>" by simp_all
  then show ?thesis unfolding ticks_def by blast
qed

lemma ticksD:
  assumes "ticks s s'"
  shows "same_walk s s'" "simulates W m s' st = simulates W m s st" "ws_responses s' = ws_responses s"
    "ws_transports s' = ws_transports s" "ws_futures s' = ws_futures s" "ws_metadata s' = ws_metadata s" "ws_armed s' = ws_armed s"
    "settled s' = settled s" "evaluated W s' = evaluated W s"
  using assms by (auto simp: ticks_def)

lemma same_walk_later: "same_walk s s' \<Longrightarrow> later s s'"
  by (simp add: same_walk_def)

lemma await_named_ticks:
  assumes "proper_schedule W"
  shows "await_named W tags s = (x, s') \<Longrightarrow> ticks s s' \<and>
    (case x of Some f \<Rightarrow> \<not> arrived W s f \<and> (\<exists>t. ws_named s t = Some f)
     | None \<Rightarrow> \<forall>t\<in>set tags. \<forall>f. ws_named s t = Some f \<longrightarrow> arrived W s' f)"
proof (induction tags arbitrary: s)
  case (Cons tag tags)
  let ?s = "s\<lparr>ws_tick := Suc (ws_tick s)\<rparr>"
  have mono: "arrived W s f \<Longrightarrow> ticks s s'' \<Longrightarrow> arrived W s'' f" for f s s''
    using arrived_later [OF assms] ticksD(1) same_walk_later by blast
  show ?case
  proof (cases "ws_named s tag")
    case None
    then show ?thesis using Cons.IH [of s] Cons.prems by (auto split: option.splits)
  next
    case (Some f)
    show ?thesis
    proof (cases "arrived W s f")
      case True
      then have "await_named W tags ?s = (x, s')" using Cons.prems Some by (simp add: resolved_simp)
      note IH = Cons.IH [OF this]
      then have "ticks s s'" using ticks_trans ticks_Suc by blast
      then show ?thesis using IH mono [of s] mono [of s _ ?s] True Some by (auto split: option.splits)
    next
      case False
      then have "x = Some f" "s' = ?s" using Cons.prems Some by (simp_all add: resolved_simp)
      then show ?thesis using False Some by auto
    qed
  qed
qed simp

lemma pending_anonymous_ticks:
  assumes "proper_schedule W" "pending_anonymous W s = (x, s')"
  shows "ticks s s' \<and> (case x of Some f \<Rightarrow> \<not> arrived W s f \<and> ws_anonymous s = Some f
    | None \<Rightarrow> \<forall>f. ws_anonymous s = Some f \<longrightarrow> arrived W s' f)"
  using assms(2) arrived_later [OF assms(1), of s _ s'] ticksD(1) [of s s', THEN same_walk_later]
  by (auto simp: pending_anonymous_def resolved_simp split: option.splits if_splits)

definition bound_arrived :: "walk_env \<Rightarrow> rule \<Rightarrow> walk_state \<Rightarrow> bool" where
  "bound_arrived W r s \<longleftrightarrow>
     (\<forall>t\<in>set (MatchResponseTags r). \<forall>f. ws_named s t = Some f \<longrightarrow> arrived W s f) \<and>
     (MatchResponseAnonymous r \<longrightarrow> (\<forall>f. ws_anonymous s = Some f \<longrightarrow> arrived W s f))"

lemma await_bindings_ticks:
  assumes "proper_schedule W" "await_bindings W r s = (x, s')"
  shows "ticks s s' \<and> (case x of Some f \<Rightarrow> \<not> arrived W s f \<and> (ws_anonymous s = Some f \<or> (\<exists>t. ws_named s t = Some f))
    | None \<Rightarrow> bound_arrived W r s')"
proof -
  obtain y s1 where a: "await_named W (MatchResponseTags r) s = (y, s1)" by fastforce
  note n = await_named_ticks [OF assms(1) a]
  have mono: "arrived W s f \<Longrightarrow> ticks s s' \<Longrightarrow> arrived W s' f" for f s s'
    using arrived_later [OF assms(1)] ticksD(1) same_walk_later by blast
  show ?thesis
  proof (cases "y = None \<and> MatchResponseAnonymous r")
    case True
    then have p: "pending_anonymous W s1 = (x, s')" using assms(2) a by (simp add: await_bindings_def)
    note q = pending_anonymous_ticks [OF assms(1) p]
    have same: "ws_named s1 = ws_named s" "ws_anonymous s1 = ws_anonymous s" "ws_named s' = ws_named s" "ws_anonymous s' = ws_anonymous s"
      using n q ticksD(1) by (auto simp: same_walk_def)
    show ?thesis using n q mono [of s _ s1] mono [of s1 _ s'] True ticks_trans [of s s1 s']
      by (auto simp: bound_arrived_def same split: option.splits)
  next
    case False
    then have "x = y" "s' = s1" using assms(2) a by (auto simp: await_bindings_def split: option.splits)
    moreover have "ws_named s1 = ws_named s" using n ticksD(1) by (auto simp: same_walk_def)
    ultimately show ?thesis using n False by (auto simp: bound_arrived_def split: option.splits)
  qed
qed


subsection \<open>One rule\<close>

lemma rule_metadata_idem: "rule_metadata (rule_metadata m a n) = rule_metadata m"
  by (simp add: rule_metadata_def [abs_def] ResetRuleCache_def ResetRuleMatchCache_def)

lemma rule_metadata_order:
  "rule_metadata m a n = (ResetRuleCache m)\<lparr>DestinationAddressMatchFromResponse := False, DNSResponse := a, NamedDNSResponses := n\<rparr>"
  by (simp add: rule_metadata_def)

lemma rule_metadata_clean: "\<not> IgnoreDestinationIPCIDRMatch m \<Longrightarrow> clean (rule_metadata m a n)"
  by (simp add: rule_metadata_def ResetRuleCache_def ResetRuleMatchCache_def clean_def)

lemma anonymousResponse_ticks:
  assumes "anonymousResponse W s = (response, s')"
  shows "ticks s s'"
    "(\<And>f. ws_anonymous s = Some f \<Longrightarrow> arrived W s f) \<Longrightarrow> response = last_response (map_option (evaluated W s) (ws_anonymous s))"
  using assms by (auto simp: anonymousResponse_def view_def resolved_simp last_response_def evaluated_def Let_def split: option.splits)

definition bound_settled :: "rule \<Rightarrow> walk_state \<Rightarrow> bool" where
  "bound_settled r s \<longleftrightarrow> (\<forall>t\<in>set (MatchResponseTags r). \<forall>f. ws_named s t = Some f \<longrightarrow> settled s f)"

lemma simulates_bound: "simulates W m s st \<Longrightarrow> ws_anonymous s = Some f \<or> ws_named s t = Some f \<Longrightarrow> f < length (ws_futures s)"
  unfolding simulates_def named_ok_def by blast

lemma bound_responses:
  assumes "simulates W m s st" "bound_settled r s" "t \<in> set (MatchResponseTags r)"
  shows "ws_responses s t = last_response (sq_named st t)"
    "sq_named st t \<noteq> None \<Longrightarrow> ws_transports s t = map_option fst (sq_named st t)"
proof (atomize (full), cases "ws_named s t")
  case None
  then have "ws_responses s t = None" "sq_named st t = None" using assms(1) unfolding simulates_def named_ok_def by auto
  then show "ws_responses s t = last_response (sq_named st t) \<and>
      (sq_named st t \<noteq> None \<longrightarrow> ws_transports s t = map_option fst (sq_named st t))" by (simp add: last_response_def)
next
  case (Some f)
  have "sq_named st t = Some (evaluated W s f)" using assms(1) Some by (simp add: simulates_def)
  moreover have "ws_responses s t = future_view W (ws_futures s) f \<and> ws_transports s t = Some (wf_server (ws_futures s ! f))"
    using assms Some unfolding simulates_def named_ok_def bound_settled_def by blast
  ultimately show "ws_responses s t = last_response (sq_named st t) \<and>
      (sq_named st t \<noteq> None \<longrightarrow> ws_transports s t = map_option fst (sq_named st t))"
    by (simp add: last_response_def evaluated_def)
qed

definition matched_state :: "inbound_context \<Rightarrow> walk_state \<Rightarrow> walk_state \<Rightarrow> bool" where
  "matched_state m s s' \<longleftrightarrow>
     (\<exists>t\<ge>ws_tick s. \<exists>m'. s' = s\<lparr>ws_tick := t, ws_metadata := m'\<rparr> \<and> rule_metadata m' = rule_metadata m)"

lemma match_sequential:
  assumes "simulates W m s st" "bound_arrived W r s" "bound_settled r s" "dns_ok r" "\<not> IgnoreDestinationIPCIDRMatch m"
    "anonymousResponse W s = (response, s1)" "match_with W response r s1 = (matched, s2)"
  shows "matched = seq_match W m r st" "matched_state m s s2"
proof -
  have meta: "rule_metadata (ws_metadata s1) = rule_metadata m"
    using assms(1,6) anonymousResponse_ticks(1) ticksD(6) by (metis simulates_def)
  let ?m = "rule_metadata m response (ws_responses s1)"
  have "rule_Match (we_rules W) r ?m = (sat (we_rules W) r ?m, ?m)"
    using refinesD [OF rule_Match_refines rule_metadata_clean] assms(5) by blast
  then have s2: "matched = sat (we_rules W) r ?m" "s2 = s1\<lparr>ws_metadata := ?m\<rparr>"
    using assms(7) by (simp_all add: match_with_def meta)
  have r: "ws_responses s1 = ws_responses s" using assms(6) anonymousResponse_ticks(1) ticksD(3) by metis
  have "same_responses r response (ws_responses s) (last_response (sq_anonymous st)) (\<lambda>t. last_response (sq_named st t))"
    using bound_responses(1) [OF assms(1,3)] anonymousResponse_ticks(2) [OF assms(6)] assms(1,2)
    by (auto simp: same_responses_def bound_arrived_def simulates_def)
  from sat_responses [OF assms(4) _ this, of "(ResetRuleCache m)\<lparr>DestinationAddressMatchFromResponse := False\<rparr>" "we_rules W"]
  show "matched = seq_match W m r st"
    unfolding s2 r seq_match_def rule_metadata_order by simp
  obtain t where "ws_tick s \<le> t" "s1 = s\<lparr>ws_tick := t\<rparr>" using anonymousResponse_ticks(1) [OF assms(6)] ticks_def by blast
  then show "matched_state m s s2" unfolding matched_state_def s2(2) using rule_metadata_idem by blast
qed

lemma matched_stateD:
  assumes "matched_state m s s'" "simulates W m s st"
  shows "simulates W m s' st" "same_walk s s'" "ws_armed s' = []" "ws_terminal s' = None" "bound_settled r s' = bound_settled r s"
  using assms by (auto simp: matched_state_def simulates_def named_ok_def evaluated_def [abs_def] settled_def same_walk_def
    later_def bound_settled_def)


lemma future_view_append: "f < length fs \<Longrightarrow> future_view W (fs @ gs) f = future_view W fs f"
  by (simp add: future_view_def nth_append)

lemma index_irrelevant: "simulates W m s st \<Longrightarrow> ws_ruleIndex s \<le> i \<Longrightarrow> simulates W m (s\<lparr>ws_ruleIndex := i\<rparr>) st"
  by (auto simp: simulates_def named_ok_def evaluated_def [abs_def] settled_def)

lemma launch_named:
  assumes "named_ok W s" "fu = \<lparr>wf_tag = tag, wf_terminal = False, wf_server = server, wf_options = q, wf_settled = False\<rparr>"
    "tag = '''' \<or> ws_named s tag = None"
    "s' = s\<lparr>ws_futures := ws_futures s @ [fu], ws_named := (if tag = '''' then ws_named s else (ws_named s)(tag \<mapsto> length (ws_futures s)))\<rparr>"
  shows "named_ok W s'"
  unfolding named_ok_def
proof (intro conjI allI impI)
  let ?n = "length (ws_futures s)"
  have fresh: "f < ?n \<Longrightarrow> wf_tag (ws_futures s ! f) \<noteq> tag \<or> tag = ''''" for f
    using named_unique(1) [OF assms(1), of f] assms(3) by (metis option.distinct(1))
  have named: "(ws_named s t = Some f) = (f < ?n \<and> t = wf_tag (ws_futures s ! f) \<and> t \<noteq> '''')" for t f
    using assms(1) unfolding named_ok_def by blast
  show "(ws_named s' t = Some f) = (f < length (ws_futures s') \<and> t = wf_tag (ws_futures s' ! f) \<and> t \<noteq> '''')" for t f
    using assms(2,4) fresh [of f] named [of t f] by (cases "f < ?n"; cases "f = ?n"; auto simp: nth_append)
  fix t
  show "ws_responses s' t = None" if "ws_named s' t = None"
  proof -
    have "ws_named s t = None" using that assms(4) by (auto split: if_splits)
    then show ?thesis using assms(1,4) by (simp add: named_ok_def)
  qed
  fix f
  assume f: "ws_named s' t = Some f" "settled s' f"
  have "f \<noteq> ?n" using f(2) assms(2,4) by (auto simp: settled_def)
  then have old: "ws_named s t = Some f" using f(1) assms(4) by (auto split: if_splits)
  then have n: "f < ?n" using named by simp
  then have "settled s f" using f(2) assms(4) by (simp add: settled_def nth_append)
  then have "ws_responses s t = future_view W (ws_futures s) f \<and> ws_transports s t = Some (wf_server (ws_futures s ! f))"
    using assms(1) old unfolding named_ok_def by blast
  then show "ws_responses s' t = future_view W (ws_futures s') f" "ws_transports s' t = Some (wf_server (ws_futures s' ! f))"
    using assms(4) n by (simp_all add: future_view_append nth_append)
qed

lemma evaluate_sequential:
  assumes "simulates W m s st" "tag = '''' \<or> sq_named st tag = None"
  obtains s' where "walk_evaluate W server opts tag speculative s = (Next, s')" "later s s'" "ws_epoch s' = ws_epoch s"
    "simulates W m (s'\<lparr>ws_ruleIndex := Suc (ws_ruleIndex s)\<rparr>) (seq_evaluate W server opts tag st)"
proof (cases "we_transport W server")
  case None
  then show ?thesis
    using that [of "if tag = '''' then s\<lparr>ws_anonymous := None\<rparr> else s"] assms(1)
    by (auto simp: walk_evaluate_def seq_evaluate_def later_def simulates_def named_ok_def evaluated_def [abs_def] settled_def)
next
  case (Some isFakeIP)
  let ?n = "length (ws_futures s)" and ?q = "finalizeExchangeOptions W (applyDNSRouteOptions opts (ws_options s))"
  define fu where "fu = \<lparr>wf_tag = tag, wf_terminal = False, wf_server = server, wf_options = ?q, wf_settled = False\<rparr>"
  define s1 where "s1 = s\<lparr>ws_futures := ws_futures s @ [fu],
    ws_named := (if tag = '''' then ws_named s else (ws_named s)(tag \<mapsto> ?n))\<rparr>"
  define s' where "s' = (if tag = '''' then s1\<lparr>ws_anonymous := Some ?n\<rparr> else s1)"
  have walk: "walk_evaluate W server opts tag speculative s = (Next, s')"
    using Some assms(1) by (simp add: walk_evaluate_def launchDNSEvaluate_def s'_def s1_def fu_def simulates_def)
  have "named_ok W s1"
    by (rule launch_named [OF _ fu_def _ s1_def]) (use assms in \<open>auto simp: simulates_def\<close>)
  then have "named_ok W (s'\<lparr>ws_ruleIndex := Suc (ws_ruleIndex s)\<rparr>)" by (simp add: s'_def named_ok_def settled_def)
  moreover have old: "evaluated W s' f = evaluated W s f" if "f < ?n" for f
    using that by (simp add: s'_def s1_def evaluated_def future_view_append nth_append)
  have "map_option (evaluated W s') (ws_anonymous s) = map_option (evaluated W s) (ws_anonymous s)"
    using assms(1) old by (cases "ws_anonymous s") (auto simp: simulates_def)
  moreover have named: "map_option (evaluated W s') (ws_named s t) = map_option (evaluated W s) (ws_named s t)" for t
  proof (cases "ws_named s t")
    case (Some f)
    then have "f < ?n" using assms(1) unfolding simulates_def named_ok_def by blast
    then show ?thesis using Some old by simp
  qed simp
  moreover have "evaluated W s' ?n = (server, seq_answer W ?n server (applyDNSRouteOptions opts (ws_options s)))"
    by (simp add: s'_def s1_def evaluated_def future_view_def seq_answer_def fu_def)
  moreover have "evaluated W (s'\<lparr>ws_ruleIndex := Suc (ws_ruleIndex s)\<rparr>) = evaluated W s'" by (simp add: evaluated_def [abs_def])
  moreover have "ws_armed s' = ws_armed s" "ws_terminal s' = ws_terminal s" "ws_metadata s' = ws_metadata s" "ws_options s' = ws_options s"
      "length (ws_futures s') = Suc ?n" "ws_anonymous s' = (if tag = '''' then Some ?n else ws_anonymous s)"
      "ws_named s' = (if tag = '''' then ws_named s else (ws_named s)(tag \<mapsto> ?n))"
    by (simp_all add: s'_def s1_def)
  moreover have "(\<lambda>t. map_option (evaluated W s') (((ws_named s)(tag \<mapsto> ?n)) t)) =
      (\<lambda>t. map_option (evaluated W s) (ws_named s t))(tag \<mapsto> evaluated W s' ?n)" using named by (simp add: fun_eq_iff)
  ultimately have "simulates W m (s'\<lparr>ws_ruleIndex := Suc (ws_ruleIndex s)\<rparr>) (seq_evaluate W server opts tag st)"
    using assms(1) Some by (auto simp: simulates_def seq_evaluate_def Let_def)
  then show ?thesis using that walk by (simp add: later_def s'_def s1_def)
qed


text \<open>How the outcome of a step of the walk fits the result \<open>spec\<close> of the same step of the specification.\<close>

fun outcome_ok ::
  "walk_env \<Rightarrow> inbound_context \<Rightarrow> walk_state \<Rightarrow> seq_state \<Rightarrow> walk_result + seq_state \<Rightarrow> walk_outcome \<Rightarrow> walk_state \<Rightarrow> bool" where
  "outcome_ok W m s st spec Next s' \<longleftrightarrow>
     (\<exists>st'. spec = Inr st' \<and> simulates W m (s'\<lparr>ws_ruleIndex := Suc (ws_ruleIndex s)\<rparr>) st')"
| "outcome_ok W m s st spec (Done result) s' \<longleftrightarrow> spec = Inl result"
| "outcome_ok W m s st spec (Suspended (Await f)) s' \<longleftrightarrow>
     simulates W m s' st \<and> ws_ruleIndex s' = ws_ruleIndex s \<and> f < length (ws_futures s') \<and> \<not> arrived W s f"
| "outcome_ok W m s st spec (Suspended (Pending p)) s' \<longleftrightarrow>
     simulates W m s' st \<and> pe_future p = None \<and> spec = Inl (finishPendingExchange W p s')"
| "outcome_ok W m s st spec (Suspended Drain) s' \<longleftrightarrow> False"

definition step_ok :: "walk_env \<Rightarrow> inbound_context \<Rightarrow> walk_state \<Rightarrow> seq_state \<Rightarrow> walk_result + seq_state \<Rightarrow> walk_outcome \<times> walk_state \<Rightarrow> bool" where
  "step_ok W m s st spec out \<longleftrightarrow>
     outcome_ok W m s st spec (fst out) (snd out) \<and> later s (snd out) \<and> ws_epoch (snd out) = ws_epoch s"

lemma step_ok_from:
  assumes "proper_schedule W" "same_walk s s1" "step_ok W m s1 st spec out"
  shows "step_ok W m s st spec out"
proof -
  have "\<not> arrived W s1 f \<Longrightarrow> \<not> arrived W s f" for f using arrived_later assms(1,2) same_walk_later by blast
  then have "outcome_ok W m s1 st spec o1 s' \<Longrightarrow> outcome_ok W m s st spec o1 s'" for o1 s'
    using assms(2) by (induction W m s st spec o1 s' rule: outcome_ok.induct) (auto simp: same_walk_def)
  then show ?thesis using assms(2,3) by (auto simp: step_ok_def same_walk_def later_def)
qed

lemma respond_sequential:
  assumes "proper_schedule W" "simulates W m s st" "bound_settled r s" "dns_ok r"
    "MatchResponseAnonymous r \<Longrightarrow> (\<And>f. ws_anonymous s = Some f \<Longrightarrow> arrived W s f)"
    "MatchResponseTag r = '''' \<Longrightarrow> MatchResponseTags r = []"
  shows "step_ok W m s st (Inl (seq_respond r st)) (walk_respond W r s)"
proof -
  have anon: "sq_anonymous st = map_option (evaluated W s) (ws_anonymous s)" "ws_armed s = []" using assms(2) by (simp_all add: simulates_def)
  show ?thesis
  proof (cases "MatchResponseTag r = ''''")
    case False
    then have "MatchResponseTag r \<in> set (MatchResponseTags r)" by (cases r) auto
    note b = bound_responses [OF assms(2,3) this]
    have "respond_result (ws_responses s (MatchResponseTag r)) (ws_transports s (MatchResponseTag r)) = seq_respond r st"
      using b False by (cases "sq_named st (MatchResponseTag r)") (simp_all add: seq_respond_def respond_result_def last_response_def split: option.split)
    then show ?thesis using False anon(2) by (simp add: walk_respond_def step_ok_def Let_def)
  next
    case True
    obtain x s1 where x: "(if \<not> matches_response r then pending_anonymous W s else (None, s)) = (x, s1)" by fastforce
    have t: "ticks s s1" "case x of Some f \<Rightarrow> \<not> arrived W s f \<and> ws_anonymous s = Some f
        | None \<Rightarrow> \<forall>f. ws_anonymous s = Some f \<longrightarrow> arrived W s1 f"
      using x pending_anonymous_ticks [OF assms(1), of s x s1] assms(5,6) True
      by (auto simp: matches_response_def split: if_splits)
    note d = ticksD [OF t(1)]
    show ?thesis
    proof (cases x)
      case (Some f)
      have "f < length (ws_futures s1)" using simulates_bound [OF assms(2)] t(2) Some d(5) by simp
      then show ?thesis using x Some True anon(2) t(2) assms(2) d(1,2) by (simp add: walk_respond_def step_ok_def same_walk_def)
    next
      case None
      obtain response s2 where a: "anonymousResponse W s1 = (response, s2)" by fastforce
      note at = anonymousResponse_ticks [OF a] and d2 = ticksD [OF anonymousResponse_ticks(1) [OF a]]
      have same: "ws_anonymous s1 = ws_anonymous s" "ws_anonymous s2 = ws_anonymous s" "ws_futures s2 = ws_futures s"
        using d(1,5) d2(1,5) by (simp_all add: same_walk_def)
      have "response = last_response (sq_anonymous st)" using at(2) t(2) None same anon(1) d(9) by simp
      moreover have "map_option (\<lambda>f. wf_server (ws_futures s2 ! f)) (ws_anonymous s2) = map_option fst (sq_anonymous st)"
        by (simp add: same anon option.map_comp evaluated_def comp_def)
      ultimately have "walk_respond W r s = (Done (seq_respond r st), s2)"
        using x None True anon(2) a by (simp add: walk_respond_def seq_respond_def Let_def)
      then show ?thesis using d(1) d2(1) same_walk_trans [OF d(1) d2(1)] by (simp add: step_ok_def same_walk_def)
    qed
  qed
qed


lemma finish_sequential:
  "simulates W m s st \<Longrightarrow> finishPendingExchange W \<lparr>pe_transport = server, pe_options = q, pe_future = None\<rparr> s = seq_exchange W server q st"
  by (simp add: finishPendingExchange_def seq_exchange_def simulates_def)

text \<open>Conditions on a rule that validation guarantees, with the names that are taken.\<close>

definition rule_fits :: "walk_env \<Rightarrow> seq_state \<Rightarrow> rule \<times> dns_rule_action \<Rightarrow> bool" where
  "rule_fits W st rule \<longleftrightarrow>
     (case rule of
        (r, a) \<Rightarrow>
          dns_ok r \<and> \<not> da_Race a \<and>
          (da_Action a = DNSRespondAction \<and> MatchResponseTag r = '''' \<longrightarrow> MatchResponseTags r = []) \<and>
          (\<forall>server opts tag speculative. da_Action a = DNSEvaluateAction server opts tag speculative \<longrightarrow>
             tag = '''' \<or> sq_named st tag = None) \<and>
          (calm_schedule W \<or> MatchResponseTags r = []))"

lemma action_sequential:
  assumes "proper_schedule W" "simulates W m s st" "bound_settled r s" "rule_fits W st (r, a)"
    "MatchResponseAnonymous r \<Longrightarrow> (\<And>f. ws_anonymous s = Some f \<Longrightarrow> arrived W s f)"
  shows "step_ok W m s st (seq_action W allowFakeIP (ws_ruleIndex s) r (da_Action a) st) (walk_action W allowFakeIP r (da_Action a) s)"
proof -
  have c: "ws_armed s = []" "ws_terminal s = None" "sq_options st = ws_options s" using assms(2) by (simp_all add: simulates_def)
  have stay: "step_ok W m s st (Inr st) (Next, s)"
    using index_irrelevant [OF assms(2), of "Suc (ws_ruleIndex s)"] by (simp add: step_ok_def)
  show ?thesis
  proof (cases "da_Action a")
    case NoDNSAction
    then show ?thesis using stay by (simp add: walk_action_def seq_action_def)
  next
    case (DNSRouteAction server opts speculative)
    obtain status q where "resolveDNSRoute W server opts allowFakeIP (ws_options s) = (status, q)" by fastforce
    then show ?thesis using DNSRouteAction stay c assms(2) finish_sequential [OF assms(2)]
      by (cases status) (simp_all add: walk_action_def seq_action_def walk_route_def step_ok_def)
  next
    case (DNSRouteOptionsAction opts)
    have "simulates W m (s\<lparr>ws_options := applyDNSRouteOptions opts (ws_options s), ws_ruleIndex := Suc (ws_ruleIndex s)\<rparr>)
        (st\<lparr>sq_options := applyDNSRouteOptions opts (ws_options s)\<rparr>)"
      using assms(2) by (auto simp: simulates_def named_ok_def evaluated_def [abs_def] settled_def)
    then show ?thesis using DNSRouteOptionsAction c by (simp add: walk_action_def seq_action_def step_ok_def later_def)
  next
    case (DNSEvaluateAction server opts tag speculative)
    then have "tag = '''' \<or> sq_named st tag = None" using assms(4) by (simp add: rule_fits_def)
    from evaluate_sequential [OF assms(2) this, of server opts speculative] obtain s'
      where "walk_evaluate W server opts tag speculative s = (Next, s')" "later s s'" "ws_epoch s' = ws_epoch s"
        "simulates W m (s'\<lparr>ws_ruleIndex := Suc (ws_ruleIndex s)\<rparr>) (seq_evaluate W server opts tag st)" by blast
    then show ?thesis using DNSEvaluateAction by (simp add: walk_action_def seq_action_def step_ok_def)
  next
    case DNSRespondAction
    then show ?thesis using respond_sequential [OF assms(1-3)] assms(4,5)
      by (simp add: walk_action_def seq_action_def rule_fits_def)
  next
    case (DNSRejectAction reject_method)
    then show ?thesis using stay c by (cases "reject_result reject_method") (simp_all add: walk_action_def seq_action_def step_ok_def)
  next
    case DNSPredefinedAction
    then show ?thesis using c by (simp add: walk_action_def seq_action_def step_ok_def)
  qed
qed

lemma match_step:
  assumes "proper_schedule W" "simulates W m s st" "bound_arrived W r s" "bound_settled r s" "rule_fits W st (r, a)"
    "\<not> IgnoreDestinationIPCIDRMatch m"
  shows "step_ok W m s st (seq_rule W allowFakeIP m (ws_ruleIndex s) (r, a) st) (walk_match W allowFakeIP r (da_Action a) s)"
proof -
  obtain response s1 where a: "anonymousResponse W s = (response, s1)" by fastforce
  obtain matched s2 where b: "match_with W response r s1 = (matched, s2)" by fastforce
  have dns: "dns_ok r" using assms(5) by (simp add: rule_fits_def)
  note c = match_sequential [OF assms(2-4) dns assms(6) a b]
  note d = matched_stateD [OF c(2) assms(2)]
  have i: "ws_ruleIndex s2 = ws_ruleIndex s" "ws_anonymous s2 = ws_anonymous s" using d(2) by (simp_all add: same_walk_def)
  have arrived: "MatchResponseAnonymous r \<Longrightarrow> ws_anonymous s2 = Some f \<Longrightarrow> arrived W s2 f" for f
    using assms(3) arrived_later [OF assms(1) _ same_walk_later [OF d(2)]] i(2) by (simp add: bound_arrived_def)
  have "step_ok W m s2 st (seq_rule W allowFakeIP m (ws_ruleIndex s) (r, a) st) (walk_match W allowFakeIP r (da_Action a) s)"
  proof (cases matched)
    case True
    then have eqs: "walk_match W allowFakeIP r (da_Action a) s = walk_action W allowFakeIP r (da_Action a) s2"
      "seq_rule W allowFakeIP m (ws_ruleIndex s) (r, a) st = seq_action W allowFakeIP (ws_ruleIndex s2) r (da_Action a) st"
      using a b c(1) i(1) by (simp_all add: walk_match_def seq_rule_def)
    show ?thesis unfolding eqs by (rule action_sequential [OF assms(1) d(1) _ assms(5) arrived]) (simp add: d(5) assms(4))
  next
    case False
    then have "walk_match W allowFakeIP r (da_Action a) s = (Next, s2)" "seq_rule W allowFakeIP m (ws_ruleIndex s) (r, a) st = Inr st"
      using a b c(1) by (simp_all add: walk_match_def seq_rule_def)
    then show ?thesis using index_irrelevant [OF d(1), of "Suc (ws_ruleIndex s2)"] by (simp add: step_ok_def)
  qed
  then show ?thesis by (rule step_ok_from [OF assms(1) d(2)])
qed

lemma rule_step:
  assumes "proper_schedule W" "simulates W m s st" "rule_fits W st rule" "\<not> IgnoreDestinationIPCIDRMatch m"
  shows "step_ok W m s st (seq_rule W allowFakeIP m (ws_ruleIndex s) rule st) (walk_rule W allowFakeIP rule s)"
proof (cases rule)
  case (Pair r a)
  show ?thesis
  proof (cases "matches_response r")
    case False
    then have "bound_arrived W r s" "bound_settled r s" by (simp_all add: matches_response_def bound_arrived_def bound_settled_def)
    from match_step [OF assms(1,2) this _ assms(4)] show ?thesis using assms(3) False Pair by (simp add: walk_rule_def)
  next
    case True
    let ?s = "settleDNSFutures W s"
    note st = settle_simulates [OF assms(1,2)]
    obtain x s1 where x: "await_bindings W r ?s = (x, s1)" by fastforce
    note aw = await_bindings_ticks [OF assms(1) x]
    note d = ticksD [OF conjunct1 [OF aw]]
    have same: "same_walk s s1" by (rule same_walk_trans [OF st(2) d(1)])
    have walk: "walk_rule W allowFakeIP rule s = (case x of Some f \<Rightarrow> (Suspended (Await f), s1) | None \<Rightarrow> walk_match W allowFakeIP r (da_Action a) s1)"
      using assms(3) True Pair x by (simp add: walk_rule_def rule_fits_def split: option.split)
    show ?thesis
    proof (cases x)
      case (Some f)
      have "\<not> arrived W s f" using aw Some arrived_later [OF assms(1) _ same_walk_later [OF st(2)]] by auto
      moreover have "f < length (ws_futures s1)"
        using aw Some simulates_bound [OF st(1)] d(5) by auto
      ultimately show ?thesis
        using walk Some same st(1) d(2) by (simp add: step_ok_def same_walk_def)
    next
      case None
      have sim: "simulates W m s1 st" using st(1) d(2) by simp
      have bound: "bound_arrived W r s1" using aw None by simp
      have "bound_settled r s1"
      proof (cases "calm_schedule W")
        case True
        then have calm: "arrived W s1 f = arrived W s f" for f
          using same unfolding calm_schedule_def arrived_def same_walk_def by metis
        show ?thesis unfolding bound_settled_def
        proof (intro ballI allI impI)
          fix t f
          assume t: "t \<in> set (MatchResponseTags r)" "ws_named s1 t = Some f"
          then have "arrived W s f" using bound calm by (simp add: bound_arrived_def)
          moreover have "f < length (ws_futures s)" using simulates_bound [OF assms(2), of f t] t(2) same by (simp add: same_walk_def)
          ultimately show "settled s1 f" using st(3) True d(8) by simp
        qed
      next
        case False
        then show ?thesis using assms(3) Pair by (simp add: rule_fits_def bound_settled_def)
      qed
      from match_step [OF assms(1) sim bound this _ assms(4), of a allowFakeIP] assms(3) Pair
      have "step_ok W m s1 st (seq_rule W allowFakeIP m (ws_ruleIndex s) rule st) (walk_rule W allowFakeIP rule s)"
        using walk None same by (simp add: same_walk_def)
      then show ?thesis by (rule step_ok_from [OF assms(1) same])
    qed
  qed
qed


subsection \<open>All rules\<close>

definition steady_rule :: "walk_env \<Rightarrow> rule \<times> dns_rule_action \<Rightarrow> bool" where
  "steady_rule W rule \<longleftrightarrow>
     (case rule of
        (r, a) \<Rightarrow>
          dns_ok r \<and> \<not> da_Race a \<and>
          (da_Action a = DNSRespondAction \<and> MatchResponseTag r = '''' \<longrightarrow> MatchResponseTags r = []) \<and>
          (calm_schedule W \<or> MatchResponseTags r = []))"

definition walk_fits :: "walk_env \<Rightarrow> seq_state \<Rightarrow> (rule \<times> dns_rule_action) list \<Rightarrow> bool" where
  "walk_fits W st rules \<longleftrightarrow>
     list_all (steady_rule W) rules \<and> (\<exists>named anonymous. dom (sq_named st) \<subseteq> named \<and> response_rules named anonymous rules)"

lemma walk_fits_Cons:
  assumes "walk_fits W st (rule # rules)"
  shows "rule_fits W st rule" "seq_rule W allowFakeIP m i rule st = Inr st' \<Longrightarrow> walk_fits W st' rules"
proof -
  obtain r a where ra: "rule = (r, a)" by (cases rule)
  obtain named anonymous where n: "dom (sq_named st) \<subseteq> named" "response_rules named anonymous ((r, a) # rules)"
    using assms ra by (auto simp: walk_fits_def)
  have fresh: "tag = '''' \<or> sq_named st tag = None" if "da_Action a = DNSEvaluateAction server opts tag speculative"
    for server opts tag speculative
  proof (cases "tag = ''''")
    case False
    then have "tag \<notin> named" using n(2) that by simp
    then show ?thesis using n(1) by blast
  qed simp
  have "steady_rule W (r, a)" using assms ra by (simp add: walk_fits_def)
  then show "rule_fits W st rule" using fresh unfolding ra steady_rule_def rule_fits_def prod.case by blast
  assume step: "seq_rule W allowFakeIP m i rule st = Inr st'"
  have "\<exists>named anonymous. dom (sq_named st') \<subseteq> named \<and> response_rules named anonymous rules"
  proof (cases "\<exists>server opts tag speculative. da_Action a = DNSEvaluateAction server opts tag speculative")
    case True
    then obtain server opts tag speculative where e: "da_Action a = DNSEvaluateAction server opts tag speculative" by blast
    have "dom (sq_named st') \<subseteq> (if tag = '''' then dom (sq_named st) else insert tag (dom (sq_named st)))"
      using step ra e by (auto simp: seq_rule_def seq_action_def seq_evaluate_def Let_def split: if_splits)
    then have "dom (sq_named st') \<subseteq> (if tag = '''' then named else insert tag named)" using n(1) by (cases "tag = ''''") auto
    then show ?thesis using n(2) e by (auto split: if_splits)
  next
    case False
    then have "sq_named st' = sq_named st"
      using step ra by (auto simp: seq_rule_def seq_action_def split: dns_action.splits if_splits option.splits prod.splits dnsRouteStatus.splits)
    moreover have "response_rules named anonymous rules" using n(2) False by (auto split: dns_action.splits)
    ultimately show ?thesis using n(1) by auto
  qed
  then show "walk_fits W st' rules" using assms by (simp add: walk_fits_def)
qed

definition rest_result :: "walk_env \<Rightarrow> bool \<Rightarrow> inbound_context \<Rightarrow> (rule \<times> dns_rule_action) list \<Rightarrow> walk_state \<Rightarrow> seq_state \<Rightarrow> walk_result" where
  "rest_result W allowFakeIP m rules s st = seq_rules W allowFakeIP m (ws_ruleIndex s) (drop (ws_ruleIndex s) rules) st"

fun walk_ok ::
  "walk_env \<Rightarrow> bool \<Rightarrow> inbound_context \<Rightarrow> (rule \<times> dns_rule_action) list \<Rightarrow> walk_state \<Rightarrow> walk_result \<Rightarrow>
     (walk_result + walk_suspension) \<times> walk_state \<Rightarrow> bool" where
  "walk_ok W allowFakeIP m rules s spec (Inl result, s') \<longleftrightarrow> result = spec"
| "walk_ok W allowFakeIP m rules s spec (Inr (Await f), s') \<longleftrightarrow>
     (\<exists>st. simulates W m s' st \<and> walk_fits W st (drop (ws_ruleIndex s') rules) \<and> rest_result W allowFakeIP m rules s' st = spec) \<and>
     f < length rules \<and> \<not> arrived W s f \<and> later s s' \<and> ws_epoch s' = ws_epoch s"
| "walk_ok W allowFakeIP m rules s spec (Inr (Pending p), s') \<longleftrightarrow>
     (\<exists>st. simulates W m s' st) \<and> pe_future p = None \<and> finishPendingExchange W p s' = spec"
| "walk_ok W allowFakeIP m rules s spec (Inr Drain, s') \<longleftrightarrow> False"

lemma walk_ok_from:
  assumes "proper_schedule W" "later s s1" "ws_epoch s1 = ws_epoch s" "walk_ok W allowFakeIP m rules s1 spec out"
  shows "walk_ok W allowFakeIP m rules s spec out"
proof -
  have "\<not> arrived W s1 f \<Longrightarrow> \<not> arrived W s f" for f using arrived_later assms(1,2) by blast
  then show ?thesis
    using assms(2-4) later_trans by (induction W allowFakeIP m rules s1 spec out rule: walk_ok.induct) auto
qed

lemma walk_simulates:
  assumes "proper_schedule W" "\<not> IgnoreDestinationIPCIDRMatch m"
  shows "simulates W m s st \<Longrightarrow> walk_fits W st (drop (ws_ruleIndex s) rules) \<Longrightarrow>
    walk_ok W allowFakeIP m rules s (rest_result W allowFakeIP m rules s st) (walkDNSRules W allowFakeIP rules s)"
proof (induction "length rules - ws_ruleIndex s" arbitrary: s st rule: less_induct)
  case less
  note sim = less.prems(1)
  show ?case
  proof (cases "ws_ruleIndex s < length rules")
    case False
    then show ?thesis using finish_sequential [OF sim] sim
      by (subst walkDNSRules.simps) (auto simp: rest_result_def simulates_def)
  next
    case True
    let ?i = "ws_ruleIndex s" and ?rule = "rules ! ws_ruleIndex s"
    have drop: "drop ?i rules = ?rule # drop (Suc ?i) rules" using True by (simp add: Cons_nth_drop_Suc)
    note fit = walk_fits_Cons [OF less.prems(2) [unfolded drop]]
    have spec: "rest_result W allowFakeIP m rules s st = (case seq_rule W allowFakeIP m ?i ?rule st of
        Inl result \<Rightarrow> result | Inr st \<Rightarrow> seq_rules W allowFakeIP m (Suc ?i) (drop (Suc ?i) rules) st)"
      by (simp add: rest_result_def drop split: sum.split)
    obtain out s' where w: "walk_rule W allowFakeIP ?rule s = (out, s')" by fastforce
    have step: "outcome_ok W m s st (seq_rule W allowFakeIP m ?i ?rule st) out s'" "later s s'" "ws_epoch s' = ws_epoch s"
      using rule_step [OF assms(1) sim fit(1) assms(2), of allowFakeIP] w by (simp_all add: step_ok_def)
    note walk = walkDNSRules.simps [of W allowFakeIP rules s]
    consider "out = Next" | result where "out = Done result" | f where "out = Suspended (Await f)" | p where "out = Suspended (Pending p)"
      using step(1) by (cases out; metis outcome_ok.simps(5) walk_suspension.exhaust)
    then show ?thesis
    proof cases
      case 1
      let ?s = "s'\<lparr>ws_ruleIndex := Suc ?i\<rparr>"
      obtain st' where st': "seq_rule W allowFakeIP m ?i ?rule st = Inr st'" "simulates W m ?s st'" using step(1) 1 by auto
      have "walk_ok W allowFakeIP m rules ?s (rest_result W allowFakeIP m rules ?s st') (walkDNSRules W allowFakeIP rules ?s)"
        by (rule less.hyps) (use True st'(2) fit(2) [OF st'(1)] in auto)
      moreover have "rest_result W allowFakeIP m rules ?s st' = rest_result W allowFakeIP m rules s st"
        using spec st'(1) by (simp add: rest_result_def)
      moreover have "walkDNSRules W allowFakeIP rules s = walkDNSRules W allowFakeIP rules ?s" using walk True w 1 by simp
      moreover have "later s ?s" "ws_epoch ?s = ws_epoch s" using step(2,3) by (simp_all add: later_def)
      ultimately show ?thesis using walk_ok_from [OF assms(1)] by metis
    next
      case (2 result)
      then show ?thesis using walk True w step(1) spec by simp
    next
      case (3 f)
      have "f < length (ws_futures s')" "ws_ruleIndex s' = ?i" "simulates W m s' st" using step(1) 3 by auto
      moreover from this have "f < length rules" using True by (auto simp: simulates_def)
      ultimately show ?thesis using walk True w step 3 less.prems(2) by (auto simp: rest_result_def)
    next
      case (4 p)
      then show ?thesis using walk True w step(1) spec by auto
    qed
  qed
qed


subsection \<open>The loop around the walk\<close>

lemma sweep_nothing: "ws_armed s = [] \<Longrightarrow> sweepArmedDNSRules W allowFakeIP s = (None, s)"
  by (cases s) (simp add: sweepArmedDNSRules_def)

lemma turn_settled:
  assumes "proper_schedule W" "simulates W m s st"
  shows "sweepArmedDNSRules W allowFakeIP (settleDNSFutures W s) = (None, settleDNSFutures W s)"
  using settle_simulates(1) [OF assms] by (intro sweep_nothing) (simp add: simulates_def)

lemma resume_pending:
  assumes "proper_schedule W" "simulates W m s st" "pe_future p = None"
  shows "resumeExchangeWithRules W allowFakeIP rules (Pending p) s = Some (finishPendingExchange W p s)"
  using turn_settled [OF assms(1,2)] settle_simulates(2) [OF assms(1,2)] assms(3)
  by (simp add: resumeExchangeWithRules.simps resume_turn_def finishPendingExchange_def same_walk_def)

lemma resume_await:
  assumes "proper_schedule W" "simulates W m s st" "s1 = (settleDNSFutures W s)\<lparr>ws_tick := Suc (ws_tick (settleDNSFutures W s))\<rparr>"
  shows "resumeExchangeWithRules W allowFakeIP rules (Await f) s =
    (if \<not> arrived W (settleDNSFutures W s) f
     then resumeExchangeWithRules W allowFakeIP rules (Await f) (s1\<lparr>ws_epoch := ws_epoch s1 + 1\<rparr>)
     else case walkDNSRules W allowFakeIP rules s1 of
       (Inl result, s') \<Rightarrow> Some result | (Inr suspension, s') \<Rightarrow> resumeExchangeWithRules W allowFakeIP rules suspension s')"
proof -
  have "\<not> we_cancelled W e" for e using assms(1) by (simp add: proper_schedule_def)
  then show ?thesis
    using turn_settled [OF assms(1,2)] assms(3)
    by (subst resumeExchangeWithRules.simps) (simp add: resume_turn_def must_wait_def resolved_simp split: prod.split sum.split)
qed

definition waiting :: "walk_env \<Rightarrow> nat \<Rightarrow> walk_state \<Rightarrow> nat set" where
  "waiting W n s = {f. f < n \<and> \<not> arrived W s f}"

lemma waiting_later: "proper_schedule W \<Longrightarrow> later s s' \<Longrightarrow> waiting W n s' \<subseteq> waiting W n s"
  using arrived_later by (auto simp: waiting_def)

lemma all_arrive:
  assumes "proper_schedule W"
  obtains b where "\<And>e t f. b \<le> e \<Longrightarrow> f < n \<Longrightarrow> we_resolved W e t f"
proof -
  have "\<forall>f. \<exists>b. \<forall>e\<ge>b. \<forall>t. we_resolved W e t f" using assms by (simp add: proper_schedule_def)
  then obtain c where c: "\<And>f e t. c f \<le> e \<Longrightarrow> we_resolved W e t f" by metis
  have "c f \<le> (\<Sum>f<n. c f)" if "f < n" for f using that by (intro member_le_sum) auto
  then show thesis using that [of "\<Sum>f<n. c f"] c by (meson le_trans)
qed

lemma resume_sequential:
  assumes "proper_schedule W" "\<not> IgnoreDestinationIPCIDRMatch m"
    "\<And>e t f. b \<le> e \<Longrightarrow> f < length rules \<Longrightarrow> we_resolved W e t f"
  shows "simulates W m s st \<Longrightarrow> walk_fits W st (drop (ws_ruleIndex s) rules) \<Longrightarrow> f < length rules \<Longrightarrow>
    resumeExchangeWithRules W allowFakeIP rules (Await f) s = Some (rest_result W allowFakeIP m rules s st)"
proof (induction "card (insert f (waiting W (length rules) s)) + (b - ws_epoch s)" arbitrary: s st f rule: less_induct)
  case less
  let ?n = "length rules" and ?s0 = "settleDNSFutures W s"
  define s1 where "s1 = ?s0\<lparr>ws_tick := Suc (ws_tick ?s0)\<rparr>"
  note settle = settle_simulates [OF assms(1) less.prems(1)]
  have same: "same_walk s s1" using same_walk_trans [OF settle(2)] by (simp add: s1_def)
  have sim: "simulates W m s1 st" using settle(1) by (simp add: s1_def)
  have rest: "rest_result W allowFakeIP m rules s1 st = rest_result W allowFakeIP m rules s st"
    using same by (simp add: rest_result_def same_walk_def)
  have fin: "finite (insert g (waiting W ?n s'))" for g s' by (simp add: waiting_def)
  have later: "waiting W ?n s1 \<subseteq> waiting W ?n s" by (rule waiting_later [OF assms(1) same_walk_later [OF same]])
  note resume = resume_await [OF assms(1) less.prems(1) s1_def, of allowFakeIP rules f]
  show ?case
  proof (cases "arrived W ?s0 f")
    case False
    let ?s2 = "s1\<lparr>ws_epoch := ws_epoch s1 + 1\<rparr>"
    have e: "ws_epoch s < b"
    proof (rule ccontr)
      assume "\<not> ws_epoch s < b"
      then have "arrived W ?s0 f" using assms(3) less.prems(3) settle(2) by (simp add: arrived_def same_walk_def)
      then show False using False by simp
    qed
    have "waiting W ?n ?s2 \<subseteq> waiting W ?n s1" by (rule waiting_later [OF assms(1)]) (simp add: later_def)
    then have "card (insert f (waiting W ?n ?s2)) \<le> card (insert f (waiting W ?n s))"
      using later by (intro card_mono [OF fin]) auto
    then have "resumeExchangeWithRules W allowFakeIP rules (Await f) ?s2 = Some (rest_result W allowFakeIP m rules ?s2 st)"
      using e same sim less.prems(2,3) by (intro less.hyps) (simp_all add: same_walk_def)
    then show ?thesis using resume False rest by (simp add: rest_result_def)
  next
    case True
    have f: "f \<notin> waiting W ?n s1"
      using arrived_later [OF assms(1) True, of s1] by (simp add: waiting_def s1_def later_def)
    obtain out s' where w: "walkDNSRules W allowFakeIP rules s1 = (out, s')" by fastforce
    have ok: "walk_ok W allowFakeIP m rules s1 (rest_result W allowFakeIP m rules s st) (out, s')"
      using walk_simulates [OF assms(1,2) sim, of rules allowFakeIP] less.prems(2) same rest w by (simp add: same_walk_def)
    consider result where "out = Inl result" | g where "out = Inr (Await g)" | p where "out = Inr (Pending p)"
      using ok by (metis old.sum.exhaust walk_suspension.exhaust walk_ok.simps(4))
    then show ?thesis
    proof cases
      case (1 result)
      then show ?thesis using resume True w ok by simp
    next
      case (2 g)
      obtain st' where st': "simulates W m s' st'" "walk_fits W st' (drop (ws_ruleIndex s') rules)"
          "rest_result W allowFakeIP m rules s' st' = rest_result W allowFakeIP m rules s st"
          "g < ?n" "\<not> arrived W s1 g" "later s1 s'" "ws_epoch s' = ws_epoch s1"
        using ok 2 by auto
      have "insert g (waiting W ?n s') \<subseteq> waiting W ?n s1"
        using waiting_later [OF assms(1) st'(6)] st'(4,5) by (auto simp: waiting_def)
      then have "card (insert g (waiting W ?n s')) < card (insert f (waiting W ?n s))"
        using f later by (intro psubset_card_mono [OF fin]) auto
      then have "resumeExchangeWithRules W allowFakeIP rules (Await g) s' = Some (rest_result W allowFakeIP m rules s' st')"
        using st' same by (intro less.hyps) (simp_all add: same_walk_def)
      then show ?thesis using resume True w 2 st'(3) by simp
    next
      case (3 p)
      then show ?thesis using resume True w ok resume_pending [OF assms(1)] by auto
    qed
  qed
qed

lemma exchange_walk_fits:
  assumes "proper_schedule W" "\<not> IgnoreDestinationIPCIDRMatch m" "walk_fits W (initial_seq q) rules"
  shows "exchangeWithRules W rules q m allowFakeIP = Some (seq_rules W allowFakeIP m 0 rules (initial_seq q))"
proof -
  obtain b where b: "\<And>e t f. b \<le> e \<Longrightarrow> f < length rules \<Longrightarrow> we_resolved W e t f" using all_arrive [OF assms(1)] by blast
  let ?s = "initial_walk q m" and ?spec = "seq_rules W allowFakeIP m 0 rules (initial_seq q)"
  have sim: "simulates W m ?s (initial_seq q)"
    by (simp add: simulates_def initial_walk_def initial_seq_def named_ok_def)
  have spec: "rest_result W allowFakeIP m rules ?s (initial_seq q) = ?spec" by (simp add: rest_result_def initial_walk_def)
  obtain out s' where w: "walkDNSRules W allowFakeIP rules ?s = (out, s')" by fastforce
  have ok: "walk_ok W allowFakeIP m rules ?s ?spec (out, s')"
    using walk_simulates [OF assms(1,2) sim, of rules allowFakeIP] assms(3) spec w by (simp add: initial_walk_def)
  consider result where "out = Inl result" | f where "out = Inr (Await f)" | p where "out = Inr (Pending p)"
    using ok by (metis old.sum.exhaust walk_suspension.exhaust walk_ok.simps(4))
  then show ?thesis
  proof cases
    case 1
    then show ?thesis using w ok by (simp add: exchangeWithRules_def)
  next
    case (2 f)
    then obtain st' where "simulates W m s' st'" "walk_fits W st' (drop (ws_ruleIndex s') rules)"
        "rest_result W allowFakeIP m rules s' st' = ?spec" "f < length rules"
      using ok by auto
    then show ?thesis using w 2 resume_sequential [OF assms(1,2) b, where s = s' and st = st' and f = f and allowFakeIP = allowFakeIP] by (simp add: exchangeWithRules_def)
  next
    case (3 p)
    then show ?thesis using w ok resume_pending [OF assms(1)] by (auto simp: exchangeWithRules_def)
  qed
qed

subsection \<open>Built rules\<close>

lemma respond_untagged:
  assumes "new_rule (dns_builder L legacy) outer o' = Some (Inr x)" "decoded decoded_dns o'"
    "validateLegacyDNSModeDisabledRuleTree sets ov o' = Inr use" "da_Action (ro_Action o') = DNSRespondAction" "MatchResponseTag x = ''''"
  shows "MatchResponseTags x = []"
proof (cases o')
  case (RuleOptions t d lm rules neg a)
  show ?thesis
  proof (cases "t = ''default''")
    case True
    then have "NewDefaultDNSRule L legacy d = Inr x"
      using assms(1) RuleOptions by (auto simp: dns_builder_def split: if_splits option.splits)
    then obtain r where "x = DefaultDNSRule r (IsEnabled (d_MatchResponse d)) (ResponseTag (d_MatchResponse d))"
      using new_dns_default by metis
    then show ?thesis using assms(5) by simp
  next
    case False
    then have "ru_referencedTags use = []"
      using assms(2-4) new_rule_type [OF assms(1,2)] RuleOptions by (auto split: if_splits)
    then show ?thesis using use_covers(1) [OF refl assms(1-3)] by (simp add: covers_def)
  qed
qed

lemma new_mode_respond:
  assumes "buildRules L F router transport os = Some (Inr (rules, False, fl))" "list_all (decoded decoded_dns) os"
  shows "list_all (\<lambda>(r, a). da_Action a = DNSRespondAction \<and> MatchResponseTag r = '''' \<longrightarrow> MatchResponseTags r = []) rules"
proof -
  obtain sets w where i: "installed (dns_builder L False) F os rules" and "validateLegacyDNSModeDisabledRules sets (\<lambda>_. None) os = Inr w"
    using buildRules_cases [OF assms(1)] by metis
  then obtain s where s: "validate_rules sets (\<lambda>_. None) 0 os initial_validate = Inr s"
    by (auto simp: validateLegacyDNSModeDisabledRules_def)
  have tag: "MatchResponseTag (fill_sets F x) = MatchResponseTag x" for x by (cases x) simp_all
  from i assms(2) validate_rules_each [OF s] show ?thesis
  proof (induction os arbitrary: rules)
    case (Cons o' os)
    then show ?case using respond_untagged [of L False True o'] tag by fastforce
  qed simp
qed



text \<open>
  C5: Asking several servers at once does not change the answer. Let the router build its rules in the new mode, without race
  rules. For every message and every order in which responses arrive, so long as they all arrive eventually and the
  context is not done, the exchange ends, and its result is the one of taking the rules one after another and waiting
  for every response. Rules that refer to responses by name need a calm schedule for this: responses
  arrive only while the walk waits.
\<close>

theorem exchange_sequential:
  assumes "buildRules L F router transport os = Some (Inr (rules, False, fl))" "list_all (decoded decoded_dns) os" "headless_sets F"
    "list_all (\<lambda>(r, a). \<not> da_Race a) rules" "proper_schedule W"
    "calm_schedule W \<or> list_all (\<lambda>(r, a). MatchResponseTags r = []) rules" "\<not> IgnoreDestinationIPCIDRMatch m"
  shows "exchangeWithRules W rules q m allowFakeIP = Some (seq_rules W allowFakeIP m 0 rules (initial_seq q))"
proof -
  have "list_all (steady_rule W) rules"
    using new_mode_dns_ok [OF assms(1-3)] new_mode_respond [OF assms(1,2)] assms(4,6)
    by (auto simp: list_all_iff steady_rule_def)
  moreover have "response_rules {} False rules" by (rule validated_response_rules [OF assms(1,2)])
  ultimately have "walk_fits W (initial_seq q) rules" by (auto simp: walk_fits_def initial_seq_def)
  from exchange_walk_fits [OF assms(5,7) this] show ?thesis .
qed

text \<open>
  A client whose server \<^verbatim>\<open>local\<close> says that the name does not exist, while the others answer. The rules
  \<^const>\<open>new_sample\<close> then ask the server \<^verbatim>\<open>backup\<close>.
\<close>

definition sample_answer :: "nat \<Rightarrow> string \<Rightarrow> dns_query_options \<Rightarrow> dns_msg option \<times> string option" where
  "sample_answer n server q = (Some \<lparr>Rcode = (if server = ''local'' then 3 else 0), Answer = [], Ns = [], Extra = []\<rparr>, None)"

definition sample_walk :: "(nat \<Rightarrow> nat \<Rightarrow> nat \<Rightarrow> bool) \<Rightarrow> walk_env" where
  "sample_walk arrivals =
     \<lparr>we_rules = mode_env, we_transport = (\<lambda>s. Some False), we_default = ''remote'', we_strategy = 0, we_exchange = sample_answer,
      we_resolved = arrivals, we_cancelled = (\<lambda>e. False)\<rparr>"

definition sample_reply :: "string \<Rightarrow> walk_result" where
  "sample_reply server =
     \<lparr>wr_response = Some (ServerReply \<lparr>Rcode = 0, Answer = [], Ns = [], Extra = []\<rparr>), wr_transport = Some server,
      wr_reject = None, wr_error = None\<rparr>"

lemma seq_sample: "seq_rules (sample_walk arrivals) True sample_context 0 new_sample (initial_seq plain_query) = sample_reply ''backup''"
  by code_simp

theorem exchange_sequential_witness:
  "exchangeWithRules (sample_walk (\<lambda>e t f. f < e)) new_sample plain_query sample_context True = Some (sample_reply ''backup'')"
proof -
  let ?W = "sample_walk (\<lambda>e t f. f < e)"
  have "list_all (decoded decoded_dns) new_options" by code_simp
  moreover have "headless_sets (\<lambda>_. [])" by (simp add: headless_sets_def)
  moreover have "list_all (\<lambda>(r, a). \<not> da_Race a) new_sample" by (simp add: new_sample_def)
  moreover have "\<exists>b. \<forall>e\<ge>b. f < e" for f :: nat by (rule exI [of _ "Suc f"]) auto
  then have "proper_schedule ?W" by (auto simp: proper_schedule_def sample_walk_def)
  moreover have "calm_schedule ?W" by (simp add: calm_schedule_def sample_walk_def)
  moreover have "\<not> IgnoreDestinationIPCIDRMatch sample_context" by (simp add: sample_context_def)
  ultimately show ?thesis
    using exchange_sequential [OF new_sample_built, of ?W sample_context plain_query True] seq_sample by simp
qed

subsection \<open>A response that arrives at the wrong moment\<close>

lemma settle_loop_misses:
  assumes "proper_schedule W"
  shows "simulates W m s st \<Longrightarrow> \<forall>g\<in>set fs. g < length (ws_futures s) \<Longrightarrow> ws_named s t = Some f \<Longrightarrow>
    \<forall>k<ws_tick (settle_loop W fs s). \<not> we_resolved W (ws_epoch s) k f \<Longrightarrow>
    ws_responses (settle_loop W fs s) t = ws_responses s t"
proof (induction fs arbitrary: s)
  case (Cons g fs)
  let ?s = "settle_step W g s"
  have g: "g < length (ws_futures s)" using Cons.prems(2) by simp
  have same: "same_walk s ?s" by (rule settle_step_same)
  have step: "settle_loop W (g # fs) s = settle_loop W fs ?s" by (rule settle_loop_step [OF assms])
  have sim: "simulates W m ?s st" by (rule settle_step_simulates [OF Cons.prems(1) g])
  have "\<forall>f\<in>set fs. f < length (ws_futures ?s)" using same Cons.prems(2) by (simp add: same_walk_def)
  note IH = Cons.IH [OF sim this]
  have le: "ws_tick ?s \<le> ws_tick (settle_loop W fs ?s)"
    using settle_loop_simulates [OF assms sim, of fs] \<open>\<forall>f\<in>set fs. f < length (ws_futures ?s)\<close>
    by (simp add: same_walk_def later_def)
  have "ws_responses ?s t = ws_responses s t"
  proof (cases "settled s g \<or> \<not> arrived W s g")
    case True
    then show ?thesis by (auto simp: settle_step_def)
  next
    case False
    then have "ws_tick s < ws_tick (settle_loop W fs ?s)" using le by (simp add: settle_step_def split: if_splits)
    then have "g \<noteq> f" using False Cons.prems(4) unfolding step arrived_def by blast
    moreover have "named_ok W s" using Cons.prems(1) by (simp add: simulates_def)
    ultimately have "wf_tag (ws_futures s ! g) \<noteq> t \<or> t = ''''"
      using Cons.prems(3) g unfolding named_ok_def by (metis option.inject)
    then show ?thesis by (auto simp: settle_step_def settle_one_def Let_def)
  qed
  then show ?case
    using IH Cons.prems(3,4) same unfolding step by (simp add: same_walk_def)
qed simp

text \<open>
  C37: A response can be missed. Before it matches a rule the walk copies the named responses that have arrived, and then
  looks at the queries themselves to decide whether it has to wait. Take any state of the walk that corresponds to a state of the
  specification, and any rule, without race and not inverted, that matches against the response of a named query. If that
  response arrives after the walk has looked at all queries to copy the responses and before it asks whether to wait, then the walk passes the rule over, also where the
  specification, which waits for the response, takes the rule's action.
\<close>

theorem named_response_missed:
  assumes "proper_schedule W" and "simulates W m s st" and "ws_named s t = Some f" and "ws_responses s t = None"
    and "\<forall>k<ws_tick (settleDNSFutures W s). \<not> we_resolved W (ws_epoch s) k f"
    and "we_resolved W (ws_epoch s) (ws_tick (settleDNSFutures W s)) f"
    and "seq_match W m (DefaultDNSRule r True t) st" and "\<not> invert r" and "\<not> da_Race a"
  shows "seq_rule W allowFakeIP m i (DefaultDNSRule r True t, a) st =
      seq_action W allowFakeIP i (DefaultDNSRule r True t) (da_Action a) st \<and>
    (\<exists>s'. walk_rule W allowFakeIP (DefaultDNSRule r True t, a) s = (Next, s'))"
proof -
  let ?s = "settleDNSFutures W s" and ?r = "DefaultDNSRule r True t"
  have t: "t \<noteq> ''''" using assms(2,3) unfolding simulates_def named_ok_def by blast
  have same: "ws_named ?s t = Some f" "ws_epoch ?s = ws_epoch s"
    using settle_simulates(2) [OF assms(1,2)] assms(3) by (simp_all add: same_walk_def)
  have none: "ws_responses ?s t = None"
    using settle_loop_misses [OF assms(1,2), of "[0..<length (ws_futures s)]" t f] assms(3-5)
    by (simp add: settleDNSFutures_def)
  have await: "await_bindings W ?r ?s = (None, ?s\<lparr>ws_tick := Suc (ws_tick ?s)\<rparr>)"
    using t same assms(6) by (simp add: await_bindings_def resolved_def)
  obtain response s1 where an: "anonymousResponse W (?s\<lparr>ws_tick := Suc (ws_tick ?s)\<rparr>) = (response, s1)" by fastforce
  have "ws_responses s1 t = None" using none ticksD(3) [OF anonymousResponse_ticks(1) [OF an]] by simp
  then have "fst (match_with W response ?r s1) = False"
    using t assms(8) by (simp add: match_with_def rule_Match.simps rule_metadata_def Let_def)
  then have "\<exists>s'. walk_rule W allowFakeIP (?r, a) s = (Next, s')"
    using await an assms(9) by (simp add: walk_rule_def walk_match_def case_prod_unfold matches_response_default)
  then show ?thesis using assms(7) by (simp add: seq_rule_def)
qed

text \<open>The state of the walk over \<^const>\<open>new_sample\<close> before the third rule: both servers have been asked.\<close>

definition sample_state :: walk_state where
  "sample_state = (initial_walk plain_query sample_context)\<lparr>ws_ruleIndex := 2, ws_anonymous := Some 0, ws_named := [''near'' \<mapsto> 1],
     ws_futures := [\<lparr>wf_tag = '''', wf_terminal = False, wf_server = ''remote'', wf_options = plain_query, wf_settled = False\<rparr>,
       \<lparr>wf_tag = ''near'', wf_terminal = False, wf_server = ''local'', wf_options = plain_query, wf_settled = False\<rparr>],
     ws_tick := 1\<rparr>"

definition sample_seq :: "walk_env \<Rightarrow> seq_state" where
  "sample_seq W = \<lparr>sq_options = plain_query, sq_count = 2, sq_anonymous = Some (evaluated W sample_state 0),
     sq_named = [''near'' \<mapsto> evaluated W sample_state 1]\<rparr>"

lemma sample_simulates: "simulates W sample_context sample_state (sample_seq W)"
proof -
  have "named_ok W sample_state"
    by (auto simp: named_ok_def sample_state_def initial_walk_def settled_def nth_Cons')
  then show ?thesis
    by (auto simp: simulates_def sample_seq_def fun_eq_iff) (auto simp: sample_state_def initial_walk_def)
qed

definition rcode_rule :: default_rule where
  "rcode_rule = AbstractDefaultRule [DNSResponseRCodeItem 3] [] [] [] [] [] [PlainItem (DNSResponseRCodeItem 3)] None False"

theorem named_response_missed_witness:
  "let W = sample_walk (\<lambda>e t f. f = 0 \<or> 3 \<le> t \<or> 1 \<le> e);
       rule = (DefaultDNSRule rcode_rule True ''near'', \<lparr>da_Action = DNSRouteAction ''backup'' plain_dns_route False, da_Race = False\<rparr>)
   in seq_rule W True sample_context 2 rule (sample_seq W) = Inl (sample_reply ''backup'') \<and>
      (\<exists>s'. walk_rule W True rule sample_state = (Next, s'))"
proof -
  let ?W = "sample_walk (\<lambda>e t f. f = 0 \<or> 3 \<le> t \<or> 1 \<le> e)" and ?r = "DefaultDNSRule rcode_rule True ''near''"
    and ?a = "\<lparr>da_Action = DNSRouteAction ''backup'' plain_dns_route False, da_Race = False\<rparr>"
  have "proper_schedule ?W" by (auto simp: proper_schedule_def sample_walk_def)
  moreover have "ws_named sample_state ''near'' = Some 1" "ws_responses sample_state ''near'' = None" "ws_epoch sample_state = 0"
    by (simp_all add: sample_state_def initial_walk_def)
  moreover have tick: "ws_tick (settleDNSFutures ?W sample_state) = 3" by code_simp
  have "\<forall>k<ws_tick (settleDNSFutures ?W sample_state). \<not> we_resolved ?W 0 k 1"
    "we_resolved ?W 0 (ws_tick (settleDNSFutures ?W sample_state)) 1"
    unfolding tick by (simp_all add: sample_walk_def)
  moreover have "seq_match ?W sample_context ?r (sample_seq ?W) = True" by code_simp
  moreover have "\<not> invert rcode_rule" "\<not> da_Race ?a" by (simp_all add: rcode_rule_def)
  moreover have "(case seq_action ?W True 2 ?r (da_Action ?a) (sample_seq ?W) of Inl reply \<Rightarrow> reply = sample_reply ''backup'' | Inr _ \<Rightarrow> False) = True"
    by code_simp
  then have "seq_action ?W True 2 ?r (da_Action ?a) (sample_seq ?W) = Inl (sample_reply ''backup'')" by (simp split: sum.splits)
  ultimately show ?thesis
    using named_response_missed [OF _ sample_simulates, of ?W "''near''" 1 rcode_rule ?a True 2] unfolding Let_def by simp
qed

text \<open>
  Through the whole exchange: for these rules and answers it returns the response of \<^verbatim>\<open>remote\<close>, where waiting for each
  response leads to \<^verbatim>\<open>backup\<close>.
\<close>

theorem missed_response_exchange:
  "let W = sample_walk (\<lambda>e t f. f = 0 \<or> 3 \<le> t \<or> 1 \<le> e) in
     proper_schedule W \<and>
     (\<exists>fl. buildRules sample_lib (\<lambda>_. []) None (\<lambda>s. Some False) new_options = Some (Inr (new_sample, False, fl))) \<and>
     exchangeWithRules W new_sample plain_query sample_context True = Some (sample_reply ''remote'') \<and>
     seq_rules W True sample_context 0 new_sample (initial_seq plain_query) = sample_reply ''backup''"
proof -
  let ?W = "sample_walk (\<lambda>e t f. f = 0 \<or> 3 \<le> t \<or> 1 \<le> e)"
  have "proper_schedule ?W" by (auto simp: proper_schedule_def sample_walk_def)
  moreover have "exchangeWithRules ?W new_sample plain_query sample_context True = Some (sample_reply ''remote'')" by code_simp
  ultimately show ?thesis using new_sample_built seq_sample unfolding Let_def by blast
qed

end
