(* ===== verification/Spec2Isabelle.thy ===== *)
theory Spec2Isabelle
  imports Prelude Version Netip ReferenceManager RuleSetRefs FakeIP TransportManager Reachability DnsSequential
begin

text \<open>
  \<^bold>\<open>sing-box-lx: a proxy platform, its routing and naming core.\<close>

  The program (sources under \<^verbatim>\<open>src/\<close>, in Go) accepts connections at inbounds, decides by rules
  which outbound carries them, and answers DNS queries by rules over DNS servers.  The parts that
  the development covers interact as follows.  A configuration is checked
  (\<^verbatim>\<open>option/options.go\<close>), outbounds, endpoints and DNS servers are created by their managers
  and started in the order of their dependencies, each in a scope that closes it again.  Rules
  (\<^verbatim>\<open>route/rule\<close>) are built from options, refer to rule-sets that are loaded and counted, and
  are matched against the metadata of a connection or query.  The outbound a rule names may be a
  group, a selector or a URL test group, which leads to a node by choice, by measured delay or by
  rotation through a pool.  Which outbounds and DNS servers are in use is computed from the rules
  and groups, so that connections nothing refers to can be closed and idle nodes suspended.  The
  DNS router builds its rules in one of two modes; a DNS rule may send a query to the fakeip server,
  which hands out an address for the name and gives the name back when a connection to that
  address arrives.

  \<^bold>\<open>Theories, and the code they model\<close>

  \<^item> \<^verbatim>\<open>Prelude\<close>: error sequencing, Go's \<^verbatim>\<open>strings\<close> and \<^verbatim>\<open>strconv\<close> as far as used.
  \<^item> \<^verbatim>\<open>Version\<close>: \<^verbatim>\<open>common/badversion\<close>.  Order of versions, parse and print.
  \<^item> \<^verbatim>\<open>Netip\<close>: addresses and prefixes of Go's \<^verbatim>\<open>net/netip\<close> as words.
  \<^item> \<^verbatim>\<open>RuleItems\<close>: the rule items of \<^verbatim>\<open>route/rule/rule_item_*.go\<close>, one \<open>X_Match\<close>
    per item, and the metadata of \<^verbatim>\<open>adapter/inbound.go\<close> they read.
  \<^item> \<^verbatim>\<open>RuleEngine\<close>: \<^verbatim>\<open>rule_abstract.go\<close>, \<^verbatim>\<open>rule_set.go\<close>, \<^verbatim>\<open>rule_item_rule_set.go\<close>
    and the legacy matching of \<^verbatim>\<open>rule_dns.go\<close>: groups of conditions, merging of a rule-set's
    groups into the rule that refers to it, deferral of address conditions.  The mutable metadata is
    passed through and returned.
  \<^item> \<^verbatim>\<open>RuleSpec\<close>: a declarative meaning of rules, that the engine computes it, and where it agrees with
    the documentation.
  \<^item> \<^verbatim>\<open>RulePreMatch\<close>: what the match of a DNS rule before the response says about the match with it.
  \<^item> \<^verbatim>\<open>RuleBuild\<close>: the constructors of items, headless, route and DNS rules, the metadata of a loaded
    rule-set.
  \<^item> \<^verbatim>\<open>RuleSetRefs\<close>: reference counts of rule-sets, as 32-bit words.
  \<^item> \<^verbatim>\<open>FakeIP\<close>: \<^verbatim>\<open>dns/transport/fakeip\<close>.  The store on any storage, the memory storage, the
    query handler.
  \<^item> \<^verbatim>\<open>Lifecycle\<close>: \<^verbatim>\<open>adapter/lifecycle.go\<close>.  Scopes as trees of cleanups.
  \<^item> \<^verbatim>\<open>StartOrder\<close>: the dependency loop of \<^verbatim>\<open>startOutbounds\<close> and \<^verbatim>\<open>startTransports\<close>.
  \<^item> \<^verbatim>\<open>OutboundManager\<close>, \<^verbatim>\<open>TransportManager\<close>: the managers of outbounds, endpoints and DNS
    servers.
  \<^item> \<^verbatim>\<open>PoolPlan\<close>, \<^verbatim>\<open>Balancer\<close>, \<^verbatim>\<open>PoolHealth\<close>: the \<^verbatim>\<open>round_robin\<close> mode of a URL test
    group (\<^verbatim>\<open>protocol/group/urltest_balance_lx.go\<close>): planners of the pool, choice of a slot for a
    connection, and the health checks that maintain the pool.
  \<^item> \<^verbatim>\<open>UrlTestSelect\<close>: the node a URL test group selects (\<^verbatim>\<open>urltest.go\<close>), with penalties and
    failover.
  \<^item> \<^verbatim>\<open>OutboundGroups\<close>: the selector (\<^verbatim>\<open>selector.go\<close>) and the resolution of nested groups in a
    started box.
  \<^item> \<^verbatim>\<open>Reachability\<close>: \<^verbatim>\<open>route/reachability_lx.go\<close>.  The walk over the routing tree, its cache and
    the idle tick.
  \<^item> \<^verbatim>\<open>RuleReferences\<close>: \<^verbatim>\<open>route/reference_rule.go\<close>, the construction of rules with their actions,
    and the selection of a rule by the routers.
  \<^item> \<^verbatim>\<open>ReferenceManager\<close>: \<^verbatim>\<open>route/reference.go\<close>.
  \<^item> \<^verbatim>\<open>DnsMode\<close>: how \<^verbatim>\<open>dns/router.go\<close> chooses its mode, validates and builds its rules, and which
    updates of rule-sets it accepts.
  \<^item> \<^verbatim>\<open>DnsResponses\<close>: which responses the match of a DNS rule depends on.
  \<^item> \<^verbatim>\<open>DnsWalk\<close>: the exchange of the new mode (\<^verbatim>\<open>walkDNSRules\<close> and
    \<^verbatim>\<open>resumeExchangeWithRules\<close> of \<^verbatim>\<open>dns/router.go\<close>) with queries that run during the walk, for every
    order in which their responses arrive.
  \<^item> \<^verbatim>\<open>DnsSequential\<close>: that exchange compared with one query after another.

  \<^bold>\<open>Conventions\<close>

  A struct is a record with the field names of the source, an interface with several
  implementations a datatype or a record of operations, a method a function on the record.  Errors
  are values of a sum or option type.  Locks do not appear: an operation is what the code does while
  it holds its lock, and where a method takes the lock only in part (\<^verbatim>\<open>fakeip.Store.Create\<close>) the
  locked part is a definition of its own.  Code outside \<^verbatim>\<open>src/\<close> (regular expressions, the DNS
  library, the error functions of the \<^verbatim>\<open>sing\<close> library) is a parameter.  Loops are recursions with
  a termination proof; nothing uses fuel.  Loops that need not end, the resolution of nested
  groups and \<^verbatim>\<open>resumeExchangeWithRules\<close>, are partial functions into an option, and that they return
  is part of the theorems about them.

  \<^bold>\<open>What is shown\<close>

  \<^item> Rules: the engine refines a declarative matching logic, which is the documented one except for two
    kinds of rules; on a fragment of the DNS rules the early match is sound for every response, and exact for
    rules without address limit; every block of a constructor keeps the lists of a rule consistent; cases outside the
    fragment where the early match loses a match or contradicts the documentation.
  \<^item> FakeIP: every address handed out lies in the range, maps back to its domain, and keeps doing so
    for a full turn of the pool; the indexes are converse to each other; a range too small for a
    pool is not detected.
  \<^item> Starting and stopping: cleanups run once in reverse order; components are started once, after
    their dependencies; the loop succeeds exactly on acyclic complete dependencies; a reported
    failure is real; a tag collision that ends in a nil dereference.
  \<^item> Groups: a checked pool is the one the planner computes and stays full, without duplicates and stable;
    members change only for a difference beyond the tolerance; the selection by delay, its fallback
    and failover; nested groups resolve in a started box; a 16-bit sum of delay and tolerance wraps.
  \<^item> Use of outbounds and servers: the collected references contain every choice of the routers, for rules
    that have more than \<^verbatim>\<open>invert\<close> as a condition and usable servers; the
    reference manager computes their closure and tells every object whether it is in use; the
    walk marks exactly what is reachable and its cache is coherent with one reader; cases where a
    used outbound or server is not collected, and a race on the cache.
  \<^item> DNS router: in the legacy mode the chosen server is among the collected ones; in the new mode every
    response a rule refers to is evaluated before it; accepted updates of rule-sets keep the rules fit
    for the mode; the exchange of the new mode ends and, without race rules, gives the result of asking
    one server after another; its two variants agree; a named response can be missed.
  \<^item> Versions: a strict linear order, round trips of the printers and their limits.

  \<^bold>\<open>Not modelled\<close>

  The protocols (\<^verbatim>\<open>protocol/\<close> except \<^verbatim>\<open>protocol/group\<close>), \<^verbatim>\<open>transport/\<close>, TLS and
  certificates, sniffers, dialers, the command services and platform interfaces are network and
  operating-system code around third-party libraries.  JSON decoding, the files of rule-sets and the
  databases of \<^verbatim>\<open>experimental/cachefile\<close> are left out: their results are inputs of the model.  Of
  the DNS router the exchange and lookup around the choice of a server are not modelled, of the DNS
  client only what the fakeip server needs; its answers are a parameter of the walk.  The two ways to
  ask the client, \<^verbatim>\<open>Exchange\<close> and \<^verbatim>\<open>ExchangeAsync\<close>, are one parameter.  Concurrency is
  modelled as sequences of locked sections, for the queries of the walk as a schedule that says
  when each response is seen, and for the reachability walk, which holds no lock, as single steps that
  look at one outbound each.
\<close>

end
